(* ===== verification/Prelude.thy ===== *)
theory Prelude
  imports Main "HOL-Library.Word" "HOL-Library.Monad_Syntax" "HOL-Library.Multiset"
    "HOL-Library.Code_Target_Numeral"
begin

unbundle bit_operations_syntax

text \<open>
  What every component of the model shares.

  Objects live in stores, finite maps from addresses to records. A C++ pointer is a
  \<open>ptr\<close>: \<open>None\<close> is NULL, \<open>Some a\<close> the address of an object. A code fragment that
  dereferences NULL or freed memory, reads an array out of range, fails an assertion or
  does not return has the value \<open>None\<close>; a theorem that says \<open>f x = Some y\<close> therefore
  says that the code returns and does none of these.

  An intrusive member (the \<open>HNode\<close> or \<open>AVLNode\<close> embedded in a larger struct) has the
  address of the struct that holds it, in a store of its own, so \<open>container_of\<close> is the
  identity on addresses.
\<close>

type_synonym addr = nat
type_synonym ptr = "addr option"
type_synonym byte = "8 word"
type_synonym bytes = "byte list"
type_synonym u32 = "32 word"
type_synonym u64 = "64 word"

named_theorems frame_simps \<open>what an update of a store leaves unchanged\<close>
named_theorems rep_intros \<open>introduction rules of the representation predicates\<close>

text \<open>The deliberate end of a process by \<open>die\<close>, which prints a message and calls \<open>abort\<close>, is not a failure.\<close>

datatype 'a outcome = Died | Running 'a

section \<open>Reads and writes that can fail\<close>

definition nth_opt :: "'a list \<Rightarrow> nat \<Rightarrow> 'a option" where
  "nth_opt xs i = (if i < length xs then Some (xs ! i) else None)"

definition upd_nth :: "'a list \<Rightarrow> nat \<Rightarrow> 'a \<Rightarrow> 'a list option" where
  "upd_nth xs i v = (if i < length xs then Some (xs[i := v]) else None)"

text \<open>A write to a member of the object at an address.\<close>

definition modify :: "(addr \<rightharpoonup> 'a) \<Rightarrow> addr \<Rightarrow> ('a \<Rightarrow> 'a) \<Rightarrow> (addr \<rightharpoonup> 'a) option" where
  "modify s a f = (case s a of None \<Rightarrow> None | Some n \<Rightarrow> Some (s(a \<mapsto> f n)))"

text \<open>An assertion, or a condition whose failure is undefined behaviour.\<close>

definition require :: "bool \<Rightarrow> unit option" where
  "require b = (if b then Some () else None)"

text \<open>The value of a signed 64-bit expression; overflow is undefined behaviour.\<close>

definition i64 :: "int \<Rightarrow> int option" where
  "i64 x = (if - (2 ^ 63) \<le> x \<and> x < 2 ^ 63 then Some x else None)"

lemma i64_Some [simp]: "- (2 ^ 63) \<le> x \<Longrightarrow> x < 2 ^ 63 \<Longrightarrow> i64 x = Some x"
  by (simp add: i64_def)

lemma require_simps [simp]: "require True = Some ()" "require False = None"
  by (simp_all add: require_def)

lemma require_eq_Some [simp]: "require b = Some u \<longleftrightarrow> b"
  by (simp add: require_def)

lemma nth_opt_lt [simp]: "i < length xs \<Longrightarrow> nth_opt xs i = Some (xs ! i)"
  by (simp add: nth_opt_def)

lemma nth_opt_eq_Some: "nth_opt xs i = Some v \<longleftrightarrow> i < length xs \<and> xs ! i = v"
  by (auto simp: nth_opt_def)

lemma upd_nth_lt [simp]: "i < length xs \<Longrightarrow> upd_nth xs i v = Some (xs[i := v])"
  by (simp add: upd_nth_def)

lemma modify_Some [simp]: "s a = Some n \<Longrightarrow> modify s a f = Some (s(a \<mapsto> f n))"
  by (simp add: modify_def)

lemma modify_eq_Some:
  "modify s a f = Some s' \<longleftrightarrow> (\<exists>n. s a = Some n \<and> s' = s(a \<mapsto> f n))"
  by (auto simp: modify_def split: option.splits)

text \<open>The allocated addresses of a store.\<close>

definition live :: "(addr \<rightharpoonup> 'a) \<Rightarrow> addr \<Rightarrow> bool" where
  "live s a \<longleftrightarrow> s a \<noteq> None"

lemma liveE: "live s' = live s \<Longrightarrow> s a = Some n \<Longrightarrow> \<exists>n'. s' a = Some n'"
  by (metis live_def not_None_eq)

lemma modify_live: "modify s a f = Some s' \<Longrightarrow> live s' = live s"
  by (rule ext) (auto simp: modify_eq_Some live_def split: if_splits)

section \<open>Stores that agree\<close>

text \<open>The store \<open>s'\<close> differs from \<open>s\<close> at most on the addresses \<open>A\<close>.\<close>

definition same_outside :: "addr set \<Rightarrow> (addr \<rightharpoonup> 'a) \<Rightarrow> (addr \<rightharpoonup> 'a) \<Rightarrow> bool" where
  "same_outside A s s' \<longleftrightarrow> (\<forall>x. x \<notin> A \<longrightarrow> s' x = s x)"

lemma same_outside_refl [simp, intro]: "same_outside A s s"
  by (simp add: same_outside_def)

lemma same_outside_trans:
  "same_outside A s s' \<Longrightarrow> same_outside A s' s'' \<Longrightarrow> same_outside A s s''"
  by (simp add: same_outside_def)

lemma same_outside_mono:
  "same_outside A s s' \<Longrightarrow> A \<subseteq> B \<Longrightarrow> same_outside B s s'"
  by (auto simp: same_outside_def)

lemma same_outside_upd [intro]: "same_outside A s s' \<Longrightarrow> a \<in> A \<Longrightarrow> same_outside A s (s'(a := v))"
  by (auto simp: same_outside_def)

lemma same_outside_upd_self [simp]: "a \<in> A \<Longrightarrow> same_outside A s (s(a := v))"
  by (auto simp: same_outside_def)

lemma same_outsideD: "same_outside A s s' \<Longrightarrow> x \<notin> A \<Longrightarrow> s' x = s x"
  by (simp add: same_outside_def)

section \<open>Lists\<close>

lemma nth_middle:
  "length xs \<le> n \<Longrightarrow> n < length xs + length ys \<Longrightarrow> (xs @ ys @ zs) ! n = ys ! (n - length xs)"
  by (auto simp: nth_append)

lemma find_append:
  "find P (xs @ ys) = (case find P xs of None \<Rightarrow> find P ys | Some a \<Rightarrow> Some a)"
  by (induction xs) auto

lemma sorted_wrt_remove1: "sorted_wrt R xs \<Longrightarrow> sorted_wrt R (remove1 a xs)"
  by (induction xs) (auto dest: notin_set_remove1 set_remove1_subset [THEN subsetD])

text \<open>Lists of lists, as the buckets of a table: replacing one list, disjointness.\<close>

lemma mset_concat_update:
  "i < length xss \<Longrightarrow> mset (concat (xss[i := ys])) + mset (xss ! i) = mset (concat xss) + mset ys"
proof -
  assume i: "i < length xss"
  have "xss = take i xss @ xss ! i # drop (Suc i) xss"
    using i by (rule id_take_nth_drop)
  then have "mset (concat xss) = mset (concat (take i xss)) + mset (xss ! i) + mset (concat (drop (Suc i) xss))"
    by (metis concat.simps(2) concat_append mset_append union_assoc)
  moreover have "mset (concat (xss[i := ys])) =
      mset (concat (take i xss)) + mset ys + mset (concat (drop (Suc i) xss))"
    using i by (simp add: upd_conv_take_nth_drop)
  ultimately show ?thesis by simp
qed

lemma set_concat_nth: "a \<in> set (concat xss) \<longleftrightarrow> (\<exists>i < length xss. a \<in> set (xss ! i))"
  by (auto simp: in_set_conv_nth) (metis nth_mem)+

lemma in_concat_nthI: "i < length xss \<Longrightarrow> a \<in> set (xss ! i) \<Longrightarrow> a \<in> set (concat xss)"
  by (auto simp: set_concat_nth simp del: set_concat)

lemma distinct_concat_disjoint:
  "distinct (concat xss) \<Longrightarrow> i < length xss \<Longrightarrow> j < length xss \<Longrightarrow>
   a \<in> set (xss ! i) \<Longrightarrow> a \<in> set (xss ! j) \<Longrightarrow> i = j"
proof (induction xss arbitrary: i j)
  case (Cons xs xss)
  have "a \<in> set (xss ! k) \<Longrightarrow> k < length xss \<Longrightarrow> a \<notin> set xs" for k
    using Cons.prems(1) nth_mem by fastforce
  then show ?case using Cons by (cases i; cases j) auto
qed simp

lemma distinct_concat_nth: "distinct (concat xss) \<Longrightarrow> i < length xss \<Longrightarrow> distinct (xss ! i)"
  by (induction xss arbitrary: i) (auto simp: nth_Cons split: nat.splits)

text \<open>Bounded quantifiers over small numerals, for the concrete tables of witnesses.\<close>

lemma all_less_4: "(\<forall>i < 4. P i) \<longleftrightarrow> P (0::nat) \<and> P 1 \<and> P 2 \<and> P 3"
proof -
  have "{..<4::nat} = {0, 1, 2, 3}" by auto
  moreover have "(\<forall>i < 4. P i) \<longleftrightarrow> (\<forall>i \<in> {..<4}. P i)" by auto
  ultimately have "(\<forall>i < 4. P i) \<longleftrightarrow> (\<forall>i \<in> {0, 1, 2, 3}. P i)" by (simp only:)
  then show ?thesis by (simp only: ball_simps HOL.simp_thms)
qed

lemma all_less_8: "(\<forall>i < 8. P i) \<longleftrightarrow> P (0::nat) \<and> P 1 \<and> P 2 \<and> P 3 \<and> P 4 \<and> P 5 \<and> P 6 \<and> P 7"
proof -
  have "{..<8::nat} = {0, 1, 2, 3, 4, 5, 6, 7}" by auto
  moreover have "(\<forall>i < 8. P i) \<longleftrightarrow> (\<forall>i \<in> {..<8}. P i)" by auto
  ultimately have "(\<forall>i < 8. P i) \<longleftrightarrow> (\<forall>i \<in> {0, 1, 2, 3, 4, 5, 6, 7}. P i)" by (simp only:)
  then show ?thesis by (simp only: ball_simps HOL.simp_thms)
qed

end
