(* ===== verification/Protocol.thy ===== *)
theory Protocol
  imports Prelude
begin

text \<open>
  The wire format: the request parser and the response serializer of \<open>src/server.cpp\<close>, and the
  request writer and response reader of \<open>src/client.cpp\<close>. A buffer is the list of its bytes; a
  pointer range \<open>[cur, end)\<close> is the list of the bytes in it, and advancing \<open>cur\<close> drops bytes from
  the front. The machines of both sides are little endian, so copying an integer to or from a
  buffer is \<open>le_bytes\<close> and \<open>le_nat\<close>.
\<close>

section \<open>Integers in memory\<close>

fun le_bytes :: "nat \<Rightarrow> nat \<Rightarrow> bytes" where
  "le_bytes 0 x = []"
| "le_bytes (Suc n) x = of_nat (x mod 256) # le_bytes n (x div 256)"

fun le_nat :: "bytes \<Rightarrow> nat" where
  "le_nat [] = 0"
| "le_nat (b # bs) = unat b + 256 * le_nat bs"

definition u32_bytes :: "u32 \<Rightarrow> bytes" where
  "u32_bytes w = le_bytes 4 (unat w)"

definition u64_bytes :: "u64 \<Rightarrow> bytes" where
  "u64_bytes w = le_bytes 8 (unat w)"

definition bytes_u32 :: "bytes \<Rightarrow> u32" where
  "bytes_u32 bs = of_nat (le_nat bs)"

definition bytes_u64 :: "bytes \<Rightarrow> u64" where
  "bytes_u64 bs = of_nat (le_nat bs)"

text \<open>\<open>memcpy(&x, &data[i], n)\<close>, which reads out of bounds when the bytes are not there.\<close>

definition mem_read :: "bytes \<Rightarrow> nat \<Rightarrow> nat \<Rightarrow> bytes option" where
  "mem_read data i n = (if i + n \<le> length data then Some (take n (drop i data)) else None)"

text \<open>\<open>memcpy(&buf[i], bs, n)\<close>, which writes out of bounds when the buffer is too short.\<close>

definition mem_write :: "bytes \<Rightarrow> nat \<Rightarrow> bytes \<Rightarrow> bytes option" where
  "mem_write buf i bs =
     (if i + length bs \<le> length buf then Some (take i buf @ bs @ drop (i + length bs) buf) else None)"

section \<open>Parsing a request\<close>

definition k_max_msg :: nat where
  "k_max_msg = 32 * 2 ^ 20"

definition k_max_args :: nat where
  "k_max_args = 200 * 1000"

text \<open>\<open>None\<close> is the result \<open>false\<close> of the readers and \<open>-1\<close> of the parser.\<close>

definition read_u32 :: "bytes \<Rightarrow> (u32 \<times> bytes) option" where
  "read_u32 cur = (if length cur < 4 then None else Some (bytes_u32 (take 4 cur), drop 4 cur))"

definition read_str :: "bytes \<Rightarrow> u32 \<Rightarrow> (bytes \<times> bytes) option" where
  "read_str cur n = (if length cur < unat n then None else Some (take (unat n) cur, drop (unat n) cur))"

function parse_loop :: "nat \<Rightarrow> bytes \<Rightarrow> bytes list \<Rightarrow> (bytes \<times> bytes list) option" where
  "parse_loop nstr cur out =
     (if length out < nstr then do {
        (len, cur) \<leftarrow> read_u32 cur;
        (s, cur) \<leftarrow> read_str cur len;
        parse_loop nstr cur (out @ [s]) }
      else Some (cur, out))"
  by pat_completeness auto
termination
  by (relation "measure (\<lambda>(nstr, cur, out). nstr - length out)") auto

declare parse_loop.simps [simp del]

definition parse_req :: "bytes \<Rightarrow> bytes list option" where
  "parse_req data = do {
     (nstr, cur) \<leftarrow> read_u32 data;
     if unat nstr > k_max_args then None
     else do {
       (cur, out) \<leftarrow> parse_loop (unat nstr) cur [];
       if cur \<noteq> [] then None else Some out } }"

section \<open>Writing a response\<close>

definition ERR_UNKNOWN :: u32 where "ERR_UNKNOWN = 1"
definition ERR_TOO_BIG :: u32 where "ERR_TOO_BIG = 2"
definition ERR_BAD_TYP :: u32 where "ERR_BAD_TYP = 3"
definition ERR_BAD_ARG :: u32 where "ERR_BAD_ARG = 4"

definition TAG_NIL :: byte where "TAG_NIL = 0"
definition TAG_ERR :: byte where "TAG_ERR = 1"
definition TAG_STR :: byte where "TAG_STR = 2"
definition TAG_INT :: byte where "TAG_INT = 3"
definition TAG_DBL :: byte where "TAG_DBL = 4"
definition TAG_ARR :: byte where "TAG_ARR = 5"

lemmas tag_defs = TAG_NIL_def TAG_ERR_def TAG_STR_def TAG_INT_def TAG_DBL_def TAG_ARR_def

definition buf_append :: "bytes \<Rightarrow> bytes \<Rightarrow> bytes" where
  "buf_append buf data = buf @ data"

definition buf_consume :: "bytes \<Rightarrow> nat \<Rightarrow> bytes option" where
  "buf_consume buf n = (if n \<le> length buf then Some (drop n buf) else None)"

definition buf_append_u8 :: "bytes \<Rightarrow> byte \<Rightarrow> bytes" where
  "buf_append_u8 buf data = buf @ [data]"

definition buf_append_u32 :: "bytes \<Rightarrow> u32 \<Rightarrow> bytes" where
  "buf_append_u32 buf data = buf_append buf (u32_bytes data)"

text \<open>An \<open>int64_t\<close> is copied as its two's complement bits.\<close>

definition buf_append_i64 :: "bytes \<Rightarrow> int \<Rightarrow> bytes" where
  "buf_append_i64 buf data = buf_append buf (u64_bytes (of_int data))"

definition buf_append_dbl :: "bytes \<Rightarrow> u64 \<Rightarrow> bytes" where
  "buf_append_dbl buf data = buf_append buf (u64_bytes data)"

definition out_nil :: "bytes \<Rightarrow> bytes" where
  "out_nil out = buf_append_u8 out TAG_NIL"

definition out_str :: "bytes \<Rightarrow> bytes \<Rightarrow> bytes" where
  "out_str out s = buf_append (buf_append_u32 (buf_append_u8 out TAG_STR) (of_nat (length s))) s"

definition out_int :: "bytes \<Rightarrow> int \<Rightarrow> bytes" where
  "out_int out val = buf_append_i64 (buf_append_u8 out TAG_INT) val"

definition out_dbl :: "bytes \<Rightarrow> u64 \<Rightarrow> bytes" where
  "out_dbl out val = buf_append_dbl (buf_append_u8 out TAG_DBL) val"

definition out_err :: "bytes \<Rightarrow> u32 \<Rightarrow> bytes \<Rightarrow> bytes" where
  "out_err out code m =
     buf_append (buf_append_u32 (buf_append_u32 (buf_append_u8 out TAG_ERR) code) (of_nat (length m))) m"

definition out_arr :: "bytes \<Rightarrow> u32 \<Rightarrow> bytes" where
  "out_arr out n = buf_append_u32 (buf_append_u8 out TAG_ARR) n"

definition out_begin_arr :: "bytes \<Rightarrow> bytes \<times> nat" where
  "out_begin_arr out = (let out = buf_append_u32 (out @ [TAG_ARR]) 0 in (out, length out - 4))"

definition out_end_arr :: "bytes \<Rightarrow> nat \<Rightarrow> u32 \<Rightarrow> bytes option" where
  "out_end_arr out ctx n = do {
     tag \<leftarrow> nth_opt out (ctx - 1);
     require (tag = TAG_ARR);
     mem_write out ctx (u32_bytes n) }"

definition response_begin :: "bytes \<Rightarrow> bytes \<times> nat" where
  "response_begin out = (buf_append_u32 out 0, length out)"

definition response_size :: "bytes \<Rightarrow> nat \<Rightarrow> nat" where
  "response_size out header = length out - header - 4"

text \<open>The text of a message: its characters as bytes.\<close>

definition ascii :: "string \<Rightarrow> bytes" where
  "ascii s = map of_char s"

definition response_end :: "bytes \<Rightarrow> nat \<Rightarrow> bytes option" where
  "response_end out header = (
     let msg_size = response_size out header;
         (out, msg_size) =
           (if msg_size > k_max_msg
            then let out = out_err (take (header + 4) out) ERR_TOO_BIG (ascii ''response is too big.'')
                 in (out, response_size out header)
            else (out, msg_size))
     in mem_write out header (u32_bytes (of_nat msg_size)))"

section \<open>The client\<close>

definition client_max_msg :: nat where
  "client_max_msg = 4096"

text \<open>
  \<open>send_req\<close> builds the message in \<open>wbuf\<close> and writes its first \<open>4 + len\<close> bytes. The result is
  \<open>Some None\<close> for the return value \<open>-1\<close> and \<open>Some (Some m)\<close> when \<open>m\<close> is written. The length is
  computed in 32 bits.
\<close>

definition send_len :: "bytes list \<Rightarrow> u32" where
  "send_len cmd = foldl (\<lambda>len s. of_nat (unat len + 4 + length s)) 4 cmd"

fun send_body :: "bytes list \<Rightarrow> bytes \<Rightarrow> nat \<Rightarrow> (bytes \<times> nat) option" where
  "send_body [] wbuf cur = Some (wbuf, cur)"
| "send_body (s # cmd) wbuf cur = do {
     wbuf \<leftarrow> mem_write wbuf cur (u32_bytes (of_nat (length s)));
     wbuf \<leftarrow> mem_write wbuf (cur + 4) s;
     send_body cmd wbuf (cur + 4 + length s) }"

definition send_req :: "bytes list \<Rightarrow> bytes option option" where
  "send_req cmd = (
     let len = send_len cmd in
     if unat len > client_max_msg then Some None
     else do {
       let wbuf = replicate (4 + client_max_msg) 0;
       wbuf \<leftarrow> mem_write wbuf 0 (u32_bytes len);
       wbuf \<leftarrow> mem_write wbuf 4 (u32_bytes (of_nat (length cmd)));
       (wbuf, cur) \<leftarrow> send_body cmd wbuf 8;
       m \<leftarrow> mem_read wbuf 0 (4 + unat len);
       Some (Some m) })"

text \<open>
  \<open>print_response\<close>. What it prints is a list of items; its result is the number of bytes
  consumed, or \<open>-1\<close>. Its checks compare the 64-bit \<open>size\<close> with 32-bit sums, which wrap.
\<close>

datatype printed =
    PNil | PErr u32 bytes | PStr bytes | PInt int | PDbl u64 | PArr u32 | PArrEnd | PBad

abbreviation bad_response :: "(printed list \<times> int) option" where
  "bad_response \<equiv> Some ([PBad], - 1)"

text \<open>A 32-bit sum returned as \<open>int32_t\<close>.\<close>

definition ret_i32 :: "u32 \<Rightarrow> int" where
  "ret_i32 w = sint w"

text \<open>
  What \<open>%.*s\<close> reads for the 32-bit length \<open>len\<close> at position \<open>i\<close>. The length is passed as an \<open>int\<close>: a negative one means no
  limit, and \<open>printf\<close> reads up to the first zero byte, which may lie behind the message.
\<close>

definition printf_arg :: "bytes \<Rightarrow> nat \<Rightarrow> u32 \<Rightarrow> bytes option" where
  "printf_arg data i len =
     (if sint len < 0 then do {
        require (0 \<in> set (drop i data));
        Some (takeWhile (\<lambda>b. b \<noteq> 0) (drop i data)) }
      else mem_read data i (unat len))"

definition print_scalar :: "bytes \<Rightarrow> (printed list \<times> int) option" where
  "print_scalar data = (case data of
     [] \<Rightarrow> bad_response
   | tag # _ \<Rightarrow>
       if tag = TAG_NIL then Some ([PNil], 1)
       else if tag = TAG_ERR then
         (if length data < 1 + 8 then bad_response
          else do {
            code \<leftarrow> mem_read data 1 4;
            l \<leftarrow> mem_read data (1 + 4) 4;
            let len = bytes_u32 l;
            if length data < unat (9 + len) then bad_response
            else do {
              m \<leftarrow> printf_arg data (1 + 8) len;
              Some ([PErr (bytes_u32 code) m], ret_i32 (9 + len)) } })
       else if tag = TAG_STR then
         (if length data < 1 + 4 then bad_response
          else do {
            l \<leftarrow> mem_read data 1 4;
            let len = bytes_u32 l;
            if length data < unat (5 + len) then bad_response
            else do {
              m \<leftarrow> printf_arg data (1 + 4) len;
              Some ([PStr m], ret_i32 (5 + len)) } })
       else if tag = TAG_INT then
         (if length data < 1 + 8 then bad_response
          else do { v \<leftarrow> mem_read data 1 8; Some ([PInt (sint (bytes_u64 v))], 1 + 8) })
       else if tag = TAG_DBL then
         (if length data < 1 + 8 then bad_response
          else do { v \<leftarrow> mem_read data 1 8; Some ([PDbl (bytes_u64 v)], 1 + 8) })
       else bad_response)"

text \<open>
  Arrays. The loop prints \<open>k\<close> more elements from \<open>data\<close>; its result is the bytes they took, or
  the error of the first that fails.
\<close>

function print_response :: "bytes \<Rightarrow> (printed list \<times> int) option"
  and print_elems :: "nat \<Rightarrow> bytes \<Rightarrow> (printed list \<times> int) option" where
  "print_response data =
     (if data \<noteq> [] \<and> hd data = TAG_ARR then
        (if length data < 1 + 4 then bad_response
         else do {
           l \<leftarrow> mem_read data 1 4;
           let len = bytes_u32 l;
           (ps, rv) \<leftarrow> print_elems (unat len) (drop 5 data);
           if rv < 0 then Some (PArr len # ps, rv)
           else Some (PArr len # ps @ [PArrEnd], ret_i32 (of_nat (5 + nat rv))) })
      else print_scalar data)"
| "print_elems k data =
     (if k = 0 then Some ([], 0)
      else do {
        (ps, rv) \<leftarrow> print_response data;
        if rv < 0 then Some (ps, rv)
        else do {
          require (nat rv \<le> length data);
          (qs, rest) \<leftarrow> print_elems (k - 1) (drop (nat rv) data);
          if rest < 0 then Some (ps @ qs, rest) else Some (ps @ qs, rv + rest) } })"
  by pat_completeness auto
termination
  by (relation "measures [\<lambda>x. case x of Inl d \<Rightarrow> length d | Inr (k, d) \<Rightarrow> length d,
      \<lambda>x. case x of Inl d \<Rightarrow> 0 | Inr (k, d) \<Rightarrow> k]") auto

declare print_response.simps [simp del] print_elems.simps [simp del]

end
