(* ===== verification/Common.thy ===== *)
theory Common
  imports Prelude
begin

text \<open>
  The hash function of \<open>src/common.h\<close>. The other macro of that file, \<open>container_of\<close>, is
  the identity on addresses in this model (see theory Prelude).
\<close>

text \<open>
  The loop keeps a 32-bit \<open>h\<close> and the function returns it as a 64-bit value; addition and
  multiplication wrap.
\<close>

definition str_hash_step :: "u32 \<Rightarrow> byte \<Rightarrow> u32" where
  "str_hash_step h d = (h + ucast d) * 0x01000193"

definition str_hash :: "bytes \<Rightarrow> nat \<Rightarrow> u64" where
  "str_hash data len = ucast (foldl str_hash_step 0x811C9DC5 (take len data))"

text \<open>The function that the README names: FNV-1a, which XORs the byte in.\<close>

definition fnv1a :: "bytes \<Rightarrow> u64" where
  "fnv1a data = ucast (foldl (\<lambda>h d. (h XOR ucast d) * 0x01000193) (0x811C9DC5 :: u32) data)"

lemma unat_ucast_u32: "unat (ucast w :: u64) = unat (w :: u32)"
proof -
  have "unat w < 2 ^ 32" using unsigned_less [of w, where 'a = nat] by simp
  then show ?thesis by (simp add: unsigned_ucast_eq take_bit_nat_eq_self)
qed

text \<open>\<open>std::to_string\<close> of a number that is not negative.\<close>

fun to_string :: "nat \<Rightarrow> bytes" where
  "to_string n = (if n < 10 then [of_nat (48 + n)] else to_string (n div 10) @ [of_nat (48 + n mod 10)])"

declare to_string.simps [simp del]

text \<open>The decimal representation of an integer, as \<open>printf\<close> writes it.\<close>

definition show_int :: "int \<Rightarrow> bytes" where
  "show_int v = (if v < 0 then 45 # to_string (nat (- v)) else to_string (nat v))"

text \<open>The declared result type is 64 bits wide; only the lower 32 are ever used.\<close>

lemma str_hash_lt: "unat (str_hash data len) < 2 ^ 32"
  using unsigned_less [where 'a = nat and 'b = 32]
  by (simp add: str_hash_def unat_ucast_u32)

end
