(* ===== verification/Client.thy ===== *)
theory Client
  imports Protocol Common
begin

text \<open>
  The client of \<open>src/client.cpp\<close> on its socket. The results of the system calls are input, in the order of
  the calls: \<open>Some bs\<close> is a \<open>read\<close> that returned the bytes \<open>bs\<close>, none at the end of the stream; \<open>Some k\<close> is a
  \<open>write\<close> that took \<open>k\<close> bytes; \<open>None\<close> is a call that failed. After the last result \<open>read\<close> is at the end of
  the stream, and \<open>write\<close> fails. A \<open>write\<close> that raises \<open>SIGPIPE\<close> is not told apart from one that fails: nothing is printed
  on stdout after either.
\<close>

section \<open>Reading and writing all\<close>

text \<open>The return value, the bytes put into the buffer, and the results that are left.\<close>

fun read_full :: "bytes option list \<Rightarrow> nat \<Rightarrow> (int \<times> bytes \<times> bytes option list) option" where
  "read_full [] n = (if n > 0 then Some (- 1, [], []) else Some (0, [], []))"
| "read_full (rv # rs) n =
     (if n > 0 then
        (case rv of
           None \<Rightarrow> Some (- 1, [], rs)
         | Some bs \<Rightarrow>
             if length bs = 0 then Some (- 1, [], rs)
             else do {
               require (length bs \<le> n);
               (ret, buf, rs) \<leftarrow> read_full rs (n - length bs);
               Some (ret, bs @ buf, rs) })
      else Some (0, [], rv # rs))"

text \<open>The return value and the bytes written.\<close>

fun write_all :: "nat option list \<Rightarrow> bytes \<Rightarrow> (int \<times> bytes) option" where
  "write_all [] buf = (if length buf > 0 then Some (- 1, []) else Some (0, []))"
| "write_all (rv # ws) buf =
     (if length buf > 0 then
        (case rv of
           None \<Rightarrow> Some (- 1, [])
         | Some k \<Rightarrow>
             if k = 0 then Some (- 1, [])
             else do {
               require (k \<le> length buf);
               (ret, sent) \<leftarrow> write_all ws (drop k buf);
               Some (ret, take k buf @ sent) })
      else Some (0, []))"

section \<open>A request and its reply\<close>

definition send_req_on :: "nat option list \<Rightarrow> bytes list \<Rightarrow> (int \<times> bytes) option" where
  "send_req_on ws cmd = do {
     m \<leftarrow> send_req cmd;
     case m of None \<Rightarrow> Some (- 1, []) | Some wbuf \<Rightarrow> write_all ws wbuf }"

text \<open>What \<open>read_res\<close> prints, and its result. The messages on stderr are not part of it.\<close>

definition read_res :: "bytes option list \<Rightarrow> (printed list \<times> int) option" where
  "read_res rs = do {
     (err, hdr, rs) \<leftarrow> read_full rs 4;
     if err \<noteq> 0 then Some ([], err)
     else do {
       let len = bytes_u32 hdr;
       if unat len > client_max_msg then Some ([], - 1)
       else do {
         (err, body, rs) \<leftarrow> read_full rs (unat len);
         if err \<noteq> 0 then Some ([], err)
         else do {
           (out, rv) \<leftarrow> print_response body;
           Some (out, if rv > 0 \<and> of_int rv \<noteq> len then - 1 else rv) } } } }"

text \<open>
  The text on stdout. \<open>%.*s\<close> writes at most the bytes of the string, but stops at a zero byte; \<open>%d\<close> takes the error code as a
  signed number. How \<open>%g\<close> writes a double is a parameter. \<open>bad response\<close> goes to stderr.
\<close>

definition c_str :: "bytes \<Rightarrow> bytes" where
  "c_str m = takeWhile (\<lambda>b. b \<noteq> 0) m"

fun print_text :: "(u64 \<Rightarrow> bytes) \<Rightarrow> printed \<Rightarrow> bytes" where
  "print_text fmt_g PNil = ascii ''(nil)'' @ [10]"
| "print_text fmt_g (PErr code m) = ascii ''(err) '' @ show_int (sint code) @ ascii '' '' @ c_str m @ [10]"
| "print_text fmt_g (PStr m) = ascii ''(str) '' @ c_str m @ [10]"
| "print_text fmt_g (PInt v) = ascii ''(int) '' @ show_int v @ [10]"
| "print_text fmt_g (PDbl d) = ascii ''(dbl) '' @ fmt_g d @ [10]"
| "print_text fmt_g (PArr n) = ascii ''(arr) len='' @ show_int (uint n) @ [10]"
| "print_text fmt_g PArrEnd = ascii ''(arr) end'' @ [10]"
| "print_text fmt_g PBad = []"

definition client_stdout :: "(u64 \<Rightarrow> bytes) \<Rightarrow> printed list \<Rightarrow> bytes" where
  "client_stdout fmt_g out = concat (map (print_text fmt_g) out)"

text \<open>The client sends its arguments as one command: what it writes to the socket, and what it prints.\<close>

definition client_main ::
  "bool \<Rightarrow> bool \<Rightarrow> bytes list \<Rightarrow> nat option list \<Rightarrow> bytes option list \<Rightarrow> (bytes \<times> printed list) outcome option" where
  "client_main socket_ok connect_ok args ws rs =
     (if \<not> socket_ok then Some Died
      else if \<not> connect_ok then Some Died
      else do {
        (err, sent) \<leftarrow> send_req_on ws args;
        if err \<noteq> 0 then Some (Running (sent, []))
        else do {
          (out, err) \<leftarrow> read_res rs;
          Some (Running (sent, out)) } })"

end
