(* ===== verification/Benchmark.thy ===== *)
theory Benchmark
  imports Client
begin

text \<open>
  The load generator of \<open>src/benchmark.cpp\<close>: it sends a long pipeline of requests and then reads the number of bytes
  that the replies should have. As in theory Client, the results of the system calls are input: \<open>Some k\<close> is a
  call that moved \<open>k\<close> bytes, \<open>None\<close> one that failed. Time is not modelled.
\<close>

definition pack_command :: "bytes \<Rightarrow> bytes list \<Rightarrow> bytes" where
  "pack_command buf args = (
     let body_len = foldl (\<lambda>n s. of_nat (unat n + 4 + length s)) (4 :: u32) args;
         buf = buf_append buf (u32_bytes body_len);
         buf = buf_append buf (u32_bytes (of_nat (length args)))
     in foldl (\<lambda>buf s. buf_append (buf_append buf (u32_bytes (of_nat (length s)))) s) buf args)"

text \<open>The two loops: the bytes sent, the number of bytes read, and whether the loop reached its end.\<close>

fun bench_write :: "nat option list \<Rightarrow> bytes \<Rightarrow> nat \<Rightarrow> bytes \<times> bool" where
  "bench_write [] write_buf written = ([], \<not> written < length write_buf)"
| "bench_write (rv # ws) write_buf written =
     (if written < length write_buf then
        (case rv of
           None \<Rightarrow> ([], False)
         | Some k \<Rightarrow>
             if k = 0 then ([], False)
             else let (sent, ok) = bench_write ws write_buf (written + k)
                  in (take k (drop written write_buf) @ sent, ok))
      else ([], True))"

fun bench_read :: "nat option list \<Rightarrow> nat \<Rightarrow> nat \<Rightarrow> nat \<times> bool" where
  "bench_read [] expected total_read = (total_read, \<not> total_read < expected)"
| "bench_read (rv # rs) expected total_read =
     (if total_read < expected then
        (case rv of
           None \<Rightarrow> (total_read, False)
         | Some k \<Rightarrow> if k = 0 then (total_read, False) else bench_read rs expected (total_read + k))
      else (total_read, True))"

datatype bench_msg = Starting | Write_failed | Read_failed | Requests_done nat

text \<open>What is sent and what is printed.\<close>

definition run_benchmark :: "nat option list \<Rightarrow> nat option list \<Rightarrow> bytes \<Rightarrow> nat \<Rightarrow> nat \<Rightarrow> bytes \<times> bench_msg list" where
  "run_benchmark ws rs write_buf expected_response_bytes num_requests = (
     let (sent, ok) = bench_write ws write_buf 0 in
     if \<not> ok then (sent, [Starting, Write_failed])
     else
       let (total_read, ok) = bench_read rs expected_response_bytes 0
       in (sent, [Starting] @ (if ok then [] else [Read_failed]) @ [Requests_done num_requests]))"

definition set_args :: "nat \<Rightarrow> bytes list" where
  "set_args i = [ascii ''set'', ascii ''key_'' @ to_string i, ascii ''bench_value'']"

definition get_args :: "nat \<Rightarrow> bytes list" where
  "get_args i = [ascii ''get'', ascii ''key_'' @ to_string i]"

definition zadd_args :: "nat \<Rightarrow> bytes list" where
  "zadd_args i = [ascii ''zadd'', ascii ''leaderboard'', to_string i @ ascii ''.0'', ascii ''player_'' @ to_string i]"

definition bench_buf :: "(nat \<Rightarrow> bytes list) \<Rightarrow> nat \<Rightarrow> bytes" where
  "bench_buf args num_requests = foldl (\<lambda>buf i. pack_command buf (args i)) [] [0..<num_requests]"

definition num_requests :: nat where
  "num_requests = 100000"

text \<open>The result of \<open>main\<close> and the three runs, with the results of the system calls of each.\<close>

type_synonym bench_io = "nat option list \<times> nat option list"

definition benchmark_main :: "bool \<Rightarrow> bench_io \<Rightarrow> bench_io \<Rightarrow> bench_io \<Rightarrow> int \<times> (bytes \<times> bench_msg list) list" where
  "benchmark_main connect_ok io1 io2 io3 =
     (if \<not> connect_ok then (1, []) else (0,
     [run_benchmark (fst io1) (snd io1) (bench_buf set_args num_requests) (num_requests * 5) num_requests,
      run_benchmark (fst io2) (snd io2) (bench_buf get_args num_requests) (num_requests * 20) num_requests,
      run_benchmark (fst io3) (snd io3) (bench_buf zadd_args num_requests) (num_requests * 13) num_requests]))"

end
