(* ===== verification/Protocol_Correct.thy ===== *)
theory Protocol_Correct
  imports Protocol
begin

text \<open>
  The wire format has one meaning: requests and replies have an abstract syntax with an encoding,
  the parser accepts exactly the encodings of requests, the serializer writes the encodings of
  replies, and the client and the server read what the other writes.
\<close>

section \<open>Integers\<close>

lemma length_le_bytes [simp]: "length (le_bytes n x) = n"
  by (induction n arbitrary: x) auto

lemma length_int_bytes [simp]: "length (u32_bytes w) = 4" "length (u64_bytes w') = 8"
  by (simp_all add: u32_bytes_def u64_bytes_def)

lemma le_nat_le_bytes: "le_nat (le_bytes n x) = x mod 256 ^ n"
proof (induction n arbitrary: x)
  case (Suc n)
  have "unat (of_nat (x mod 256) :: byte) = x mod 256" by (simp add: unat_of_nat)
  then have "le_nat (le_bytes (Suc n) x) = x mod 256 + 256 * (x div 256 mod 256 ^ n)" using Suc by simp
  also have "\<dots> = x mod (256 * 256 ^ n)" by (simp add: mod_mult2_eq)
  finally show ?case by simp
qed simp

lemma le_bytes_le_nat: "le_bytes (length bs) (le_nat bs) = bs"
proof (induction bs)
  case (Cons b bs)
  have "unat b < 256" using unsigned_less [of b, where 'a = nat] by simp
  then show ?case using Cons by simp
qed simp

lemma le_nat_lt: "le_nat bs < 256 ^ length bs"
proof (induction bs)
  case (Cons b bs)
  have "unat b < 256" using unsigned_less [of b, where 'a = nat] by simp
  then show ?case using Cons by simp
qed simp

lemma bytes_u32_bytes [simp]: "bytes_u32 (u32_bytes w) = w"
proof -
  have "unat w < 256 ^ 4" using unsigned_less [of w, where 'a = nat] by simp
  then show ?thesis by (simp add: bytes_u32_def u32_bytes_def le_nat_le_bytes)
qed

lemma bytes_u64_bytes [simp]: "bytes_u64 (u64_bytes w) = w"
proof -
  have "unat w < 256 ^ 8" using unsigned_less [of w, where 'a = nat] by simp
  then show ?thesis by (simp add: bytes_u64_def u64_bytes_def le_nat_le_bytes)
qed

lemma u32_bytes_bytes: "length bs = 4 \<Longrightarrow> u32_bytes (bytes_u32 bs) = bs"
proof -
  assume l: "length bs = 4"
  have "le_nat bs < 2 ^ 32" using le_nat_lt [of bs] l by simp
  then have "unat (bytes_u32 bs) = le_nat bs" by (simp add: bytes_u32_def unat_of_nat)
  then show ?thesis using le_bytes_le_nat [of bs] l by (simp add: u32_bytes_def)
qed

section \<open>Requests\<close>

definition enc_str :: "bytes \<Rightarrow> bytes" where
  "enc_str s = u32_bytes (of_nat (length s)) @ s"

definition enc_cmd :: "bytes list \<Rightarrow> bytes" where
  "enc_cmd cmd = u32_bytes (of_nat (length cmd)) @ concat (map enc_str cmd)"

definition cmd_ok :: "bytes list \<Rightarrow> bool" where
  "cmd_ok cmd \<longleftrightarrow> length cmd \<le> k_max_args \<and> (\<forall>s \<in> set cmd. length s < 2 ^ 32)"

lemma unat_of_nat_u32: "n < 2 ^ 32 \<Longrightarrow> unat (of_nat n :: u32) = n"
  by (simp add: unat_of_nat)

lemma read_u32_enc [simp]: "read_u32 (u32_bytes w @ rest) = Some (w, rest)"
  by (simp add: read_u32_def)

lemma read_u32_Some: "read_u32 cur = Some (w, rest) \<longleftrightarrow> cur = u32_bytes w @ rest"
proof
  assume "read_u32 cur = Some (w, rest)"
  then have "length (take 4 cur) = 4" "w = bytes_u32 (take 4 cur)" "rest = drop 4 cur"
    by (auto simp: read_u32_def split: if_splits)
  then show "cur = u32_bytes w @ rest" by (simp add: u32_bytes_bytes)
qed simp

lemma read_str_Some: "read_str cur n = Some (s, rest) \<longleftrightarrow> cur = s @ rest \<and> length s = unat n"
  by (auto simp: read_str_def split: if_splits)

lemma unat_eq_u32: "n = unat len \<longleftrightarrow> len = of_nat n \<and> n < 2 ^ 32" for len :: u32
  using unsigned_less [of len, where 'a = nat] by (auto simp: unat_of_nat)

lemma read_pair_Some:
  "(\<exists>len cur1. read_u32 cur = Some (len, cur1) \<and> read_str cur1 len = Some (s, cur2)) \<longleftrightarrow>
   cur = enc_str s @ cur2 \<and> length s < 2 ^ 32"
  unfolding read_u32_Some read_str_Some unat_eq_u32 enc_str_def by (metis append_assoc)

text \<open>The loop reads exactly the missing strings off the front.\<close>

lemma parse_loop_Some:
  "parse_loop nstr cur out = Some (rest, out') \<longleftrightarrow>
   (\<exists>ss. out' = out @ ss \<and> cur = concat (map enc_str ss) @ rest \<and> length ss = nstr - length out \<and>
     (\<forall>s \<in> set ss. length s < 2 ^ 32))"
proof (induction "nstr - length out" arbitrary: cur out)
  case 0
  then show ?case by (subst parse_loop.simps) auto
next
  case (Suc k)
  have lt: "length out < nstr" and k: "k = nstr - length (out @ [s])" for s using Suc.hyps(2) by auto
  have "parse_loop nstr cur out = Some (rest, out') \<longleftrightarrow>
      (\<exists>len cur1 s cur2. read_u32 cur = Some (len, cur1) \<and> read_str cur1 len = Some (s, cur2) \<and>
        parse_loop nstr cur2 (out @ [s]) = Some (rest, out'))"
    using lt by (subst parse_loop.simps) (auto simp: bind_eq_Some_conv)
  also have "\<dots> \<longleftrightarrow> (\<exists>s cur2. cur = enc_str s @ cur2 \<and> length s < 2 ^ 32 \<and>
        parse_loop nstr cur2 (out @ [s]) = Some (rest, out'))"
    using read_pair_Some [of cur] by metis
  also have "\<dots> \<longleftrightarrow> (\<exists>s ss. out' = out @ s # ss \<and> cur = enc_str s @ concat (map enc_str ss) @ rest \<and>
      length ss = nstr - length (out @ [s]) \<and> length s < 2 ^ 32 \<and> (\<forall>s \<in> set ss. length s < 2 ^ 32))"
    using Suc.hyps(1) [OF k] by auto
  also have "\<dots> \<longleftrightarrow> (\<exists>ss. out' = out @ ss \<and> cur = concat (map enc_str ss) @ rest \<and>
      length ss = nstr - length out \<and> (\<forall>s \<in> set ss. length s < 2 ^ 32))" (is "_ \<longleftrightarrow> ?R")
  proof
    assume ?R
    then obtain ss where ss: "out' = out @ ss" "cur = concat (map enc_str ss) @ rest"
      "length ss = nstr - length out" "\<forall>s \<in> set ss. length s < 2 ^ 32" by blast
    then obtain s ts where "ss = s # ts" using lt by (cases ss) auto
    then show "\<exists>s ss. out' = out @ s # ss \<and> cur = enc_str s @ concat (map enc_str ss) @ rest \<and>
      length ss = nstr - length (out @ [s]) \<and> length s < 2 ^ 32 \<and> (\<forall>s \<in> set ss. length s < 2 ^ 32)"
      using ss by auto
  next
    assume "\<exists>s ss. out' = out @ s # ss \<and> cur = enc_str s @ concat (map enc_str ss) @ rest \<and>
      length ss = nstr - length (out @ [s]) \<and> length s < 2 ^ 32 \<and> (\<forall>s \<in> set ss. length s < 2 ^ 32)"
    then obtain s ss where "out' = out @ s # ss" "cur = enc_str s @ concat (map enc_str ss) @ rest"
      "length ss = nstr - length (out @ [s])" "length s < 2 ^ 32" "\<forall>s \<in> set ss. length s < 2 ^ 32" by blast
    then show ?R using lt by (intro exI [of _ "s # ss"]) auto
  qed
  finally show ?case .
qed

lemma parse_req_Some: "parse_req data = Some cmd \<longleftrightarrow> data = enc_cmd cmd \<and> cmd_ok cmd"
proof -
  have "parse_req data = Some cmd \<longleftrightarrow> (\<exists>nstr cur. read_u32 data = Some (nstr, cur) \<and> unat nstr \<le> k_max_args \<and>
      parse_loop (unat nstr) cur [] = Some ([], cmd))"
    by (cases "read_u32 data") (auto simp: parse_req_def bind_eq_Some_conv not_less split: if_splits)
  also have "\<dots> \<longleftrightarrow> (\<exists>nstr. data = u32_bytes nstr @ concat (map enc_str cmd) \<and>
      length cmd = unat nstr \<and> unat nstr \<le> k_max_args \<and> (\<forall>s \<in> set cmd. length s < 2 ^ 32))"
    by (auto simp: read_u32_Some parse_loop_Some)
  also have "\<dots> \<longleftrightarrow> data = enc_cmd cmd \<and> cmd_ok cmd"
  proof -
    have "length cmd = unat nstr \<and> unat nstr \<le> k_max_args \<longleftrightarrow> nstr = of_nat (length cmd) \<and> length cmd \<le> k_max_args" for nstr :: u32
      by (auto simp: unat_of_nat k_max_args_def)
    then show ?thesis unfolding enc_cmd_def cmd_ok_def by metis
  qed
  finally show ?thesis .
qed

section \<open>Sending requests\<close>

lemma length_enc_cmd: "length (enc_cmd cmd) = 4 + (\<Sum>s \<leftarrow> cmd. 4 + length s)"
proof -
  have "length (concat (map enc_str cmd)) = (\<Sum>s \<leftarrow> cmd. 4 + length s)"
    by (induction cmd) (auto simp: enc_str_def)
  then show ?thesis by (simp add: enc_cmd_def)
qed

lemma send_len_fold:
  "unat w + (\<Sum>s \<leftarrow> cmd. 4 + length s) < 2 ^ 32 \<Longrightarrow>
   unat (foldl (\<lambda>len s. of_nat (unat len + 4 + length s)) (w :: u32) cmd) = unat w + (\<Sum>s \<leftarrow> cmd. 4 + length s)"
proof (induction cmd arbitrary: w)
  case (Cons s cmd)
  have "unat (of_nat (unat w + 4 + length s) :: u32) = unat w + 4 + length s"
    using Cons.prems by (intro unat_of_nat_u32) simp
  then show ?case using Cons.IH [of "of_nat (unat w + 4 + length s)"] Cons.prems by simp
qed simp

lemma send_len_enc: "length (enc_cmd cmd) < 2 ^ 32 \<Longrightarrow> unat (send_len cmd) = length (enc_cmd cmd)"
  using send_len_fold [of 4 cmd] by (simp add: send_len_def length_enc_cmd)

lemma mem_write_at:
  "mem_write (pre @ mid @ post) (length pre) bs = Some (pre @ bs @ post)" if "length bs = length mid"
  using that by (simp add: mem_write_def)

lemma mem_write_split: "i + length bs \<le> length buf \<Longrightarrow>
    mem_write buf i bs = Some (take i buf @ bs @ drop (i + length bs) buf)"
  by (simp add: mem_write_def)

lemma send_body_enc:
  "length pre + length (concat (map enc_str cmd)) \<le> length pre + length post \<Longrightarrow>
   send_body cmd (pre @ post) (length pre) =
     Some (pre @ concat (map enc_str cmd) @ drop (length (concat (map enc_str cmd))) post,
       length pre + length (concat (map enc_str cmd)))"
proof (induction cmd arbitrary: pre post)
  case (Cons s cmd)
  let ?e = "concat (map enc_str cmd)" and ?h = "u32_bytes (of_nat (length s))"
  have l: "4 + length s + length ?e \<le> length post" using Cons.prems by (simp add: enc_str_def [of s])
  have w1: "mem_write (pre @ post) (length pre) ?h = Some (pre @ ?h @ drop 4 post)"
    using l by (simp add: mem_write_split)
  have w2: "mem_write (pre @ ?h @ drop 4 post) (length pre + 4) s = Some ((pre @ ?h @ s) @ drop (4 + length s) post)"
    using l by (simp add: mem_write_split add.commute)
  have "send_body cmd ((pre @ ?h @ s) @ drop (4 + length s) post) (length (pre @ ?h @ s)) =
      Some ((pre @ ?h @ s) @ ?e @ drop (length ?e) (drop (4 + length s) post), length (pre @ ?h @ s) + length ?e)"
    by (rule Cons.IH) (use l in simp)
  then show ?case using w1 w2 by (simp add: enc_str_def [of s] ac_simps)
qed simp

lemma send_req_enc:
  assumes "length (enc_cmd cmd) \<le> client_max_msg"
  shows "send_req cmd = Some (Some (u32_bytes (of_nat (length (enc_cmd cmd))) @ enc_cmd cmd))"
proof -
  let ?n = "length (enc_cmd cmd)" and ?e = "concat (map enc_str cmd)"
  have n: "unat (send_len cmd) = ?n" using assms by (intro send_len_enc) (simp add: client_max_msg_def)
  then have len: "send_len cmd = of_nat ?n" by (metis unat_eq_u32)
  have e: "?n = 4 + length ?e" by (simp add: enc_cmd_def)
  let ?h = "u32_bytes (of_nat ?n)" and ?c = "u32_bytes (of_nat (length cmd))"
  let ?z = "replicate (client_max_msg - 4) (0 :: byte)"
  have r: "replicate (4 + client_max_msg) (0 :: byte) = replicate 4 0 @ replicate 4 0 @ ?z"
    unfolding replicate_add [symmetric] by (simp add: client_max_msg_def)
  have w1: "mem_write (replicate (4 + client_max_msg) 0) 0 ?h = Some (?h @ replicate 4 0 @ ?z)"
    using mem_write_at [of ?h "replicate 4 0" "[]" "replicate 4 0 @ ?z"] unfolding r by simp
  have w2: "mem_write (?h @ replicate 4 0 @ ?z) 4 ?c = Some ((?h @ ?c) @ ?z)"
    using mem_write_at [of ?c "replicate 4 0" ?h ?z] by simp
  have w3: "send_body cmd ((?h @ ?c) @ ?z) 8 = Some ((?h @ ?c) @ ?e @ drop (length ?e) ?z, 8 + length ?e)"
    using send_body_enc [of "?h @ ?c" cmd ?z] assms e by simp
  have "mem_read ((?h @ ?c) @ ?e @ drop (length ?e) ?z) 0 (4 + ?n) = Some (?h @ enc_cmd cmd)"
    using assms e by (simp add: mem_read_def enc_cmd_def)
  then show ?thesis using assms w1 w2 w3 n by (simp add: send_req_def len)
qed

lemma cmd_ok_small:
  assumes "length (enc_cmd cmd) \<le> client_max_msg"
  shows "cmd_ok cmd"
proof -
  have "(\<Sum>s \<leftarrow> cmd. 4 + length s) \<ge> length cmd * 4" by (induction cmd) auto
  moreover have "length s \<le> (\<Sum>s \<leftarrow> cmd. 4 + length s)" if "s \<in> set cmd" for s
    using that by (induction cmd) auto
  ultimately show ?thesis
    using assms unfolding length_enc_cmd by (force simp: cmd_ok_def k_max_args_def client_max_msg_def)
qed

section \<open>Replies\<close>

datatype reply = RNil | RErr u32 bytes | RStr bytes | RInt int | RDbl u64 | RArr "reply list"

fun enc :: "reply \<Rightarrow> bytes" where
  "enc RNil = [TAG_NIL]"
| "enc (RErr code m) = TAG_ERR # u32_bytes code @ u32_bytes (of_nat (length m)) @ m"
| "enc (RStr s) = TAG_STR # u32_bytes (of_nat (length s)) @ s"
| "enc (RInt v) = TAG_INT # u64_bytes (of_int v)"
| "enc (RDbl d) = TAG_DBL # u64_bytes d"
| "enc (RArr rs) = TAG_ARR # u32_bytes (of_nat (length rs)) @ concat (map enc rs)"

lemmas buf_defs = buf_append_def buf_append_u8_def buf_append_u32_def buf_append_i64_def buf_append_dbl_def

lemma out_enc:
  "out_nil out = out @ enc RNil" "out_str out s = out @ enc (RStr s)" "out_int out v = out @ enc (RInt v)"
  "out_dbl out d = out @ enc (RDbl d)" "out_err out code m = out @ enc (RErr code m)"
  by (simp_all add: out_nil_def out_str_def out_int_def out_dbl_def out_err_def buf_defs)

lemma out_arr_enc: "out_arr out (of_nat (length rs)) @ concat (map enc rs) = out @ enc (RArr rs)"
  by (simp add: out_arr_def buf_defs)

lemma out_begin_end_arr:
  "out_begin_arr out = (out @ TAG_ARR # u32_bytes 0, length out + 1)"
  "out_end_arr (out @ TAG_ARR # u32_bytes k @ body) (length out + 1) n = Some (out @ TAG_ARR # u32_bytes n @ body)"
  using mem_write_at [of "u32_bytes n" "u32_bytes k" "out @ [TAG_ARR]" body]
  by (simp_all add: out_begin_arr_def out_end_arr_def buf_defs nth_append Let_def)

text \<open>A response: the length of the body, and the body, or an error in its place.\<close>

definition framed :: "bytes \<Rightarrow> bytes" where
  "framed body = u32_bytes (of_nat (length body)) @ body"

definition too_big :: reply where
  "too_big = RErr ERR_TOO_BIG (ascii ''response is too big.'')"

definition frame :: "bytes \<Rightarrow> bytes" where
  "frame body = framed (if length body > k_max_msg then enc too_big else body)"

lemma response_begin_end:
  "response_begin out = (out @ u32_bytes 0, length out)"
  "response_end (out @ u32_bytes 0 @ body) (length out) = Some (out @ frame body)"
proof -
  show "response_begin out = (out @ u32_bytes 0, length out)" by (simp add: response_begin_def buf_defs)
  have w: "mem_write (out @ u32_bytes 0 @ b) (length out) (u32_bytes (of_nat (length b))) = Some (out @ framed b)" for b
    using mem_write_at [of "u32_bytes (of_nat (length b))" "u32_bytes 0" out b] by (simp add: framed_def)
  have s: "response_size (out @ u32_bytes 0 @ b) (length out) = length b" for b by (simp add: response_size_def)
  have t: "out_err (take (length out + 4) (out @ u32_bytes 0 @ body)) ERR_TOO_BIG (ascii ''response is too big.'') =
      out @ u32_bytes 0 @ enc too_big" by (simp add: out_enc too_big_def)
  show "response_end (out @ u32_bytes 0 @ body) (length out) = Some (out @ frame body)"
    unfolding response_end_def Let_def s t using w [of body] w [of "enc too_big"] by (simp add: frame_def)
qed

section \<open>Reading replies\<close>

fun print_of :: "reply \<Rightarrow> printed list" where
  "print_of RNil = [PNil]"
| "print_of (RErr code m) = [PErr code m]"
| "print_of (RStr s) = [PStr s]"
| "print_of (RInt v) = [PInt v]"
| "print_of (RDbl d) = [PDbl d]"
| "print_of (RArr rs) = PArr (of_nat (length rs)) # concat (map print_of rs) @ [PArrEnd]"

fun reply_ok :: "reply \<Rightarrow> bool" where
  "reply_ok (RInt v) \<longleftrightarrow> - (2 ^ 63) \<le> v \<and> v < 2 ^ 63"
| "reply_ok (RArr rs) \<longleftrightarrow> (\<forall>r \<in> set rs. reply_ok r)"
| "reply_ok _ = True"

lemma enc_nonempty [simp]: "enc r \<noteq> []"
  by (cases r) auto

lemma length_enc_pos: "0 < length (enc r)"
  by simp

lemma length_concat_enc: "length rs \<le> length (concat (map enc rs))"
proof (induction rs)
  case (Cons r rs)
  then show ?case using length_enc_pos [of r] by (simp del: length_greater_0_conv)
qed simp

lemma sint_u32_small: "n < 2 ^ 31 \<Longrightarrow> sint (of_nat n :: u32) = int n"
  by (simp add: signed_of_nat signed_take_bit_int_eq_self)

lemma ret_i32_small: "n < 2 ^ 31 \<Longrightarrow> ret_i32 (of_nat n) = int n"
  by (simp add: ret_i32_def sint_u32_small)

lemma sint_u64_of_int: "- (2 ^ 63) \<le> v \<Longrightarrow> v < 2 ^ 63 \<Longrightarrow> sint (of_int v :: u64) = v"
  by (simp add: signed_of_int signed_take_bit_int_eq_self)

lemma mem_read_at: "mem_read (pre @ bs @ post) (length pre) (length bs) = Some bs"
  by (simp add: mem_read_def)

lemma mem_read_u32: "length pre = i \<Longrightarrow> mem_read (pre @ u32_bytes w @ post) i 4 = Some (u32_bytes w)"
  using mem_read_at [of pre "u32_bytes w" post] by simp

lemma mem_read_u64: "length pre = i \<Longrightarrow> mem_read (pre @ u64_bytes w @ post) i 8 = Some (u64_bytes w)"
  using mem_read_at [of pre "u64_bytes w" post] by simp

lemma of_nat_add_u32: "k + n < 2 ^ 32 \<Longrightarrow> unat (of_nat k + of_nat n :: u32) = k + n"
  using unat_of_nat_u32 [of "k + n"] by simp

lemma printf_arg_small:
  assumes "n < 2 ^ 30"
  shows "printf_arg data i (of_nat n) = mem_read data i n"
proof -
  have "unat (of_nat n :: u32) = n" using assms by (intro unat_of_nat_u32) simp
  moreover have "sint (of_nat n :: u32) = int n" using ret_i32_small [of n] assms by (simp add: ret_i32_def)
  ultimately show ?thesis by (simp add: printf_arg_def)
qed

lemma print_str_enc:
  assumes "length s < 2 ^ 30"
  shows "print_scalar (enc (RStr s) @ rest) = Some ([PStr s], int (length (enc (RStr s))))"
proof -
  let ?d = "TAG_STR # u32_bytes (of_nat (length s)) @ s @ rest"
  have r1: "mem_read ?d (Suc 0) 4 = Some (u32_bytes (of_nat (length s)))"
    using mem_read_u32 [of "[TAG_STR]" "Suc 0" _ "s @ rest"] by simp
  have r2: "mem_read ?d 5 (length s) = Some s"
    using mem_read_at [of "TAG_STR # u32_bytes (of_nat (length s))" s rest] by simp
  have l: "unat (5 + of_nat (length s) :: u32) = 5 + length s" using of_nat_add_u32 [of 5 "length s"] assms by simp
  have i: "ret_i32 (5 + of_nat (length s)) = 5 + int (length s)" using ret_i32_small [of "5 + length s"] assms by simp
  show ?thesis using r1 r2 l i printf_arg_small [OF assms] by (simp add: print_scalar_def tag_defs)
qed

lemma print_err_enc:
  assumes "length m < 2 ^ 30"
  shows "print_scalar (enc (RErr code m) @ rest) = Some ([PErr code m], int (length (enc (RErr code m))))"
proof -
  let ?d = "TAG_ERR # u32_bytes code @ u32_bytes (of_nat (length m)) @ m @ rest"
  have r1: "mem_read ?d (Suc 0) 4 = Some (u32_bytes code)"
    using mem_read_u32 [of "[TAG_ERR]" "Suc 0" code "u32_bytes (of_nat (length m)) @ m @ rest"] by simp
  have r3: "mem_read ?d 5 4 = Some (u32_bytes (of_nat (length m)))"
    using mem_read_u32 [of "TAG_ERR # u32_bytes code" 5 _ "m @ rest"] by simp
  have r2: "mem_read ?d 9 (length m) = Some m"
    using mem_read_at [of "TAG_ERR # u32_bytes code @ u32_bytes (of_nat (length m))" m rest] by simp
  have l: "unat (9 + of_nat (length m) :: u32) = 9 + length m" using of_nat_add_u32 [of 9 "length m"] assms by simp
  have i: "ret_i32 (9 + of_nat (length m)) = 9 + int (length m)" using ret_i32_small [of "9 + length m"] assms by simp
  show ?thesis using r1 r2 r3 l i printf_arg_small [OF assms] by (simp add: print_scalar_def tag_defs)
qed

lemma print_num_enc:
  "- (2 ^ 63) \<le> v \<Longrightarrow> v < 2 ^ 63 \<Longrightarrow> print_scalar (enc (RInt v) @ rest) = Some ([PInt v], int (length (enc (RInt v))))"
  "print_scalar (enc (RDbl d) @ rest) = Some ([PDbl d], int (length (enc (RDbl d))))"
  "print_scalar (enc RNil @ rest) = Some ([PNil], int (length (enc RNil)))"
  using mem_read_u64 [of "[TAG_INT]" "Suc 0" "of_int v" rest] mem_read_u64 [of "[TAG_DBL]" "Suc 0" d rest]
  by (simp_all add: print_scalar_def tag_defs sint_u64_of_int)

lemma print_response_scalar:
  "data = [] \<or> hd data \<noteq> TAG_ARR \<Longrightarrow> print_response data = print_scalar data"
  by (subst print_response.simps) auto

lemma print_elems_enc:
  assumes "\<And>r rest. r \<in> set rs \<Longrightarrow> print_response (enc r @ rest) = Some (print_of r, int (length (enc r)))"
  shows "print_elems (length rs) (concat (map enc rs) @ rest) =
    Some (concat (map print_of rs), int (length (concat (map enc rs))))"
  using assms
proof (induction rs)
  case Nil
  show ?case by (subst print_elems.simps) simp
next
  case (Cons r rs)
  have "print_response (enc r @ concat (map enc rs) @ rest) = Some (print_of r, int (length (enc r)))"
    using Cons.prems by simp
  then show ?case using Cons.IH Cons.prems by (subst print_elems.simps) simp
qed

lemma print_response_enc:
  "reply_ok r \<Longrightarrow> length (enc r) < 2 ^ 30 \<Longrightarrow>
   print_response (enc r @ rest) = Some (print_of r, int (length (enc r)))"
proof (induction r arbitrary: rest)
  case (RArr rs)
  let ?d = "TAG_ARR # u32_bytes (of_nat (length rs)) @ concat (map enc rs) @ rest"
  have small: "length (enc r) < 2 ^ 30" if "r \<in> set rs" for r
  proof -
    have "length (enc r) \<le> length (concat (map enc rs))"
      using split_list [OF that] by auto
    then show ?thesis using RArr.prems(2) by simp
  qed
  have e: "print_elems (length rs) (concat (map enc rs) @ rest) =
      Some (concat (map print_of rs), int (length (concat (map enc rs))))"
    by (rule print_elems_enc) (use RArr.IH RArr.prems(1) small in auto)
  have "length rs < 2 ^ 32" using length_concat_enc [of rs] RArr.prems(2) by simp
  then have u: "unat (of_nat (length rs) :: u32) = length rs" by (rule unat_of_nat_u32)
  have r: "mem_read ?d (Suc 0) 4 = Some (u32_bytes (of_nat (length rs)))"
    using mem_read_u32 [of "[TAG_ARR]" "Suc 0" _ "concat (map enc rs) @ rest"] by simp
  have "ret_i32 (of_nat (5 + length (concat (map enc rs)))) = int (5 + length (concat (map enc rs)))"
    using RArr.prems(2) by (intro ret_i32_small) simp
  then show ?case using e u r by (subst print_response.simps) (simp del: of_nat_add length_concat)
next
  case (RErr code m)
  then show ?case using print_err_enc [of m code rest] by (subst print_response_scalar) (auto simp: tag_defs)
next
  case (RStr s)
  then show ?case using print_str_enc [of s rest] by (subst print_response_scalar) (auto simp: tag_defs)
next
  case (RInt v)
  then show ?case using print_num_enc(1) [of v rest] by (subst print_response_scalar) (auto simp: tag_defs)
next
  case (RDbl d)
  then show ?case using print_num_enc(2) [of d rest] by (subst print_response_scalar) (auto simp: tag_defs)
next
  case RNil
  then show ?case using print_num_enc(3) [of rest] by (subst print_response_scalar) (auto simp: tag_defs)
qed

section \<open>Properties\<close>

text \<open>C20. The parser is exact: a request body is accepted, with the command \<open>cmd\<close>, if and only if it
  is the encoding of \<open>cmd\<close>, of at most \<open>k_max_args\<close> strings, with nothing after it. It is total: a
  truncated or oversized body is rejected without reading past its end.\<close>

theorem parse_req_exact:
  "parse_req data = Some cmd \<longleftrightarrow>
   data = enc_cmd cmd \<and> length cmd \<le> k_max_args \<and> list_all (\<lambda>s. length s < 2 ^ 32) cmd"
  using parse_req_Some [of data cmd] by (simp add: cmd_ok_def list_all_iff)

text \<open>C21. What the client sends, the server parses: a command that fits the client's buffer is sent as
  its length and its encoding, and the parser returns the same strings.\<close>

theorem send_parse_roundtrip:
  assumes "length (enc_cmd cmd) \<le> client_max_msg"
  shows "\<exists>body. send_req cmd = Some (Some (u32_bytes (of_nat (length body)) @ body)) \<and>
    length body \<le> client_max_msg \<and> parse_req body = Some cmd"
  using cmd_ok_small [OF assms] send_req_enc [OF assms] parse_req_Some assms by blast

theorem send_parse_roundtrip_witness:
  "\<exists>body. send_req [ascii ''set'', [1, 2], []] = Some (Some (u32_bytes (of_nat (length body)) @ body)) \<and>
    length body \<le> client_max_msg \<and> parse_req body = Some [ascii ''set'', [1, 2], []]"
  using send_parse_roundtrip [of "[ascii ''set'', [1, 2], []]"]
  by (simp add: length_enc_cmd client_max_msg_def ascii_def)

text \<open>A command that does not fit the client's buffer is refused before anything is written.\<close>

theorem send_req_too_long:
  assumes "client_max_msg < length (enc_cmd cmd)" and "length (enc_cmd cmd) < 2 ^ 32"
  shows "send_req cmd = Some None"
  using send_len_enc [OF assms(2)] assms(1) by (simp add: send_req_def)

theorem send_req_too_long_witness: "send_req [replicate 5000 0] = Some None"
  by (rule send_req_too_long) (simp_all add: length_enc_cmd client_max_msg_def)

text \<open>What the server writes, the client reads: the encoding of any reply, nested arrays included,
  is consumed exactly and printed as that reply, whatever follows it in the buffer.\<close>

theorem reply_roundtrip:
  assumes "reply_ok r" and "length (enc r) \<le> client_max_msg"
  shows "print_response (enc r @ rest) = Some (print_of r, int (length (enc r)))"
  using assms by (intro print_response_enc) (simp_all add: client_max_msg_def)

theorem reply_roundtrip_witness:
  "print_response (enc (RArr [RStr [104, 105], RArr [], RInt (- 2)]) @ [7]) =
     Some ([PArr 3, PStr [104, 105], PArr 0, PArrEnd, PInt (- 2), PArrEnd], 26)"
  using reply_roundtrip [of "RArr [RStr [104, 105], RArr [], RInt (- 2)]" "[7]"]
  by (simp add: client_max_msg_def)

text \<open>C22. Framing: after \<open>response_begin\<close>, a body and \<open>response_end\<close>, the buffer holds its old content
  and one message: the exact length and the body, or, for a body over the limit, the error reply of
  that length. Earlier responses in the buffer are not touched.\<close>

theorem response_framing:
  "\<exists>hdr b. response_begin out = (out @ hdr, length out) \<and>
    response_end ((out @ hdr) @ body) (length out) = Some (out @ u32_bytes (of_nat (length b)) @ b) \<and>
    b = (if k_max_msg < length body then enc (RErr ERR_TOO_BIG (ascii ''response is too big.'')) else body) \<and>
    length b \<le> k_max_msg"
proof -
  have "length (enc too_big) \<le> k_max_msg" by (simp add: too_big_def ascii_def k_max_msg_def)
  then show ?thesis
    using response_begin_end(1) [of out] response_begin_end(2) [of out body] by (auto simp: frame_def framed_def too_big_def)
qed

text \<open>The client's length check wraps: for an error reply of nine bytes whose message length field is
  \<open>0xFFFFFFFF\<close>, the 32-bit sum \<open>1 + 8 + len\<close> is 8, the check passes, and the message is read out of
  bounds.\<close>

theorem print_response_overread:
  "print_response ([TAG_ERR, 0, 0, 0, 0] @ u32_bytes 0xFFFFFFFF) = None"
  by code_simp

end
