(* ===== verification/Client_Correct.thy ===== *)
theory Client_Correct
  imports Client Protocol_Correct
begin

text \<open>
  The client reads and writes exactly its messages, however the calls cut them; what it prints is the
  reply that was serialized.
\<close>

section \<open>Loops over system calls\<close>

lemma read_full_pieces:
  assumes "[] \<notin> set bss"
  shows "read_full (map Some bss @ rs) (length (concat bss)) = Some (0, concat bss, rs)"
  using assms
proof (induction bss)
  case Nil
  then show ?case by (cases rs) simp_all
next
  case (Cons bs bss)
  then show ?case by auto
qed

lemma write_all_pieces:
  assumes "0 \<notin> set ks" and "sum_list ks = length buf"
  shows "write_all (map Some ks @ ws) buf = Some (0, buf)"
  using assms
proof (induction ks arbitrary: buf)
  case Nil
  then show ?case by (cases ws) simp_all
next
  case (Cons k ks)
  then have "k \<le> length buf" "0 < k" "sum_list ks = length (drop k buf)" by auto
  then show ?case using Cons by (auto simp: not_le)
qed

section \<open>A reply\<close>

lemma client_framed:
  assumes "length body \<le> client_max_msg"
  shows "unat (of_nat (length body) :: u32) = length body" and "frame body = framed body"
proof -
  show "unat (of_nat (length body) :: u32) = length body"
    using assms by (intro unat_of_nat_u32) (simp add: client_max_msg_def)
  show "frame body = framed body" using assms by (simp add: frame_def client_max_msg_def k_max_msg_def)
qed

text \<open>The header and the body are read by different calls, each in any number of pieces.\<close>

definition pieces :: "bytes list \<Rightarrow> bytes \<Rightarrow> bool" where
  "pieces bss bs \<longleftrightarrow> [] \<notin> set bss \<and> concat bss = bs"

lemma read_res_enc:
  assumes "reply_ok r" and "length (enc r) \<le> client_max_msg"
    and "pieces hs (u32_bytes (of_nat (length (enc r))))" and "pieces bss (enc r)"
  shows "read_res (map Some hs @ map Some bss @ rs) = Some (print_of r, int (length (enc r)))"
proof -
  have h: "read_full (map Some hs @ map Some bss @ rs) 4 = Some (0, u32_bytes (of_nat (length (enc r))), map Some bss @ rs)"
    using read_full_pieces [of hs "map Some bss @ rs"] assms(3) by (simp add: pieces_def)
  have b: "read_full (map Some bss @ rs) (length (enc r)) = Some (0, enc r, rs)"
    using read_full_pieces [of bss rs] assms(4) by (simp add: pieces_def)
  have "print_response (enc r @ []) = Some (print_of r, int (length (enc r)))"
    using assms(1,2) by (intro print_response_enc) (simp_all add: client_max_msg_def)
  then show ?thesis using h b assms(2) client_framed(1) [OF assms(2)] by (simp add: read_res_def)
qed

text \<open>Of a reply that is too long only the header is read.\<close>

lemma read_res_long:
  assumes "client_max_msg < length body" and "length body < 2 ^ 32" and "pieces hs (u32_bytes (of_nat (length body)))"
  shows "read_res (map Some hs @ rs) = Some ([], - 1)"
proof -
  have "read_full (map Some hs @ rs) 4 = Some (0, u32_bytes (of_nat (length body)), rs)"
    using read_full_pieces [of hs rs] assms(3) by (simp add: pieces_def)
  then show ?thesis using assms(1) unat_of_nat_u32 [OF assms(2)] by (simp add: read_res_def)
qed

section \<open>Properties\<close>

text \<open>\<open>read_full\<close> and \<open>write_all\<close>: when the calls return at least one byte each and not more than was asked for,
  exactly the wanted bytes are read or written, and the rest of the stream is untouched.\<close>

theorem read_write_all:
  assumes "pieces bss bs" and "0 \<notin> set ks" and "sum_list ks = length bs"
  shows "read_full (map Some bss @ rs) (length bs) = Some (0, bs, rs) \<and> write_all (map Some ks @ ws) bs = Some (0, bs)"
  using read_full_pieces [of bss rs] write_all_pieces [OF assms(2,3), of ws] assms(1) by (auto simp: pieces_def)

theorem read_write_all_witness:
  "read_full [Some [1, 2], Some [3], None] 3 = Some (0, [1, 2, 3], [None]) \<and> write_all [Some 1, Some 2] [1, 2, 3] = Some (0, [1, 2, 3])"
  using read_write_all [of "[[1, 2], [3]]" "[1, 2, 3]" "[1, 2]" "[None]" "[]"] by (simp add: pieces_def)

text \<open>\<open>read_res\<close> prints the reply that the server framed, in whatever pieces header and body arrive, and returns
  its length.\<close>

theorem read_res_roundtrip:
  assumes "reply_ok r" and "length (enc r) \<le> client_max_msg" and "pieces hs (u32_bytes (of_nat (length (enc r))))"
    and "pieces bss (enc r)"
  shows "concat (hs @ bss) = frame (enc r) \<and>
    read_res (map Some hs @ map Some bss @ rs) = Some (print_of r, int (length (enc r)))"
  using read_res_enc [OF assms] assms(3,4) client_framed(2) [OF assms(2)] by (simp add: pieces_def framed_def)

theorem read_res_roundtrip_witness:
  "read_res [Some [13, 0], Some [0, 0], Some [TAG_STR], Some ([8, 0, 0, 0] @ ascii ''good''), Some (ascii ''news'')] =
     Some ([PStr (ascii ''goodnews'')], 13)"
proof -
  have "pieces [[13, 0], [0, 0]] (u32_bytes (of_nat (length (enc (RStr (ascii ''goodnews''))))))" by code_simp
  moreover have "pieces [[TAG_STR], [8, 0, 0, 0] @ ascii ''good'', ascii ''news''] (enc (RStr (ascii ''goodnews'')))" by code_simp
  moreover have "reply_ok (RStr (ascii ''goodnews''))" by simp
  moreover have "length (enc (RStr (ascii ''goodnews''))) = 13" by code_simp
  ultimately show ?thesis
    using read_res_roundtrip [of "RStr (ascii ''goodnews'')" "[[13, 0], [0, 0]]" "[[TAG_STR], [8, 0, 0, 0] @ ascii ''good'', ascii ''news'']" "[]"]
    by (simp add: client_max_msg_def del: enc.simps)
qed

text \<open>C23. The client rejects a reply of more than 4096 bytes, although the server sends replies of up to 32 MiB: it
  prints nothing and returns -1.\<close>

theorem read_res_too_long:
  assumes "client_max_msg < length body" and "length body < 2 ^ 32" and "pieces hs (u32_bytes (of_nat (length body)))"
  shows "read_res (map Some hs @ rs) = Some ([], - 1)"
  by (rule read_res_long [OF assms])

theorem read_res_too_long_witness: "read_res [Some [0x88, 0x13, 0, 0]] = Some ([], - 1)"
proof -
  have "pieces [[0x88, 0x13, 0, 0]] (u32_bytes 5000)" by code_simp
  then show ?thesis using read_res_too_long [of "replicate 5000 0" "[[0x88, 0x13, 0, 0]]" "[]"]
    by (simp add: client_max_msg_def)
qed

text \<open>\<open>printf\<close> stops at a zero byte, although the reply carries the length of the string.\<close>

theorem zero_byte_cuts_text: "client_stdout fmt_g (print_of (RStr [97, 0, 98])) = client_stdout fmt_g (print_of (RStr [97]))"
  by (simp add: client_stdout_def c_str_def)

end
