(* ===== verification/Avl.thy ===== *)
theory Avl
  imports Prelude
begin

text \<open>
  The intrusive AVL tree of \<open>src/avl.h\<close> and \<open>src/avl.cpp\<close>, on pointers: nodes with parent,
  left and right pointers and the 32-bit height and size of their subtree, in a store
  \<open>astore\<close>. Functions return the new store, and \<open>None\<close> where the code would dereference
  NULL or freed memory, fail an assertion or loop for ever. The double pointer
  \<open>AVLNode **from\<close> of the code is an \<open>aslot\<close>: the local variable, or the left or right
  member of a node. Signed 64-bit arithmetic is on \<open>int\<close> with an overflow check (\<open>i64\<close>).
\<close>

section \<open>Data\<close>

record avlnode =
  parent :: ptr
  left :: ptr
  right :: ptr
  height :: u32
  cnt :: u32

type_synonym astore = "addr \<rightharpoonup> avlnode"

datatype aslot = Local | LeftOf addr | RightOf addr

definition avl_init :: avlnode where
  "avl_init = \<lparr>parent = None, left = None, right = None, height = 1, cnt = 1\<rparr>"

definition avl_height :: "astore \<Rightarrow> ptr \<Rightarrow> u32 option" where
  "avl_height s p = (case p of None \<Rightarrow> Some 0 | Some a \<Rightarrow> do { n \<leftarrow> s a; Some (height n) })"

definition avl_cnt :: "astore \<Rightarrow> ptr \<Rightarrow> u32 option" where
  "avl_cnt s p = (case p of None \<Rightarrow> Some 0 | Some a \<Rightarrow> do { n \<leftarrow> s a; Some (cnt n) })"

definition max_u32 :: "u32 \<Rightarrow> u32 \<Rightarrow> u32" where
  "max_u32 lhs rhs = (if lhs < rhs then rhs else lhs)"

definition avl_update :: "astore \<Rightarrow> addr \<Rightarrow> astore option" where
  "avl_update s node = do {
     n \<leftarrow> s node;
     hl \<leftarrow> avl_height s (left n);
     hr \<leftarrow> avl_height s (right n);
     cl \<leftarrow> avl_cnt s (left n);
     cr \<leftarrow> avl_cnt s (right n);
     modify s node (\<lambda>n. n\<lparr>height := 1 + max_u32 hl hr, cnt := 1 + cl + cr\<rparr>) }"

text \<open>\<open>if (p) p->parent = q\<close>, which the code writes after every change of a child.\<close>

definition set_parent :: "astore \<Rightarrow> ptr \<Rightarrow> ptr \<Rightarrow> astore option" where
  "set_parent s p q = (case p of None \<Rightarrow> Some s | Some a \<Rightarrow> modify s a (\<lambda>n. n\<lparr>parent := q\<rparr>))"

section \<open>Rotations and rebalancing\<close>

definition rot_left :: "astore \<Rightarrow> addr \<Rightarrow> (astore \<times> addr) option" where
  "rot_left s node = do {
     n \<leftarrow> s node;
     let par = parent n;
     new_node \<leftarrow> right n;
     nn \<leftarrow> s new_node;
     let inner = left nn;
     s \<leftarrow> modify s node (\<lambda>n. n\<lparr>right := inner\<rparr>);
     s \<leftarrow> set_parent s inner (Some node);
     s \<leftarrow> modify s new_node (\<lambda>n. n\<lparr>parent := par\<rparr>);
     s \<leftarrow> modify s new_node (\<lambda>n. n\<lparr>left := Some node\<rparr>);
     s \<leftarrow> modify s node (\<lambda>n. n\<lparr>parent := Some new_node\<rparr>);
     s \<leftarrow> avl_update s node;
     s \<leftarrow> avl_update s new_node;
     Some (s, new_node) }"

definition rot_right :: "astore \<Rightarrow> addr \<Rightarrow> (astore \<times> addr) option" where
  "rot_right s node = do {
     n \<leftarrow> s node;
     let par = parent n;
     new_node \<leftarrow> left n;
     nn \<leftarrow> s new_node;
     let inner = right nn;
     s \<leftarrow> modify s node (\<lambda>n. n\<lparr>left := inner\<rparr>);
     s \<leftarrow> set_parent s inner (Some node);
     s \<leftarrow> modify s new_node (\<lambda>n. n\<lparr>parent := par\<rparr>);
     s \<leftarrow> modify s new_node (\<lambda>n. n\<lparr>right := Some node\<rparr>);
     s \<leftarrow> modify s node (\<lambda>n. n\<lparr>parent := Some new_node\<rparr>);
     s \<leftarrow> avl_update s node;
     s \<leftarrow> avl_update s new_node;
     Some (s, new_node) }"

definition avl_fix_left :: "astore \<Rightarrow> addr \<Rightarrow> (astore \<times> addr) option" where
  "avl_fix_left s node = do {
     n \<leftarrow> s node;
     l \<leftarrow> left n;
     ln \<leftarrow> s l;
     hl \<leftarrow> avl_height s (left ln);
     hr \<leftarrow> avl_height s (right ln);
     s \<leftarrow> (if hl < hr
          then do { (s, l') \<leftarrow> rot_left s l; modify s node (\<lambda>n. n\<lparr>left := Some l'\<rparr>) }
          else Some s);
     rot_right s node }"

definition avl_fix_right :: "astore \<Rightarrow> addr \<Rightarrow> (astore \<times> addr) option" where
  "avl_fix_right s node = do {
     n \<leftarrow> s node;
     r \<leftarrow> right n;
     rn \<leftarrow> s r;
     hr \<leftarrow> avl_height s (right rn);
     hl \<leftarrow> avl_height s (left rn);
     s \<leftarrow> (if hr < hl
          then do { (s, r') \<leftarrow> rot_right s r; modify s node (\<lambda>n. n\<lparr>right := Some r'\<rparr>) }
          else Some s);
     rot_left s node }"

text \<open>\<open>parent->left == node ? &parent->left : &parent->right\<close>, or the local variable at the root.\<close>

definition incoming :: "astore \<Rightarrow> ptr \<Rightarrow> addr \<Rightarrow> aslot option" where
  "incoming s par node = (case par of
     None \<Rightarrow> Some Local
   | Some p \<Rightarrow> do { pn \<leftarrow> s p; Some (if left pn = Some node then LeftOf p else RightOf p) })"

text \<open>\<open>*from\<close>, where the local variable has the value \<open>root\<close>.\<close>

fun read_aslot :: "astore \<Rightarrow> ptr \<Rightarrow> aslot \<Rightarrow> ptr option" where
  "read_aslot s root Local = Some root"
| "read_aslot s root (LeftOf p) = do { n \<leftarrow> s p; Some (left n) }"
| "read_aslot s root (RightOf p) = do { n \<leftarrow> s p; Some (right n) }"

text \<open>\<open>*from = v\<close>, for a local variable whose value is \<open>loc\<close>.\<close>

fun assign_slot :: "astore \<Rightarrow> ptr \<Rightarrow> aslot \<Rightarrow> ptr \<Rightarrow> (astore \<times> ptr) option" where
  "assign_slot s loc Local v = Some (s, v)"
| "assign_slot s loc (LeftOf p) v = do { s \<leftarrow> modify s p (\<lambda>n. n\<lparr>left := v\<rparr>); Some (s, loc) }"
| "assign_slot s loc (RightOf p) v = do { s \<leftarrow> modify s p (\<lambda>n. n\<lparr>right := v\<rparr>); Some (s, loc) }"

partial_function (option) avl_fix :: "astore \<Rightarrow> addr \<Rightarrow> (astore \<times> ptr) option" where
  "avl_fix s node = do {
     n \<leftarrow> s node;
     let par = parent n;
     from \<leftarrow> incoming s par node;
     s \<leftarrow> avl_update s node;
     n \<leftarrow> s node;
     l \<leftarrow> avl_height s (left n);
     r \<leftarrow> avl_height s (right n);
     (s, loc) \<leftarrow>
       (if l = r + 2 then do { (s, t) \<leftarrow> avl_fix_left s node; assign_slot s (Some node) from (Some t) }
        else if l + 2 = r then do { (s, t) \<leftarrow> avl_fix_right s node; assign_slot s (Some node) from (Some t) }
        else Some (s, Some node));
     case par of None \<Rightarrow> Some (s, loc) | Some p \<Rightarrow> avl_fix s p }"

declare avl_fix.simps [code]

section \<open>Deletion\<close>

definition avl_del_easy :: "astore \<Rightarrow> addr \<Rightarrow> (astore \<times> ptr) option" where
  "avl_del_easy s node = do {
     n \<leftarrow> s node;
     require (left n = None \<or> right n = None);
     let child = (if left n \<noteq> None then left n else right n);
     let par = parent n;
     s \<leftarrow> set_parent s child par;
     case par of
       None \<Rightarrow> Some (s, child)
     | Some p \<Rightarrow> do {
         from \<leftarrow> incoming s par node;
         (s, _) \<leftarrow> assign_slot s None from child;
         avl_fix s p } }"

partial_function (option) avl_leftmost :: "astore \<Rightarrow> addr \<Rightarrow> addr option" where
  "avl_leftmost s victim = do {
     v \<leftarrow> s victim;
     case left v of None \<Rightarrow> Some victim | Some l \<Rightarrow> avl_leftmost s l }"

declare avl_leftmost.simps [code]

definition avl_del :: "astore \<Rightarrow> addr \<Rightarrow> (astore \<times> ptr) option" where
  "avl_del s node = do {
     n \<leftarrow> s node;
     if left n = None \<or> right n = None then avl_del_easy s node
     else do {
       r \<leftarrow> right n;
       victim \<leftarrow> avl_leftmost s r;
       (s, root) \<leftarrow> avl_del_easy s victim;
       n \<leftarrow> s node;
       s \<leftarrow> modify s victim (\<lambda>_. n);
       s \<leftarrow> set_parent s (left n) (Some victim);
       s \<leftarrow> set_parent s (right n) (Some victim);
       n \<leftarrow> s node;
       from \<leftarrow> incoming s (parent n) node;
       assign_slot s root from (Some victim) } }"

section \<open>Offset by rank\<close>

partial_function (option) avl_offset_loop :: "astore \<Rightarrow> addr \<Rightarrow> int \<Rightarrow> int \<Rightarrow> ptr option" where
  "avl_offset_loop s node offset pos =
     (if offset = pos then Some (Some node)
      else do {
        n \<leftarrow> s node;
        in_right \<leftarrow> (if pos < offset
          then do { c \<leftarrow> avl_cnt s (right n); x \<leftarrow> i64 (pos + uint c); Some (x \<ge> offset) }
          else Some False);
        if in_right then do {
          node \<leftarrow> right n;
          n \<leftarrow> s node;
          c \<leftarrow> avl_cnt s (left n);
          pos \<leftarrow> i64 (pos + uint (c + 1));
          avl_offset_loop s node offset pos }
        else do {
          in_left \<leftarrow> (if pos > offset
            then do { c \<leftarrow> avl_cnt s (left n); x \<leftarrow> i64 (pos - uint c); Some (x \<le> offset) }
            else Some False);
          if in_left then do {
            node \<leftarrow> left n;
            n \<leftarrow> s node;
            c \<leftarrow> avl_cnt s (right n);
            pos \<leftarrow> i64 (pos - uint (c + 1));
            avl_offset_loop s node offset pos }
          else (case parent n of
              None \<Rightarrow> Some None
            | Some p \<Rightarrow> do {
                pn \<leftarrow> s p;
                pos \<leftarrow> (if right pn = Some node
                  then do { c \<leftarrow> avl_cnt s (left n); i64 (pos - uint (c + 1)) }
                  else do { c \<leftarrow> avl_cnt s (right n); i64 (pos + uint (c + 1)) });
                avl_offset_loop s p offset pos }) } })"

declare avl_offset_loop.simps [code]

definition avl_offset :: "astore \<Rightarrow> addr \<Rightarrow> int \<Rightarrow> ptr option" where
  "avl_offset s node offset = avl_offset_loop s node offset 0"

end
