(* ===== verification/Hashtable.thy ===== *)
theory Hashtable
  imports Prelude
begin

text \<open>
  The intrusive, progressively rehashing hash table of \<open>src/hashtable.h\<close> and
  \<open>src/hashtable.cpp\<close>. Nodes live in a store \<open>hstore\<close>; a bucket is a NULL-terminated
  chain of nodes through \<open>hnext\<close>. The double pointer \<open>HNode **from\<close> of the code is an
  \<open>hslot\<close>: the address of a bucket of the table or of the \<open>next\<close> member of a node. The
  callback \<open>eq\<close> is a function of the node it is called on; the key it compares with is
  captured in it, and the part of the key the table itself reads is its \<open>hcode\<close>.
  Counters of objects in memory (\<open>size_t\<close> sizes, masks and positions) are \<open>nat\<close>; hash
  codes are 64-bit words.
\<close>

section \<open>Data\<close>

record hnode =
  hnext :: ptr
  hcode :: u64

record htab =
  tab :: "ptr list option"
  tab_mask :: nat
  tab_size :: nat

record hmap =
  newer :: htab
  older :: htab
  migrate_pos :: nat

type_synonym hstore = "addr \<rightharpoonup> hnode"

definition htab_empty :: htab where
  "htab_empty = \<lparr>tab = None, tab_mask = 0, tab_size = 0\<rparr>"

definition hmap_empty :: hmap where
  "hmap_empty = \<lparr>newer = htab_empty, older = htab_empty, migrate_pos = 0\<rparr>"

datatype hslot = Bucket nat | NextOf addr

fun read_slot :: "hstore \<Rightarrow> htab \<Rightarrow> hslot \<Rightarrow> ptr option" where
  "read_slot hs t (Bucket i) = do { tb \<leftarrow> tab t; nth_opt tb i }"
| "read_slot hs t (NextOf a) = do { n \<leftarrow> hs a; Some (hnext n) }"

fun write_slot :: "hstore \<Rightarrow> htab \<Rightarrow> hslot \<Rightarrow> ptr \<Rightarrow> (hstore \<times> htab) option" where
  "write_slot hs t (Bucket i) p =
     do { tb \<leftarrow> tab t; tb' \<leftarrow> upd_nth tb i p; Some (hs, t\<lparr>tab := Some tb'\<rparr>) }"
| "write_slot hs t (NextOf a) p =
     do { hs' \<leftarrow> modify hs a (\<lambda>n. n\<lparr>hnext := p\<rparr>); Some (hs', t) }"

section \<open>One table\<close>

definition h_init :: "nat \<Rightarrow> htab option" where
  "h_init n = do {
     require (n > 0 \<and> ((n - 1) AND n) = 0);
     Some \<lparr>tab = Some (replicate n None), tab_mask = n - 1, tab_size = 0\<rparr> }"

definition h_insert :: "hstore \<Rightarrow> htab \<Rightarrow> addr \<Rightarrow> (hstore \<times> htab) option" where
  "h_insert hs t node = do {
     n \<leftarrow> hs node;
     let pos = unat (hcode n) AND tab_mask t;
     nxt \<leftarrow> read_slot hs t (Bucket pos);
     hs \<leftarrow> modify hs node (\<lambda>n. n\<lparr>hnext := nxt\<rparr>);
     (hs, t) \<leftarrow> write_slot hs t (Bucket pos) (Some node);
     Some (hs, t\<lparr>tab_size := tab_size t + 1\<rparr>) }"

partial_function (option) h_walk ::
  "hstore \<Rightarrow> htab \<Rightarrow> u64 \<Rightarrow> (addr \<Rightarrow> bool option) \<Rightarrow> hslot \<Rightarrow> hslot option option" where
  "h_walk hs t hc eq from = do {
     p \<leftarrow> read_slot hs t from;
     case p of
       None \<Rightarrow> Some None
     | Some cur \<Rightarrow> do {
         n \<leftarrow> hs cur;
         same \<leftarrow> (if hcode n = hc then eq cur else Some False);
         if same then Some (Some from) else h_walk hs t hc eq (NextOf cur) } }"

declare h_walk.simps [code]

definition h_lookup ::
  "hstore \<Rightarrow> htab \<Rightarrow> u64 \<Rightarrow> (addr \<Rightarrow> bool option) \<Rightarrow> hslot option option" where
  "h_lookup hs t hc eq =
     (if tab t = None then Some None
      else h_walk hs t hc eq (Bucket (unat hc AND tab_mask t)))"

definition h_detach :: "hstore \<Rightarrow> htab \<Rightarrow> hslot \<Rightarrow> (hstore \<times> htab \<times> addr) option" where
  "h_detach hs t from = do {
     p \<leftarrow> read_slot hs t from;
     node \<leftarrow> p;
     n \<leftarrow> hs node;
     (hs, t) \<leftarrow> write_slot hs t from (hnext n);
     Some (hs, t\<lparr>tab_size := tab_size t - 1\<rparr>, node) }"

section \<open>Progressive rehashing\<close>

definition k_rehashing_work :: nat where
  "k_rehashing_work = 128"

partial_function (option) hm_help_loop :: "hstore \<Rightarrow> hmap \<Rightarrow> nat \<Rightarrow> (hstore \<times> hmap) option" where
  "hm_help_loop hs m nwork =
     (if nwork < k_rehashing_work \<and> tab_size (older m) > 0 then do {
        p \<leftarrow> read_slot hs (older m) (Bucket (migrate_pos m));
        if p = None then hm_help_loop hs (m\<lparr>migrate_pos := migrate_pos m + 1\<rparr>) nwork
        else do {
          (hs, t, node) \<leftarrow> h_detach hs (older m) (Bucket (migrate_pos m));
          (hs, t') \<leftarrow> h_insert hs (newer m) node;
          hm_help_loop hs (m\<lparr>older := t, newer := t'\<rparr>) (nwork + 1) } }
      else Some (hs, m))"

declare hm_help_loop.simps [code]

definition hm_help_rehashing :: "hstore \<Rightarrow> hmap \<Rightarrow> (hstore \<times> hmap) option" where
  "hm_help_rehashing hs m = do {
     (hs, m) \<leftarrow> hm_help_loop hs m 0;
     Some (hs, if tab_size (older m) = 0 \<and> tab (older m) \<noteq> None
               then m\<lparr>older := htab_empty\<rparr> else m) }"

definition hm_trigger_rehashing :: "hmap \<Rightarrow> hmap option" where
  "hm_trigger_rehashing m = do {
     let m = m\<lparr>older := newer m\<rparr>;
     t \<leftarrow> h_init ((tab_mask (newer m) + 1) * 2);
     Some (m\<lparr>newer := t, migrate_pos := 0\<rparr>) }"

section \<open>The operations of the map\<close>

definition hm_lookup ::
  "hstore \<Rightarrow> hmap \<Rightarrow> u64 \<Rightarrow> (addr \<Rightarrow> bool option) \<Rightarrow> (hstore \<times> hmap \<times> ptr) option" where
  "hm_lookup hs m hc eq = do {
     (hs, m) \<leftarrow> hm_help_rehashing hs m;
     from \<leftarrow> h_lookup hs (newer m) hc eq;
     case from of
       Some sl \<Rightarrow> do { p \<leftarrow> read_slot hs (newer m) sl; Some (hs, m, p) }
     | None \<Rightarrow> do {
         from \<leftarrow> h_lookup hs (older m) hc eq;
         case from of
           Some sl \<Rightarrow> do { p \<leftarrow> read_slot hs (older m) sl; Some (hs, m, p) }
         | None \<Rightarrow> Some (hs, m, None) } }"

definition k_max_load_factor :: nat where
  "k_max_load_factor = 8"

definition hm_insert :: "hstore \<Rightarrow> hmap \<Rightarrow> addr \<Rightarrow> (hstore \<times> hmap) option" where
  "hm_insert hs m node = do {
     m \<leftarrow> (if tab (newer m) = None
          then do { t \<leftarrow> h_init 4; Some (m\<lparr>newer := t\<rparr>) } else Some m);
     (hs, t) \<leftarrow> h_insert hs (newer m) node;
     let m = m\<lparr>newer := t\<rparr>;
     m \<leftarrow> (if tab (older m) = None
          then (let shreshold = (tab_mask (newer m) + 1) * k_max_load_factor
                in if tab_size (newer m) \<ge> shreshold then hm_trigger_rehashing m else Some m)
          else Some m);
     hm_help_rehashing hs m }"

definition hm_delete ::
  "hstore \<Rightarrow> hmap \<Rightarrow> u64 \<Rightarrow> (addr \<Rightarrow> bool option) \<Rightarrow> (hstore \<times> hmap \<times> ptr) option" where
  "hm_delete hs m hc eq = do {
     (hs, m) \<leftarrow> hm_help_rehashing hs m;
     from \<leftarrow> h_lookup hs (newer m) hc eq;
     case from of
       Some sl \<Rightarrow> do {
         (hs, t, node) \<leftarrow> h_detach hs (newer m) sl;
         Some (hs, m\<lparr>newer := t\<rparr>, Some node) }
     | None \<Rightarrow> do {
         from \<leftarrow> h_lookup hs (older m) hc eq;
         case from of
           Some sl \<Rightarrow> do {
             (hs, t, node) \<leftarrow> h_detach hs (older m) sl;
             Some (hs, m\<lparr>older := t\<rparr>, Some node) }
         | None \<Rightarrow> Some (hs, m, None) } }"

text \<open>\<open>free\<close> of the two arrays; the nodes belong to the payload and stay.\<close>

definition hm_clear :: "hmap \<Rightarrow> hmap" where
  "hm_clear m = hmap_empty"

definition hm_size :: "hmap \<Rightarrow> nat" where
  "hm_size m = tab_size (newer m) + tab_size (older m)"

text \<open>
  Iteration. The callback takes the node and the state \<open>arg\<close> points to, and returns the new
  state and whether to go on.
\<close>

partial_function (option) h_foreach_chain ::
  "hstore \<Rightarrow> (addr \<Rightarrow> 'a \<Rightarrow> ('a \<times> bool) option) \<Rightarrow> ptr \<Rightarrow> 'a \<Rightarrow> ('a \<times> bool) option" where
  "h_foreach_chain hs f p arg =
     (case p of
        None \<Rightarrow> Some (arg, True)
      | Some node \<Rightarrow> do {
          (arg, go) \<leftarrow> f node arg;
          if \<not> go then Some (arg, False)
          else do { n \<leftarrow> hs node; h_foreach_chain hs f (hnext n) arg } })"

declare h_foreach_chain.simps [code]

partial_function (option) h_foreach_from ::
  "hstore \<Rightarrow> htab \<Rightarrow> (addr \<Rightarrow> 'a \<Rightarrow> ('a \<times> bool) option) \<Rightarrow> nat \<Rightarrow> 'a \<Rightarrow> ('a \<times> bool) option" where
  "h_foreach_from hs t f i arg =
     (if tab_mask t \<noteq> 0 \<and> i \<le> tab_mask t then do {
        p \<leftarrow> read_slot hs t (Bucket i);
        (arg, go) \<leftarrow> h_foreach_chain hs f p arg;
        if \<not> go then Some (arg, False) else h_foreach_from hs t f (i + 1) arg }
      else Some (arg, True))"

declare h_foreach_from.simps [code]

definition h_foreach ::
  "hstore \<Rightarrow> htab \<Rightarrow> (addr \<Rightarrow> 'a \<Rightarrow> ('a \<times> bool) option) \<Rightarrow> 'a \<Rightarrow> ('a \<times> bool) option" where
  "h_foreach hs t f arg = h_foreach_from hs t f 0 arg"

definition hm_foreach ::
  "hstore \<Rightarrow> hmap \<Rightarrow> (addr \<Rightarrow> 'a \<Rightarrow> ('a \<times> bool) option) \<Rightarrow> 'a \<Rightarrow> 'a option" where
  "hm_foreach hs m f arg = do {
     (arg, go) \<leftarrow> h_foreach hs (newer m) f arg;
     if go then do { (arg, go) \<leftarrow> h_foreach hs (older m) f arg; Some arg }
     else Some arg }"

end
