(* ===== verification/Double.thy ===== *)
theory Double
  imports Prelude "HOL-Library.List_Lexorder" "HOL-Library.Product_Lexorder"
begin

text \<open>
  What the program uses of C++ \<open>double\<close>s and of \<open>memcmp\<close>. A double is its 64-bit pattern;
  comparison is that of IEEE 754 on patterns: sign and magnitude, with equal zeros, and no
  relation for NaN. \<open>memcmp\<close> returns the sign of the first difference and has no value when it
  would read past the end of either array.
\<close>

definition dbl_mag :: "u64 \<Rightarrow> nat" where
  "dbl_mag d = unat d mod 2 ^ 63"

definition isnan :: "u64 \<Rightarrow> bool" where
  "isnan d \<longleftrightarrow> dbl_mag d > 0x7FF0000000000000"

text \<open>The place of a number on the line of doubles.\<close>

definition dbl_key :: "u64 \<Rightarrow> int" where
  "dbl_key d = (if unat d < 2 ^ 63 then int (dbl_mag d) else - int (dbl_mag d))"

definition dbl_eq :: "u64 \<Rightarrow> u64 \<Rightarrow> bool" where
  "dbl_eq x y \<longleftrightarrow> \<not> isnan x \<and> \<not> isnan y \<and> dbl_key x = dbl_key y"

definition dbl_lt :: "u64 \<Rightarrow> u64 \<Rightarrow> bool" where
  "dbl_lt x y \<longleftrightarrow> \<not> isnan x \<and> \<not> isnan y \<and> dbl_key x < dbl_key y"

fun memcmp :: "bytes \<Rightarrow> bytes \<Rightarrow> nat \<Rightarrow> int option" where
  "memcmp [] ys n = (if n = 0 then Some 0 else None)"
| "memcmp (x # xs) ys n =
     (if n = 0 then Some 0
      else case ys of
        [] \<Rightarrow> None
      | y # ys \<Rightarrow> if x = y then memcmp xs ys (n - 1) else if x < y then Some (- 1) else Some 1)"

lemma memcmp_refl: "memcmp xs xs (length xs) = Some 0"
  by (induction xs) auto

lemma memcmp_eq:
  "length xs = n \<Longrightarrow> length ys = n \<Longrightarrow> \<exists>v. memcmp xs ys n = Some v \<and> (v = 0 \<longleftrightarrow> xs = ys)"
  by (induction xs ys n rule: memcmp.induct) (auto split: list.splits)

text \<open>Comparing up to the shorter length, then by length, is the lexicographic order.\<close>

lemma memcmp_less:
  "\<exists>v. memcmp xs ys (min (length xs) (length ys)) = Some v \<and>
     (if v \<noteq> 0 then v < 0 else length xs < length ys) = (xs < ys)"
proof (induction xs arbitrary: ys)
  case Nil
  then show ?case by (cases ys) auto
next
  case (Cons x xs)
  show ?case
  proof (cases ys)
    case (Cons y ys')
    obtain v where "memcmp xs ys' (min (length xs) (length ys')) = Some v"
      "(if v \<noteq> 0 then v < 0 else length xs < length ys') = (xs < ys')"
      using Cons.IH by blast
    then show ?thesis using Cons by (cases "x = y") (auto simp: neq_iff)
  qed simp
qed

end
