(* ===== verification/Zset.thy ===== *)
theory Zset
  imports Avl Hashtable Common Double
begin

text \<open>
  The sorted set of \<open>src/zset.h\<close> and \<open>src/zset.cpp\<close>: every \<open>ZNode\<close> is at once a node of an
  AVL tree ordered by (score, name) and of a hash table keyed by name. All the nodes of all
  sets live in one memory \<open>zmem\<close>: its stores hold the members \<open>tree\<close>, \<open>hmap\<close> and the data of
  the node at an address; \<open>malloc\<close> takes the next unused address \<open>zbrk\<close>, and \<open>free\<close> removes the
  address from all stores.
\<close>

record zdata =
  score :: u64
  len :: nat
  name :: bytes

record zmem =
  ztree :: astore
  zhn :: hstore
  zdat :: "addr \<rightharpoonup> zdata"
  zbrk :: addr

record zset =
  zroot :: ptr
  zhmap :: hmap

definition zset_empty :: zset where
  "zset_empty = \<lparr>zroot = None, zhmap = hmap_empty\<rparr>"

definition znode_new :: "zmem \<Rightarrow> bytes \<Rightarrow> nat \<Rightarrow> u64 \<Rightarrow> zmem \<times> addr" where
  "znode_new m nm n sc =
     (let node = zbrk m in
      (m\<lparr>ztree := (ztree m)(node \<mapsto> avl_init),
         zhn := (zhn m)(node \<mapsto> \<lparr>hnext = None, hcode = str_hash nm n\<rparr>),
         zdat := (zdat m)(node \<mapsto> \<lparr>score = sc, len = n, name = take n nm\<rparr>),
         zbrk := node + 1\<rparr>, node))"

definition znode_del :: "zmem \<Rightarrow> addr \<Rightarrow> zmem" where
  "znode_del m node =
     m\<lparr>ztree := (ztree m)(node := None), zhn := (zhn m)(node := None), zdat := (zdat m)(node := None)\<rparr>"

definition min_size :: "nat \<Rightarrow> nat \<Rightarrow> nat" where
  "min_size lhs rhs = (if lhs < rhs then lhs else rhs)"

definition zless :: "zmem \<Rightarrow> addr \<Rightarrow> u64 \<Rightarrow> bytes \<Rightarrow> nat \<Rightarrow> bool option" where
  "zless m lhs sc nm n = do {
     zl \<leftarrow> zdat m lhs;
     if \<not> dbl_eq (score zl) sc then Some (dbl_lt (score zl) sc)
     else do {
       rv \<leftarrow> memcmp (name zl) nm (min_size (len zl) n);
       Some (if rv \<noteq> 0 then rv < 0 else len zl < n) } }"

definition zless_node :: "zmem \<Rightarrow> addr \<Rightarrow> addr \<Rightarrow> bool option" where
  "zless_node m lhs rhs = do { zr \<leftarrow> zdat m rhs; zless m lhs (score zr) (name zr) (len zr) }"

section \<open>Insertion\<close>

partial_function (option) tree_search ::
  "zmem \<Rightarrow> ptr \<Rightarrow> addr \<Rightarrow> ptr \<Rightarrow> aslot \<Rightarrow> (ptr \<times> aslot) option" where
  "tree_search m root node par from = do {
     cur \<leftarrow> read_aslot (ztree m) root from;
     case cur of
       None \<Rightarrow> Some (par, from)
     | Some p \<Rightarrow> do {
         b \<leftarrow> zless_node m node p;
         tree_search m root node (Some p) (if b then LeftOf p else RightOf p) } }"

declare tree_search.simps [code]

definition tree_insert :: "zmem \<Rightarrow> zset \<Rightarrow> addr \<Rightarrow> (zmem \<times> zset) option" where
  "tree_insert m z node = do {
     (par, from) \<leftarrow> tree_search m (zroot z) node None Local;
     (s, root) \<leftarrow> assign_slot (ztree m) (zroot z) from (Some node);
     s \<leftarrow> modify s node (\<lambda>n. n\<lparr>parent := par\<rparr>);
     (s, root) \<leftarrow> avl_fix s node;
     Some (m\<lparr>ztree := s\<rparr>, z\<lparr>zroot := root\<rparr>) }"

definition zset_update :: "zmem \<Rightarrow> zset \<Rightarrow> addr \<Rightarrow> u64 \<Rightarrow> (zmem \<times> zset) option" where
  "zset_update m z node sc = do {
     d \<leftarrow> zdat m node;
     if dbl_eq (score d) sc then Some (m, z)
     else do {
       (s, root) \<leftarrow> avl_del (ztree m) node;
       s \<leftarrow> modify s node (\<lambda>_. avl_init);
       dat \<leftarrow> modify (zdat m) node (\<lambda>d. d\<lparr>score := sc\<rparr>);
       tree_insert (m\<lparr>ztree := s, zdat := dat\<rparr>) (z\<lparr>zroot := root\<rparr>) node } }"

section \<open>Lookup, insertion, deletion\<close>

definition hcmp :: "zmem \<Rightarrow> bytes \<Rightarrow> nat \<Rightarrow> addr \<Rightarrow> bool option" where
  "hcmp m nm n node = do {
     znode \<leftarrow> zdat m node;
     if len znode \<noteq> n then Some False
     else do { rv \<leftarrow> memcmp (name znode) nm (len znode); Some (0 = rv) } }"

definition zset_lookup :: "zmem \<Rightarrow> zset \<Rightarrow> bytes \<Rightarrow> nat \<Rightarrow> (zmem \<times> zset \<times> ptr) option" where
  "zset_lookup m z nm n =
     (if zroot z = None then Some (m, z, None)
      else do {
        (hs, h, found) \<leftarrow> hm_lookup (zhn m) (zhmap z) (str_hash nm n) (hcmp m nm n);
        Some (m\<lparr>zhn := hs\<rparr>, z\<lparr>zhmap := h\<rparr>, found) })"

definition zset_insert :: "zmem \<Rightarrow> zset \<Rightarrow> bytes \<Rightarrow> nat \<Rightarrow> u64 \<Rightarrow> (zmem \<times> zset \<times> bool) option" where
  "zset_insert m z nm n sc = do {
     (m, z, found) \<leftarrow> zset_lookup m z nm n;
     case found of
       Some node \<Rightarrow> do { (m, z) \<leftarrow> zset_update m z node sc; Some (m, z, False) }
     | None \<Rightarrow> do {
         let (m, node) = znode_new m nm n sc;
         (hs, h) \<leftarrow> hm_insert (zhn m) (zhmap z) node;
         (m, z) \<leftarrow> tree_insert (m\<lparr>zhn := hs\<rparr>) (z\<lparr>zhmap := h\<rparr>) node;
         Some (m, z, True) } }"

definition zset_delete :: "zmem \<Rightarrow> zset \<Rightarrow> addr \<Rightarrow> (zmem \<times> zset) option" where
  "zset_delete m z node = do {
     n \<leftarrow> zhn m node;
     d \<leftarrow> zdat m node;
     (hs, h, found) \<leftarrow> hm_delete (zhn m) (zhmap z) (hcode n) (hcmp m (name d) (len d));
     require (found \<noteq> None);
     (s, root) \<leftarrow> avl_del (ztree m) node;
     Some (znode_del (m\<lparr>zhn := hs, ztree := s\<rparr>) node, \<lparr>zroot = root, zhmap = h\<rparr>) }"

section \<open>Ordered access\<close>

partial_function (option) seekge_loop ::
  "zmem \<Rightarrow> ptr \<Rightarrow> ptr \<Rightarrow> u64 \<Rightarrow> bytes \<Rightarrow> nat \<Rightarrow> ptr option" where
  "seekge_loop m p found sc nm n =
     (case p of
        None \<Rightarrow> Some found
      | Some node \<Rightarrow> do {
          b \<leftarrow> zless m node sc nm n;
          t \<leftarrow> ztree m node;
          if b then seekge_loop m (right t) found sc nm n
          else seekge_loop m (left t) (Some node) sc nm n })"

declare seekge_loop.simps [code]

definition zset_seekge :: "zmem \<Rightarrow> zset \<Rightarrow> u64 \<Rightarrow> bytes \<Rightarrow> nat \<Rightarrow> ptr option" where
  "zset_seekge m z sc nm n = seekge_loop m (zroot z) None sc nm n"

definition znode_offset :: "zmem \<Rightarrow> ptr \<Rightarrow> int \<Rightarrow> ptr option" where
  "znode_offset m node offset =
     (case node of None \<Rightarrow> Some None | Some a \<Rightarrow> avl_offset (ztree m) a offset)"

section \<open>Destruction\<close>

partial_function (option) tree_dispose :: "zmem \<Rightarrow> ptr \<Rightarrow> zmem option" where
  "tree_dispose m p =
     (case p of
        None \<Rightarrow> Some m
      | Some node \<Rightarrow> do {
          t \<leftarrow> ztree m node;
          m \<leftarrow> tree_dispose m (left t);
          t \<leftarrow> ztree m node;
          m \<leftarrow> tree_dispose m (right t);
          t \<leftarrow> ztree m node;
          Some (znode_del m node) })"

declare tree_dispose.simps [code]

definition zset_clear :: "zmem \<Rightarrow> zset \<Rightarrow> (zmem \<times> zset) option" where
  "zset_clear m z = do {
     m \<leftarrow> tree_dispose m (zroot z);
     Some (m, \<lparr>zroot = None, zhmap = hm_clear (zhmap z)\<rparr>) }"

end
