(* ===== verification/Timer_Heap.thy ===== *)
theory Timer_Heap
  imports Prelude
begin

text \<open>
  The array heap of \<open>src/heap.h\<close> and \<open>src/heap.cpp\<close> with the two vector operations
  \<open>heap_delete\<close> and \<open>heap_upsert\<close> of \<open>src/server.cpp\<close>. An item holds an expiry time and a
  pointer \<open>ref\<close> to the \<open>heap_idx\<close> member of an entry, through which the heap tells the entry
  its position. Here \<open>href\<close> is the address of that entry and \<open>rstore\<close> the store of the
  \<open>heap_idx\<close> members; \<open>(size_t)-1\<close>, the index of an entry without timer, is \<open>no_timer\<close>.
\<close>

record heap_item =
  hval :: u64
  href :: addr

type_synonym heap = "heap_item list"
type_synonym rstore = "addr \<rightharpoonup> nat"

definition no_timer :: nat where
  "no_timer = 2 ^ 64 - 1"

definition heap_parent :: "nat \<Rightarrow> nat" where
  "heap_parent i = (i + 1) div 2 - 1"

definition heap_left :: "nat \<Rightarrow> nat" where
  "heap_left i = i * 2 + 1"

definition heap_right :: "nat \<Rightarrow> nat" where
  "heap_right i = i * 2 + 2"

lemma heap_parent_less: "0 < i \<Longrightarrow> heap_parent i < i"
  by (simp add: heap_parent_def)

section \<open>Moving an item up or down\<close>

function heap_up_loop :: "heap \<Rightarrow> rstore \<Rightarrow> heap_item \<Rightarrow> nat \<Rightarrow> (heap \<times> rstore \<times> nat) option" where
  "heap_up_loop a rs t pos =
     (if pos > 0 then do {
        p \<leftarrow> nth_opt a (heap_parent pos);
        if hval p > hval t then do {
          a \<leftarrow> upd_nth a pos p;
          rs \<leftarrow> modify rs (href p) (\<lambda>_. pos);
          heap_up_loop a rs t (heap_parent pos) }
        else Some (a, rs, pos) }
      else Some (a, rs, pos))"
  by pat_completeness auto
termination
  by (relation "measure (\<lambda>(a, rs, t, pos). pos)") (auto simp: heap_parent_less)

declare heap_up_loop.simps [simp del]

definition heap_up :: "heap \<Rightarrow> rstore \<Rightarrow> nat \<Rightarrow> (heap \<times> rstore) option" where
  "heap_up a rs pos = do {
     t \<leftarrow> nth_opt a pos;
     (a, rs, pos) \<leftarrow> heap_up_loop a rs t pos;
     a \<leftarrow> upd_nth a pos t;
     rs \<leftarrow> modify rs (href t) (\<lambda>_. pos);
     Some (a, rs) }"

text \<open>The smallest one among the parent, which is \<open>t\<close>, and its kids.\<close>

definition heap_min_pos :: "heap \<Rightarrow> heap_item \<Rightarrow> nat \<Rightarrow> nat \<Rightarrow> nat option" where
  "heap_min_pos a t len pos = do {
     let l = heap_left pos;
     let r = heap_right pos;
     (min_pos, min_val) \<leftarrow>
       (if l < len
        then do { x \<leftarrow> nth_opt a l; Some (if hval x < hval t then (l, hval x) else (pos, hval t)) }
        else Some (pos, hval t));
     if r < len
     then do { x \<leftarrow> nth_opt a r; Some (if hval x < min_val then r else min_pos) }
     else Some min_pos }"

lemma heap_min_pos_range:
  "heap_min_pos a t len pos = Some q \<Longrightarrow> q \<noteq> pos \<Longrightarrow> pos < q \<and> q < len"
  by (auto simp: heap_min_pos_def Let_def heap_left_def heap_right_def bind_eq_Some_conv split: if_splits)

function heap_down_loop ::
  "heap \<Rightarrow> rstore \<Rightarrow> heap_item \<Rightarrow> nat \<Rightarrow> nat \<Rightarrow> (heap \<times> rstore \<times> nat) option" where
  "heap_down_loop a rs t len pos = do {
     min_pos \<leftarrow> heap_min_pos a t len pos;
     if min_pos = pos then Some (a, rs, pos)
     else do {
       x \<leftarrow> nth_opt a min_pos;
       a \<leftarrow> upd_nth a pos x;
       rs \<leftarrow> modify rs (href x) (\<lambda>_. pos);
       heap_down_loop a rs t len min_pos } }"
  by pat_completeness auto
termination
  by (relation "measure (\<lambda>(a, rs, t, len, pos). len - pos)")
    (auto dest!: heap_min_pos_range)

declare heap_down_loop.simps [simp del]

definition heap_down :: "heap \<Rightarrow> rstore \<Rightarrow> nat \<Rightarrow> nat \<Rightarrow> (heap \<times> rstore) option" where
  "heap_down a rs pos len = do {
     t \<leftarrow> nth_opt a pos;
     (a, rs, pos) \<leftarrow> heap_down_loop a rs t len pos;
     a \<leftarrow> upd_nth a pos t;
     rs \<leftarrow> modify rs (href t) (\<lambda>_. pos);
     Some (a, rs) }"

definition heap_update :: "heap \<Rightarrow> rstore \<Rightarrow> nat \<Rightarrow> nat \<Rightarrow> (heap \<times> rstore) option" where
  "heap_update a rs pos len = do {
     up \<leftarrow> (if pos > 0
            then do { p \<leftarrow> nth_opt a (heap_parent pos); x \<leftarrow> nth_opt a pos; Some (hval p > hval x) }
            else Some False);
     if up then heap_up a rs pos else heap_down a rs pos len }"

section \<open>The vector operations of the server\<close>

definition heap_delete :: "heap \<Rightarrow> rstore \<Rightarrow> nat \<Rightarrow> (heap \<times> rstore) option" where
  "heap_delete a rs pos = do {
     require (a \<noteq> []);
     a \<leftarrow> upd_nth a pos (last a);
     let a = butlast a;
     if pos < length a then heap_update a rs pos (length a) else Some (a, rs) }"

definition heap_upsert :: "heap \<Rightarrow> rstore \<Rightarrow> nat \<Rightarrow> heap_item \<Rightarrow> (heap \<times> rstore) option" where
  "heap_upsert a rs pos t =
     (if pos < length a
      then let a = a[pos := t] in heap_update a rs pos (length a)
      else let pos = length a; a = a @ [t] in heap_update a rs pos (length a))"

end
