(* ===== verification/Server.thy ===== *)
theory Server
  imports Zset Timer_Heap Protocol
begin

text \<open>
  The database and the commands of \<open>src/server.cpp\<close>. The members of an \<open>Entry\<close> are in three stores
  under its address: the hash table node in \<open>db_nodes\<close>, \<open>heap_idx\<close> in \<open>idx\<close>, and the rest in
  \<open>ents\<close>. \<open>new\<close> takes the next unused address, \<open>delete\<close> removes the address from all stores. A
  command takes the global state, the strings of the request and the output buffer, and returns the
  new state and buffer; the clock reading it makes is the argument \<open>now\<close>.

  \<open>strtod\<close> of the C library is an argument of the commands that parse a score: the value (as a bit
  pattern) and the number of bytes it accepts of a string. Nothing is assumed about it.
\<close>

definition T_INIT :: u32 where "T_INIT = 0"
definition T_STR :: u32 where "T_STR = 1"
definition T_ZSET :: u32 where "T_ZSET = 2"

lemmas type_defs = T_INIT_def T_STR_def T_ZSET_def

record entry =
  ekey :: bytes
  etype :: u32
  estr :: bytes
  ezset :: zset

record gdata =
  db :: hmap
  db_nodes :: hstore
  ents :: "addr \<rightharpoonup> entry"
  idx :: rstore
  theap :: heap
  zm :: zmem
  ebrk :: addr

text \<open>The global \<open>g_data\<close> is zero-initialised.\<close>

definition g_data_init :: gdata where
  "g_data_init = \<lparr>db = hmap_empty, db_nodes = Map.empty, ents = Map.empty, idx = Map.empty, theap = [],
     zm = \<lparr>ztree = Map.empty, zhn = Map.empty, zdat = Map.empty, zbrk = 0\<rparr>, ebrk = 0\<rparr>"

type_synonym strtod = "bytes \<Rightarrow> u64 \<times> nat"

section \<open>Entries\<close>

definition entry_new :: "gdata \<Rightarrow> u32 \<Rightarrow> gdata \<times> addr" where
  "entry_new g type = (
     let ent = ebrk g in
     (g\<lparr>ents := (ents g)(ent \<mapsto> \<lparr>ekey = [], etype = type, estr = [], ezset = zset_empty\<rparr>),
        db_nodes := (db_nodes g)(ent \<mapsto> \<lparr>hnext = None, hcode = 0\<rparr>),
        idx := (idx g)(ent \<mapsto> no_timer), ebrk := ent + 1\<rparr>, ent))"

definition entry_del :: "gdata \<Rightarrow> addr \<Rightarrow> gdata option" where
  "entry_del g ent = do {
     i \<leftarrow> idx g ent;
     g \<leftarrow> (if i \<noteq> no_timer then do {
            (h, rs) \<leftarrow> heap_delete (theap g) (idx g) i;
            rs \<leftarrow> modify rs ent (\<lambda>_. no_timer);
            Some (g\<lparr>theap := h, idx := rs\<rparr>) }
          else Some g);
     e \<leftarrow> ents g ent;
     g \<leftarrow> (if etype e = T_ZSET then do { (m, z) \<leftarrow> zset_clear (zm g) (ezset e); Some (g\<lparr>zm := m\<rparr>) }
          else Some g);
     Some (g\<lparr>ents := (ents g)(ent := None), db_nodes := (db_nodes g)(ent := None),
             idx := (idx g)(ent := None)\<rparr>) }"

definition entry_set_ttl :: "gdata \<Rightarrow> addr \<Rightarrow> int \<Rightarrow> u64 \<Rightarrow> gdata option" where
  "entry_set_ttl g ent ttl_ms now = do {
     i \<leftarrow> idx g ent;
     if ttl_ms < 0 \<and> i \<noteq> no_timer then do {
       (h, rs) \<leftarrow> heap_delete (theap g) (idx g) i;
       rs \<leftarrow> modify rs ent (\<lambda>_. no_timer);
       Some (g\<lparr>theap := h, idx := rs\<rparr>) }
     else if ttl_ms \<ge> 0 then do {
       let expire_at = now + of_int ttl_ms;
       (h, rs) \<leftarrow> heap_upsert (theap g) (idx g) i \<lparr>hval = expire_at, href = ent\<rparr>;
       Some (g\<lparr>theap := h, idx := rs\<rparr>) }
     else Some g }"

definition entry_eq :: "gdata \<Rightarrow> bytes \<Rightarrow> addr \<Rightarrow> bool option" where
  "entry_eq g key node = do { e \<leftarrow> ents g node; Some (ekey e = key) }"

text \<open>
  \<open>LookupKey key; key.key.swap(s); key.node.hcode = str_hash(...); hm_lookup(&g_data.db, ...)\<close>, with
  which most commands begin.
\<close>

definition lookup_entry :: "gdata \<Rightarrow> bytes \<Rightarrow> (gdata \<times> ptr) option" where
  "lookup_entry g key = do {
     (hs, h, node) \<leftarrow> hm_lookup (db_nodes g) (db g) (str_hash key (length key)) (entry_eq g key);
     Some (g\<lparr>db_nodes := hs, db := h\<rparr>, node) }"

text \<open>\<open>ent->key.swap(key.key); ent->node.hcode = key.node.hcode; hm_insert(&g_data.db, &ent->node)\<close>.\<close>

definition insert_entry :: "gdata \<Rightarrow> addr \<Rightarrow> bytes \<Rightarrow> gdata option" where
  "insert_entry g ent key = do {
     es \<leftarrow> modify (ents g) ent (\<lambda>e. e\<lparr>ekey := key\<rparr>);
     hs \<leftarrow> modify (db_nodes g) ent (\<lambda>n. n\<lparr>hcode := str_hash key (length key)\<rparr>);
     (hs, h) \<leftarrow> hm_insert hs (db g) ent;
     Some (g\<lparr>ents := es, db_nodes := hs, db := h\<rparr>) }"

section \<open>Strings\<close>

definition do_get :: "gdata \<Rightarrow> bytes list \<Rightarrow> bytes \<Rightarrow> (gdata \<times> bytes) option" where
  "do_get g cmd out = do {
     key \<leftarrow> nth_opt cmd 1;
     (g, node) \<leftarrow> lookup_entry g key;
     case node of
       None \<Rightarrow> Some (g, out_nil out)
     | Some a \<Rightarrow> do {
         ent \<leftarrow> ents g a;
         if etype ent \<noteq> T_STR then Some (g, out_err out ERR_BAD_TYP (ascii ''not a string value''))
         else Some (g, out_str out (estr ent)) } }"

definition do_set :: "gdata \<Rightarrow> bytes list \<Rightarrow> bytes \<Rightarrow> (gdata \<times> bytes) option" where
  "do_set g cmd out = do {
     key \<leftarrow> nth_opt cmd 1;
     (g, node) \<leftarrow> lookup_entry g key;
     val \<leftarrow> nth_opt cmd 2;
     case node of
       Some a \<Rightarrow> do {
         ent \<leftarrow> ents g a;
         if etype ent \<noteq> T_STR then Some (g, out_err out ERR_BAD_TYP (ascii ''a non-string value exists''))
         else do {
           es \<leftarrow> modify (ents g) a (\<lambda>e. e\<lparr>estr := val\<rparr>);
           Some (g\<lparr>ents := es\<rparr>, out_nil out) } }
     | None \<Rightarrow> do {
         let (g, a) = entry_new g T_STR;
         es \<leftarrow> modify (ents g) a (\<lambda>e. e\<lparr>estr := val\<rparr>);
         rs \<leftarrow> modify (idx g) a (\<lambda>_. no_timer);
         g \<leftarrow> insert_entry (g\<lparr>ents := es, idx := rs\<rparr>) a key;
         Some (g, out_nil out) } }"

definition do_del :: "gdata \<Rightarrow> bytes list \<Rightarrow> bytes \<Rightarrow> (gdata \<times> bytes) option" where
  "do_del g cmd out = do {
     key \<leftarrow> nth_opt cmd 1;
     (hs, h, node) \<leftarrow> hm_delete (db_nodes g) (db g) (str_hash key (length key)) (entry_eq g key);
     let g = g\<lparr>db_nodes := hs, db := h\<rparr>;
     g \<leftarrow> (case node of None \<Rightarrow> Some g | Some a \<Rightarrow> entry_del g a);
     Some (g, out_int out (if node \<noteq> None then 1 else 0)) }"

definition cb_keys :: "gdata \<Rightarrow> addr \<Rightarrow> bytes \<Rightarrow> (bytes \<times> bool) option" where
  "cb_keys g node out = do { e \<leftarrow> ents g node; Some (out_str out (ekey e), True) }"

definition do_keys :: "gdata \<Rightarrow> bytes \<Rightarrow> (gdata \<times> bytes) option" where
  "do_keys g out = do {
     let out = out_arr out (of_nat (hm_size (db g)));
     out \<leftarrow> hm_foreach (db_nodes g) (db g) (cb_keys g) out;
     Some (g, out) }"

section \<open>Numbers\<close>

definition isspace_byte :: "byte \<Rightarrow> bool" where
  "isspace_byte b \<longleftrightarrow> b = 32 \<or> 9 \<le> b \<and> b \<le> 13"

definition isdigit_byte :: "byte \<Rightarrow> bool" where
  "isdigit_byte b \<longleftrightarrow> 48 \<le> b \<and> b \<le> 57"

definition digits_val :: "bytes \<Rightarrow> int" where
  "digits_val ds = foldl (\<lambda>v d. v * 10 + (uint d - 48)) 0 ds"

definition clamp_i64 :: "int \<Rightarrow> int" where
  "clamp_i64 v = max (- (2 ^ 63)) (min (2 ^ 63 - 1) v)"

text \<open>
  \<open>strtoll(s, &endp, 10)\<close> of the C library: white space, a sign, digits; the value saturates. The
  second component is \<open>endp - s\<close>, which is 0 when there are no digits.
\<close>

definition strtoll :: "bytes \<Rightarrow> int \<times> nat" where
  "strtoll s = (
     let ws = length (takeWhile isspace_byte s);
         r = drop ws s;
         sg = (if r \<noteq> [] \<and> (hd r = 43 \<or> hd r = 45) then 1 else 0);
         neg = (r \<noteq> [] \<and> hd r = 45);
         ds = takeWhile isdigit_byte (drop sg r)
     in if ds = [] then (0, 0)
        else (clamp_i64 (if neg then - digits_val ds else digits_val ds), ws + sg + length ds))"

definition str2int :: "bytes \<Rightarrow> int option" where
  "str2int s = (let (v, n) = strtoll s in if n = length s then Some v else None)"

definition str2dbl :: "strtod \<Rightarrow> bytes \<Rightarrow> u64 option" where
  "str2dbl strtod s = (let (v, n) = strtod s in if n = length s \<and> \<not> isnan v then Some v else None)"

section \<open>Timers\<close>

definition do_expire :: "gdata \<Rightarrow> u64 \<Rightarrow> bytes list \<Rightarrow> bytes \<Rightarrow> (gdata \<times> bytes) option" where
  "do_expire g now cmd out = do {
     s \<leftarrow> nth_opt cmd 2;
     case str2int s of
       None \<Rightarrow> Some (g, out_err out ERR_BAD_ARG (ascii ''expect int64''))
     | Some ttl_ms \<Rightarrow> do {
         key \<leftarrow> nth_opt cmd 1;
         (g, node) \<leftarrow> lookup_entry g key;
         g \<leftarrow> (case node of None \<Rightarrow> Some g | Some a \<Rightarrow> entry_set_ttl g a ttl_ms now);
         Some (g, out_int out (if node \<noteq> None then 1 else 0)) } }"

definition do_ttl :: "gdata \<Rightarrow> u64 \<Rightarrow> bytes list \<Rightarrow> bytes \<Rightarrow> (gdata \<times> bytes) option" where
  "do_ttl g now cmd out = do {
     key \<leftarrow> nth_opt cmd 1;
     (g, node) \<leftarrow> lookup_entry g key;
     case node of
       None \<Rightarrow> Some (g, out_int out (- 2))
     | Some a \<Rightarrow> do {
         i \<leftarrow> idx g a;
         if i = no_timer then Some (g, out_int out (- 1))
         else do {
           item \<leftarrow> nth_opt (theap g) i;
           let expire_at = hval item;
           Some (g, out_int out (if expire_at > now then sint (expire_at - now) else 0)) } } }"

section \<open>Sorted sets\<close>

definition do_zadd :: "strtod \<Rightarrow> gdata \<Rightarrow> bytes list \<Rightarrow> bytes \<Rightarrow> (gdata \<times> bytes) option" where
  "do_zadd strtod g cmd out = do {
     s \<leftarrow> nth_opt cmd 2;
     case str2dbl strtod s of
       None \<Rightarrow> Some (g, out_err out ERR_BAD_ARG (ascii ''expect float''))
     | Some sc \<Rightarrow> do {
         key \<leftarrow> nth_opt cmd 1;
         (g, hnode) \<leftarrow> lookup_entry g key;
         (g, a) \<leftarrow> (case hnode of
             None \<Rightarrow> do {
               let (g, a) = entry_new g T_ZSET;
               g \<leftarrow> insert_entry g a key;
               Some (g, a) }
           | Some a \<Rightarrow> Some (g, a));
         ent \<leftarrow> ents g a;
         if etype ent \<noteq> T_ZSET then Some (g, out_err out ERR_BAD_TYP (ascii ''expect zset''))
         else do {
           nm \<leftarrow> nth_opt cmd 3;
           (m, z, added) \<leftarrow> zset_insert (zm g) (ezset ent) nm (length nm) sc;
           es \<leftarrow> modify (ents g) a (\<lambda>e. e\<lparr>ezset := z\<rparr>);
           Some (g\<lparr>zm := m, ents := es\<rparr>, out_int out (if added then 1 else 0)) } } }"

text \<open>What \<open>expect_zset\<close> points to: the constant empty set, or the set of an entry.\<close>

datatype zref = Empty_zset | Zset_of addr

definition expect_zset :: "gdata \<Rightarrow> bytes \<Rightarrow> (gdata \<times> zref option) option" where
  "expect_zset g s = do {
     (g, hnode) \<leftarrow> lookup_entry g s;
     case hnode of
       None \<Rightarrow> Some (g, Some Empty_zset)
     | Some a \<Rightarrow> do {
         ent \<leftarrow> ents g a;
         Some (g, if etype ent = T_ZSET then Some (Zset_of a) else None) } }"

fun get_zset :: "gdata \<Rightarrow> zref \<Rightarrow> zset option" where
  "get_zset g Empty_zset = Some zset_empty"
| "get_zset g (Zset_of a) = do { e \<leftarrow> ents g a; Some (ezset e) }"

text \<open>The constant must not be written.\<close>

fun put_zset :: "gdata \<Rightarrow> zref \<Rightarrow> zset \<Rightarrow> gdata option" where
  "put_zset g Empty_zset z = do { require (z = zset_empty); Some g }"
| "put_zset g (Zset_of a) z = do { es \<leftarrow> modify (ents g) a (\<lambda>e. e\<lparr>ezset := z\<rparr>); Some (g\<lparr>ents := es\<rparr>) }"

definition do_zrem :: "gdata \<Rightarrow> bytes list \<Rightarrow> bytes \<Rightarrow> (gdata \<times> bytes) option" where
  "do_zrem g cmd out = do {
     key \<leftarrow> nth_opt cmd 1;
     (g, zr) \<leftarrow> expect_zset g key;
     case zr of
       None \<Rightarrow> Some (g, out_err out ERR_BAD_TYP (ascii ''expect zset''))
     | Some r \<Rightarrow> do {
         nm \<leftarrow> nth_opt cmd 2;
         z \<leftarrow> get_zset g r;
         (m, z, znode) \<leftarrow> zset_lookup (zm g) z nm (length nm);
         (m, z) \<leftarrow> (case znode of None \<Rightarrow> Some (m, z) | Some a \<Rightarrow> zset_delete m z a);
         g \<leftarrow> put_zset (g\<lparr>zm := m\<rparr>) r z;
         Some (g, out_int out (if znode \<noteq> None then 1 else 0)) } }"

definition do_zscore :: "gdata \<Rightarrow> bytes list \<Rightarrow> bytes \<Rightarrow> (gdata \<times> bytes) option" where
  "do_zscore g cmd out = do {
     key \<leftarrow> nth_opt cmd 1;
     (g, zr) \<leftarrow> expect_zset g key;
     case zr of
       None \<Rightarrow> Some (g, out_err out ERR_BAD_TYP (ascii ''expect zset''))
     | Some r \<Rightarrow> do {
         nm \<leftarrow> nth_opt cmd 2;
         z \<leftarrow> get_zset g r;
         (m, z, znode) \<leftarrow> zset_lookup (zm g) z nm (length nm);
         g \<leftarrow> put_zset (g\<lparr>zm := m\<rparr>) r z;
         case znode of
           None \<Rightarrow> Some (g, out_nil out)
         | Some a \<Rightarrow> do { d \<leftarrow> zdat m a; Some (g, out_dbl out (score d)) } } }"

partial_function (option) zquery_loop :: "zmem \<Rightarrow> ptr \<Rightarrow> int \<Rightarrow> int \<Rightarrow> bytes \<Rightarrow> (bytes \<times> int) option" where
  "zquery_loop m znode limit n out =
     (case znode of
        None \<Rightarrow> Some (out, n)
      | Some a \<Rightarrow>
          if n < limit then do {
            d \<leftarrow> zdat m a;
            nm \<leftarrow> mem_read (name d) 0 (len d);
            let out = out_dbl (out_str out nm) (score d);
            znode \<leftarrow> znode_offset m (Some a) 1;
            n \<leftarrow> i64 (n + 2);
            zquery_loop m znode limit n out }
          else Some (out, n))"

declare zquery_loop.simps [code]

definition do_zquery :: "strtod \<Rightarrow> gdata \<Rightarrow> bytes list \<Rightarrow> bytes \<Rightarrow> (gdata \<times> bytes) option" where
  "do_zquery strtod g cmd out = do {
     s \<leftarrow> nth_opt cmd 2;
     nm \<leftarrow> nth_opt cmd 3;
     s4 \<leftarrow> nth_opt cmd 4;
     s5 \<leftarrow> nth_opt cmd 5;
     case str2dbl strtod s of
       None \<Rightarrow> Some (g, out_err out ERR_BAD_ARG (ascii ''expect fp number''))
     | Some sc \<Rightarrow>
         (case (str2int s4, str2int s5) of
            (Some offset, Some limit) \<Rightarrow> do {
              key \<leftarrow> nth_opt cmd 1;
              (g, zr) \<leftarrow> expect_zset g key;
              case zr of
                None \<Rightarrow> Some (g, out_err out ERR_BAD_TYP (ascii ''expect zset''))
              | Some r \<Rightarrow>
                  if limit \<le> 0 then Some (g, out_arr out 0)
                  else do {
                    z \<leftarrow> get_zset g r;
                    znode \<leftarrow> zset_seekge (zm g) z sc nm (length nm);
                    znode \<leftarrow> znode_offset (zm g) znode offset;
                    let (out, ctx) = out_begin_arr out;
                    (out, n) \<leftarrow> zquery_loop (zm g) znode limit 0 out;
                    out \<leftarrow> out_end_arr out ctx (of_int n);
                    Some (g, out) } }
          | _ \<Rightarrow> Some (g, out_err out ERR_BAD_ARG (ascii ''expect int''))) }"

section \<open>Dispatch\<close>

definition do_request :: "strtod \<Rightarrow> gdata \<Rightarrow> u64 \<Rightarrow> bytes list \<Rightarrow> bytes \<Rightarrow> (gdata \<times> bytes) option" where
  "do_request strtod g now cmd out = (
     let is = (\<lambda>n name. length cmd = n \<and> cmd ! 0 = ascii name) in
     if is 2 ''get'' then do_get g cmd out
     else if is 3 ''set'' then do_set g cmd out
     else if is 2 ''del'' then do_del g cmd out
     else if is 1 ''keys'' then do_keys g out
     else if is 4 ''zadd'' then do_zadd strtod g cmd out
     else if is 3 ''zrem'' then do_zrem g cmd out
     else if is 3 ''zscore'' then do_zscore g cmd out
     else if is 6 ''zquery'' then do_zquery strtod g cmd out
     else if is 2 ''del'' then do_del g cmd out
     else if is 3 ''pexpire'' then do_expire g now cmd out
     else if is 2 ''pttl'' then do_ttl g now cmd out
     else Some (g, out_err out ERR_UNKNOWN (ascii ''unknown command.'')))"

end
