(* ===== verification/Dlist_Ring.thy ===== *)
theory Dlist_Ring
  imports Prelude
begin

text \<open>
  The intrusive circular doubly linked list of \<open>src/list.h\<close>, on a store of the \<open>DList\<close> members:
  the server keeps its connections in one, the longest idle first.
\<close>

record dlnode =
  dprev :: ptr
  dnext :: ptr

type_synonym dstore = "addr \<rightharpoonup> dlnode"

definition dlist_init :: "dstore \<Rightarrow> addr \<Rightarrow> dstore option" where
  "dlist_init s node = modify s node (\<lambda>n. n\<lparr>dprev := Some node, dnext := Some node\<rparr>)"

definition dlist_empty :: "dstore \<Rightarrow> addr \<Rightarrow> bool option" where
  "dlist_empty s node = do { n \<leftarrow> s node; Some (dnext n = Some node) }"

definition dlist_detach :: "dstore \<Rightarrow> addr \<Rightarrow> dstore option" where
  "dlist_detach s node = do {
     n \<leftarrow> s node;
     prv \<leftarrow> dprev n;
     nxt \<leftarrow> dnext n;
     s \<leftarrow> modify s prv (\<lambda>n. n\<lparr>dnext := Some nxt\<rparr>);
     modify s nxt (\<lambda>n. n\<lparr>dprev := Some prv\<rparr>) }"

definition dlist_insert_before :: "dstore \<Rightarrow> addr \<Rightarrow> addr \<Rightarrow> dstore option" where
  "dlist_insert_before s target rookie = do {
     t \<leftarrow> s target;
     prv \<leftarrow> dprev t;
     s \<leftarrow> modify s prv (\<lambda>n. n\<lparr>dnext := Some rookie\<rparr>);
     s \<leftarrow> modify s rookie (\<lambda>n. n\<lparr>dprev := Some prv\<rparr>);
     s \<leftarrow> modify s rookie (\<lambda>n. n\<lparr>dnext := Some target\<rparr>);
     modify s target (\<lambda>n. n\<lparr>dprev := Some rookie\<rparr>) }"

end
