(* ===== verification/Event_Loop.thy ===== *)
theory Event_Loop
  imports Server Dlist_Ring "HOL-Library.Signed_Division"
begin

text \<open>
  The connections and the event loop of \<open>src/server.cpp\<close>. A \<open>Conn\<close> has its plain members in \<open>conns\<close>
  and its \<open>idle_node\<close> in \<open>idle\<close>, both under its address; \<open>container_of\<close> is the identity on addresses.
  What the operating system answers is input: the result of each system call and each reading of the
  clock is an argument of the operation that makes it. \<open>None\<close> is a failed assertion, a bad pointer or an
  index out of range; the deliberate \<open>die\<close> is the outcome \<open>Died\<close>.
\<close>

unbundle bit_operations_syntax

section \<open>State\<close>

record conn =
  cfd :: nat
  want_read :: bool
  want_write :: bool
  want_close :: bool
  incoming :: bytes
  outgoing :: bytes
  last_active_ms :: u64

record server =
  gd :: gdata
  fd2conn :: "ptr list"
  conns :: "addr \<rightharpoonup> conn"
  idle :: dstore
  cbrk :: addr

text \<open>The address of the list head \<open>g_data.idle_list\<close>.\<close>

definition idle_list :: addr where
  "idle_list = 0"

text \<open>The state when the loop starts, and the start-up of \<open>main\<close>, which ends the process when a call on the listening
  socket fails.\<close>

definition server_init :: "server option" where
  "server_init = do {
     s \<leftarrow> dlist_init [idle_list \<mapsto> \<lparr>dprev = None, dnext = None\<rparr>] idle_list;
     Some \<lparr>gd = g_data_init, fd2conn = [], conns = Map.empty, idle = s, cbrk = 1\<rparr> }"

definition server_start :: "bool \<Rightarrow> bool \<Rightarrow> bool \<Rightarrow> server outcome option" where
  "server_start socket_ok bind_ok listen_ok = do {
     s \<leftarrow> server_init;
     Some (if \<not> socket_ok then Died
           else if \<not> bind_ok then Died
           else if \<not> listen_ok then Died
           else Running s) }"

text \<open>\<open>clock_gettime\<close> and the time in milliseconds that is computed from it.\<close>

record timespec =
  tv_sec :: int
  tv_nsec :: int

definition get_monotonic_msec :: "timespec \<Rightarrow> u64" where
  "get_monotonic_msec tv = of_int (tv_sec tv) * 1000 + of_int (tv_nsec tv sdiv 1000 sdiv 1000)"

text \<open>
  The results of the system calls on a socket. \<open>read\<close> returns an error, or the bytes it put into the
  buffer, none at the end of the stream. \<open>write\<close> returns an error, or the number of bytes it took:
  at most the number it was given, so \<open>Write_upto k\<close> takes the first \<open>k\<close> of them, or all. A \<open>write\<close> to a
  connection that the peer has reset does not return: the kernel sends the signal \<open>SIGPIPE\<close>, for which the
  server has no handler, and the signal ends the process. This is \<open>Write_sigpipe\<close>; \<open>Write_error\<close> is any other error.
\<close>

datatype read_res = Read_again | Read_error | Read_bytes bytes
datatype write_res = Write_again | Write_error | Write_sigpipe | Write_upto nat

section \<open>Requests\<close>

definition try_one_request :: "strtod \<Rightarrow> gdata \<Rightarrow> u64 \<Rightarrow> conn \<Rightarrow> (gdata \<times> conn \<times> bool) option" where
  "try_one_request strtod g now c =
     (if length (incoming c) < 4 then Some (g, c, False)
      else
        let len = bytes_u32 (take 4 (incoming c)) in
        if unat len > k_max_msg then Some (g, c\<lparr>want_close := True\<rparr>, False)
        else if unat (4 + len) > length (incoming c) then Some (g, c, False)
        else do {
          request \<leftarrow> mem_read (incoming c) 4 (unat len);
          case parse_req request of
            None \<Rightarrow> Some (g, c\<lparr>want_close := True\<rparr>, False)
          | Some cmd \<Rightarrow> do {
              let (out, header_pos) = response_begin (outgoing c);
              (g, out) \<leftarrow> do_request strtod g now cmd out;
              out \<leftarrow> response_end out header_pos;
              rest \<leftarrow> buf_consume (incoming c) (unat (4 + len));
              Some (g, c\<lparr>incoming := rest, outgoing := out\<rparr>, True) } })"

lemma try_one_request_shrinks:
  assumes "try_one_request strtod g now c = Some (g', c', True)"
  shows "length (incoming c') < length (incoming c)"
proof -
  define len where "len = bytes_u32 (take 4 (incoming c))"
  have "unat len \<le> k_max_msg" and r: "buf_consume (incoming c) (unat (4 + len)) = Some (incoming c')"
    using assms by (auto simp: try_one_request_def len_def [symmetric] Let_def split: if_splits option.splits bind_splits prod.splits)
  then have "unat (4 + len) = 4 + unat len"
    by (subst unat_add_lem [THEN iffD1]) (simp_all add: k_max_msg_def)
  then have "4 + unat len \<le> length (incoming c)" "incoming c' = drop (4 + unat len) (incoming c)"
    using r by (auto simp: buf_consume_def split: if_splits)
  then show ?thesis by simp
qed

text \<open>\<open>while (try_one_request(conn)) {}\<close>; \<open>clk i\<close> is the time that the \<open>i\<close>-th request reads.\<close>

function serve_requests :: "strtod \<Rightarrow> (nat \<Rightarrow> u64) \<Rightarrow> nat \<Rightarrow> gdata \<Rightarrow> conn \<Rightarrow> (gdata \<times> conn) option" where
  "serve_requests strtod clk i g c =
     (case try_one_request strtod g (clk i) c of
        None \<Rightarrow> None
      | Some (g', c', again) \<Rightarrow> if again then serve_requests strtod clk (Suc i) g' c' else Some (g', c'))"
  by pat_completeness auto
termination
  by (relation "measure (\<lambda>(strtod, clk, i, g, c). length (incoming c))") (auto dest: try_one_request_shrinks)

declare serve_requests.simps [simp del]

section \<open>Reading and writing\<close>

definition handle_write :: "write_res \<Rightarrow> conn \<Rightarrow> conn outcome option" where
  "handle_write w c = do {
     require (length (outgoing c) > 0);
     case w of
       Write_again \<Rightarrow> Some (Running c)
     | Write_error \<Rightarrow> Some (Running (c\<lparr>want_close := True\<rparr>))
     | Write_sigpipe \<Rightarrow> Some Died
     | Write_upto k \<Rightarrow> do {
         let rv = min k (length (outgoing c));
         out \<leftarrow> buf_consume (outgoing c) rv;
         let c = c\<lparr>outgoing := out\<rparr>;
         Some (Running (if length (outgoing c) = 0 then c\<lparr>want_read := True, want_write := False\<rparr> else c)) } }"

definition handle_read ::
  "strtod \<Rightarrow> (nat \<Rightarrow> u64) \<Rightarrow> read_res \<Rightarrow> write_res \<Rightarrow> gdata \<Rightarrow> conn \<Rightarrow> (gdata \<times> conn) outcome option" where
  "handle_read strtod clk r w g c = (case r of
     Read_again \<Rightarrow> Some (Running (g, c))
   | Read_error \<Rightarrow> Some (Running (g, c\<lparr>want_close := True\<rparr>))
   | Read_bytes buf \<Rightarrow>
       if length buf = 0 then Some (Running (g, c\<lparr>want_close := True\<rparr>))
       else do {
         (g, c) \<leftarrow> serve_requests strtod clk 0 g (c\<lparr>incoming := buf_append (incoming c) buf\<rparr>);
         if length (outgoing c) > 0 then do {
           h \<leftarrow> handle_write w (c\<lparr>want_read := False, want_write := True\<rparr>);
           case h of Died \<Rightarrow> Some Died | Running c \<Rightarrow> Some (Running (g, c)) }
         else Some (Running (g, c)) })"

section \<open>Opening and closing\<close>

text \<open>
  \<open>fcntl(fd, F_GETFL)\<close> returns the flags or sets \<open>errno\<close>; \<open>fcntl(fd, F_SETFL, flags)\<close> succeeds or not. The flags
  that are set, or the end of the process.
\<close>

definition O_NONBLOCK :: u32 where "O_NONBLOCK = 0x800"

definition fd_set_nb :: "u32 option \<Rightarrow> bool \<Rightarrow> u32 outcome" where
  "fd_set_nb getfl setfl_ok = (case getfl of
     None \<Rightarrow> Died
   | Some flags \<Rightarrow> let flags = flags OR O_NONBLOCK in if \<not> setfl_ok then Died else Running flags)"

text \<open>\<open>accept\<close> fails, or returns a descriptor; then the two calls of \<open>fcntl\<close> follow.\<close>

datatype accept_res = Accept_error | Accept_fd nat "u32 option" bool

definition handle_accept :: "server \<Rightarrow> accept_res \<Rightarrow> u64 \<Rightarrow> (server \<times> ptr) outcome option" where
  "handle_accept s r now = (case r of
     Accept_error \<Rightarrow> Some (Running (s, None))
   | Accept_fd connfd getfl setfl_ok \<Rightarrow>
       (case fd_set_nb getfl setfl_ok of
          Died \<Rightarrow> Some Died
        | Running _ \<Rightarrow> do {
            let a = cbrk s;
            let c = \<lparr>cfd = connfd, want_read = True, want_write = False, want_close = False,
                     incoming = [], outgoing = [], last_active_ms = now\<rparr>;
            l \<leftarrow> dlist_insert_before ((idle s)(a \<mapsto> \<lparr>dprev = None, dnext = None\<rparr>)) idle_list a;
            Some (Running (s\<lparr>conns := (conns s)(a \<mapsto> c), idle := l, cbrk := a + 1\<rparr>, Some a)) }))"

definition conn_destroy :: "server \<Rightarrow> addr \<Rightarrow> server option" where
  "conn_destroy s a = do {
     c \<leftarrow> conns s a;
     v \<leftarrow> upd_nth (fd2conn s) (cfd c) None;
     l \<leftarrow> dlist_detach (idle s) a;
     Some (s\<lparr>fd2conn := v, conns := (conns s)(a := None), idle := l(a := None)\<rparr>) }"

section \<open>Timers\<close>

definition k_idle_timeout_ms :: u64 where
  "k_idle_timeout_ms = 5 * 1000"

text \<open>The connection at the front of the idle list, which is not empty.\<close>

definition idle_front :: "server \<Rightarrow> (addr \<times> conn) option" where
  "idle_front s = do {
     n \<leftarrow> idle s idle_list;
     a \<leftarrow> dnext n;
     c \<leftarrow> conns s a;
     Some (a, c) }"

definition next_timer_ms :: "server \<Rightarrow> u64 \<Rightarrow> u32 option" where
  "next_timer_ms s now_ms = do {
     e \<leftarrow> dlist_empty (idle s) idle_list;
     next_ms \<leftarrow> (if \<not> e then do { (a, c) \<leftarrow> idle_front s; Some (last_active_ms c + k_idle_timeout_ms) }
                else Some (- 1));
     let next_ms = (case theap (gd s) of item # _ \<Rightarrow> if hval item < next_ms then hval item else next_ms
                    | [] \<Rightarrow> next_ms);
     Some (if next_ms = - 1 then - 1 else if next_ms \<le> now_ms then 0 else ucast (next_ms - now_ms)) }"

partial_function (option) expire_conns :: "server \<Rightarrow> u64 \<Rightarrow> server option" where
  "expire_conns s now_ms = do {
     e \<leftarrow> dlist_empty (idle s) idle_list;
     if e then Some s
     else do {
       (a, c) \<leftarrow> idle_front s;
       if last_active_ms c + k_idle_timeout_ms > now_ms then Some s
       else do {
         s \<leftarrow> conn_destroy s a;
         expire_conns s now_ms } } }"

declare expire_conns.simps [code]

definition hnode_same :: "addr \<Rightarrow> addr \<Rightarrow> bool option" where
  "hnode_same key node = Some (node = key)"

definition k_max_works :: nat where
  "k_max_works = 2000"

partial_function (option) expire_keys :: "gdata \<Rightarrow> u64 \<Rightarrow> nat \<Rightarrow> gdata option" where
  "expire_keys g now_ms nworks =
     (case theap g of
        [] \<Rightarrow> Some g
      | item # _ \<Rightarrow>
          if hval item < now_ms then do {
            let a = href item;
            n \<leftarrow> db_nodes g a;
            (hs, h, node) \<leftarrow> hm_delete (db_nodes g) (db g) (hcode n) (hnode_same a);
            let g = g\<lparr>db_nodes := hs, db := h\<rparr>;
            case node of
              None \<Rightarrow> do {
                rs \<leftarrow> modify (idx g) a (\<lambda>_. no_timer);
                g \<leftarrow> entry_del (g\<lparr>idx := rs\<rparr>) a;
                expire_keys g now_ms nworks }
            | Some _ \<Rightarrow> do {
                g \<leftarrow> entry_del g a;
                if nworks \<ge> k_max_works then Some g else expire_keys g now_ms (nworks + 1) } }
          else Some g)"

declare expire_keys.simps [code]

definition process_timers :: "server \<Rightarrow> u64 \<Rightarrow> server option" where
  "process_timers s now_ms = do {
     s \<leftarrow> expire_conns s now_ms;
     g \<leftarrow> expire_keys (gd s) now_ms 0;
     Some (s\<lparr>gd := g\<rparr>) }"

section \<open>The event loop\<close>

definition POLLIN :: u32 where "POLLIN = 1"
definition POLLOUT :: u32 where "POLLOUT = 4"
definition POLLERR :: u32 where "POLLERR = 8"
definition POLLHUP :: u32 where "POLLHUP = 16"
definition POLLNVAL :: u32 where "POLLNVAL = 32"

text \<open>The events a connection waits for, and the connections' part of \<open>poll_args\<close>.\<close>

definition poll_events :: "conn \<Rightarrow> u32" where
  "poll_events c = (
     let events = POLLERR;
         events = (if want_read c then events OR POLLIN else events)
     in if want_write c then events OR POLLOUT else events)"

fun poll_conns :: "(addr \<rightharpoonup> conn) \<Rightarrow> ptr list \<Rightarrow> (nat \<times> u32) list option" where
  "poll_conns cs [] = Some []"
| "poll_conns cs (None # v) = poll_conns cs v"
| "poll_conns cs (Some a # v) = do {
     c \<leftarrow> cs a;
     args \<leftarrow> poll_conns cs v;
     Some ((cfd c, poll_events c) # args) }"

text \<open>
  What happens on one connection in one iteration: the \<open>revents\<close> of \<open>poll\<close>, the clock, the times that
  its requests read, and the results of the calls on its socket.
\<close>

record conn_io =
  io_ready :: u32
  io_clock :: u64
  io_req_clock :: "nat \<Rightarrow> u64"
  io_read :: read_res
  io_read_write :: write_res
  io_write :: write_res

definition handle_conn :: "strtod \<Rightarrow> server \<Rightarrow> nat \<Rightarrow> conn_io \<Rightarrow> server outcome option" where
  "handle_conn strtod s fd io = do {
     let ready = io_ready io;
     p \<leftarrow> nth_opt (fd2conn s) fd;
     a \<leftarrow> p;
     c \<leftarrow> conns s a;
     let c = c\<lparr>last_active_ms := io_clock io\<rparr>;
     l \<leftarrow> dlist_detach (idle s) a;
     l \<leftarrow> dlist_insert_before l idle_list a;
     h \<leftarrow> (if ready AND POLLIN \<noteq> 0
           then handle_read strtod (io_req_clock io) (io_read io) (io_read_write io) (gd s) c
           else Some (Running (gd s, c)));
     case h of
       Died \<Rightarrow> Some Died
     | Running (g, c) \<Rightarrow> do {
         h \<leftarrow> (if ready AND POLLOUT \<noteq> 0 then handle_write (io_write io) c else Some (Running c));
         case h of
           Died \<Rightarrow> Some Died
         | Running c \<Rightarrow> do {
             let s = s\<lparr>gd := g, conns := (conns s)(a \<mapsto> c), idle := l\<rparr>;
             s \<leftarrow> (if ready AND POLLERR \<noteq> 0 \<or> want_close c then conn_destroy s a else Some s);
             Some (Running s) } } }"

fun handle_conns :: "strtod \<Rightarrow> server \<Rightarrow> (nat \<times> conn_io) list \<Rightarrow> server outcome option" where
  "handle_conns strtod s [] = Some (Running s)"
| "handle_conns strtod s ((fd, io) # w) = do {
     h \<leftarrow> handle_conn strtod s fd io;
     case h of Died \<Rightarrow> Some Died | Running s \<Rightarrow> handle_conns strtod s w }"

definition accept_conn :: "server \<Rightarrow> accept_res \<Rightarrow> u64 \<Rightarrow> server outcome option" where
  "accept_conn s r now = do {
     h \<leftarrow> handle_accept s r now;
     case h of
       Died \<Rightarrow> Some Died
     | Running (s, None) \<Rightarrow> Some (Running s)
     | Running (s, Some a) \<Rightarrow> do {
         c \<leftarrow> conns s a;
         let v = (if length (fd2conn s) \<le> cfd c
                  then fd2conn s @ replicate (cfd c + 1 - length (fd2conn s)) None else fd2conn s);
         old \<leftarrow> nth_opt v (cfd c);
         require (old = None);
         v \<leftarrow> upd_nth v (cfd c) (Some a);
         Some (Running (s\<lparr>fd2conn := v\<rparr>)) } }"

text \<open>
  One iteration of \<open>while (true)\<close>. \<open>Woken\<close> has the events of the listening socket and, in the order of
  \<open>poll_args\<close>, what happens on each connection.
\<close>

datatype poll_res = Poll_eintr | Poll_error | Woken u32 "conn_io list"

record wakeup =
  wk_timer_clock :: u64
  wk_poll :: poll_res
  wk_accept :: accept_res
  wk_accept_clock :: u64
  wk_end_clock :: u64

definition iteration :: "strtod \<Rightarrow> server \<Rightarrow> wakeup \<Rightarrow> server outcome option" where
  "iteration strtod s wk = do {
     args \<leftarrow> poll_conns (conns s) (fd2conn s);
     timeout_ms \<leftarrow> next_timer_ms s (wk_timer_clock wk);
     case wk_poll wk of
       Poll_eintr \<Rightarrow> Some (Running s)
     | Poll_error \<Rightarrow> Some Died
     | Woken listening ios \<Rightarrow> do {
         h \<leftarrow> (if listening \<noteq> 0 then accept_conn s (wk_accept wk) (wk_accept_clock wk) else Some (Running s));
         case h of
           Died \<Rightarrow> Some Died
         | Running s \<Rightarrow> do {
             h \<leftarrow> handle_conns strtod s (zip (map fst args) ios);
             case h of
               Died \<Rightarrow> Some Died
             | Running s \<Rightarrow> do {
                 s \<leftarrow> process_timers s (wk_end_clock wk);
                 Some (Running s) } } } }"

text \<open>\<open>while (true)\<close> over the wake-ups that happen; it has no exit but the end of the process.\<close>

fun main_loop :: "strtod \<Rightarrow> server \<Rightarrow> wakeup list \<Rightarrow> server outcome option" where
  "main_loop strtod s [] = Some (Running s)"
| "main_loop strtod s (wk # wks) = do {
     h \<leftarrow> iteration strtod s wk;
     case h of Died \<Rightarrow> Some Died | Running s \<Rightarrow> main_loop strtod s wks }"

end
