(* ===== verification/Hashtable_Correct.thy ===== *)
theory Hashtable_Correct
  imports Hashtable
begin

text \<open>
  The hash table is correct: a representation predicate that reads a table in memory as a
  list of buckets, each a list of nodes, and the effect of every operation on it.
\<close>

section \<open>Chains\<close>

fun chain :: "hstore \<Rightarrow> ptr \<Rightarrow> addr list \<Rightarrow> bool" where
  "chain hs p [] \<longleftrightarrow> p = None"
| "chain hs p (a # as) \<longleftrightarrow> p = Some a \<and> (\<exists>n. hs a = Some n \<and> chain hs (hnext n) as)"

lemma chain_None [simp]: "chain hs None xs \<longleftrightarrow> xs = []"
  by (cases xs) auto

lemma chain_frame [frame_simps]:
  "(\<And>a. a \<in> set xs \<Longrightarrow> hs' a = hs a) \<Longrightarrow> chain hs' p xs = chain hs p xs"
  by (induction xs arbitrary: p) auto

lemma chain_upd_other [simp]: "a \<notin> set xs \<Longrightarrow> chain (hs(a := v)) p xs = chain hs p xs"
  by (rule chain_frame) auto

lemma chain_alloc: "chain hs p xs \<Longrightarrow> a \<in> set xs \<Longrightarrow> \<exists>n. hs a = Some n"
  by (induction xs arbitrary: p) auto

text \<open>A node of a chain that the search of the code matches.\<close>

definition hmatch :: "hstore \<Rightarrow> u64 \<Rightarrow> (addr \<Rightarrow> bool option) \<Rightarrow> addr \<Rightarrow> bool" where
  "hmatch hs hc eq a \<longleftrightarrow> (\<exists>n. hs a = Some n \<and> hcode n = hc) \<and> eq a = Some True"

text \<open>The callback may be called on every node that has the hash code of the key.\<close>

definition eq_defined :: "hstore \<Rightarrow> u64 \<Rightarrow> (addr \<Rightarrow> bool option) \<Rightarrow> addr set \<Rightarrow> bool" where
  "eq_defined hs hc eq A \<longleftrightarrow>
     (\<forall>a \<in> A. \<forall>n. hs a = Some n \<longrightarrow> hcode n = hc \<longrightarrow> eq a \<noteq> None)"

lemma eq_defined_mono: "eq_defined hs hc eq A \<Longrightarrow> B \<subseteq> A \<Longrightarrow> eq_defined hs hc eq B"
  by (auto simp: eq_defined_def)

fun slot_of :: "(addr \<Rightarrow> bool) \<Rightarrow> hslot \<Rightarrow> addr list \<Rightarrow> hslot option" where
  "slot_of m from [] = None"
| "slot_of m from (a # as) = (if m a then Some from else slot_of m (NextOf a) as)"

lemma h_walk_slot_of:
  assumes "read_slot hs t from = Some p" and "chain hs p xs" and "eq_defined hs hc eq (set xs)"
  shows "h_walk hs t hc eq from = Some (slot_of (hmatch hs hc eq) from xs)"
  using assms
proof (induction xs arbitrary: p "from")
  case Nil
  then show ?case by (simp add: h_walk.simps)
next
  case (Cons a as)
  from Cons.prems obtain n where n: "p = Some a" "hs a = Some n" "chain hs (hnext n) as"
    by auto
  have rest: "h_walk hs t hc eq (NextOf a) = Some (slot_of (hmatch hs hc eq) (NextOf a) as)"
    using Cons.prems n by (intro Cons.IH) (auto simp: eq_defined_def)
  have "eq a \<noteq> None" if "hcode n = hc"
    using Cons.prems n that by (auto simp: eq_defined_def)
  then show ?case
    using Cons.prems n rest
    by (subst h_walk.simps) (auto simp: hmatch_def split: option.splits)
qed

lemma slot_of_None: "slot_of m from xs = None \<longleftrightarrow> (\<forall>a \<in> set xs. \<not> m a)"
  by (induction xs arbitrary: "from") auto

lemma slot_of_SomeD:
  "slot_of m from xs = Some sl \<Longrightarrow>
   \<exists>pre a post. xs = pre @ a # post \<and> m a \<and> (\<forall>x \<in> set pre. \<not> m x)
     \<and> sl = (if pre = [] then from else NextOf (last pre))"
proof (induction xs arbitrary: "from")
  case (Cons x xs)
  show ?case
  proof (cases "m x")
    case True
    with Cons.prems show ?thesis by (intro exI [of _ "[]"]) auto
  next
    case False
    with Cons.prems have "slot_of m (NextOf x) xs = Some sl" by simp
    from Cons.IH [OF this] obtain pre a post where
      *: "xs = pre @ a # post" "m a" "\<forall>x \<in> set pre. \<not> m x"
        "sl = (if pre = [] then NextOf x else NextOf (last pre))"
      by blast
    then show ?thesis
      using False by (intro exI [of _ "x # pre"] exI [of _ a] exI [of _ post]) auto
  qed
qed simp

section \<open>Tables\<close>

text \<open>
  \<open>tab_rep hs t bss\<close>: the table's array has one chain per bucket, \<open>bss\<close> lists their nodes,
  every node is in the bucket its hash code selects, the number of buckets is a power of
  two, at least 4, and the stored size is the number of nodes.
\<close>

definition tab_rep :: "hstore \<Rightarrow> htab \<Rightarrow> addr list list \<Rightarrow> bool" where
  "tab_rep hs t bss \<longleftrightarrow>
     (\<exists>tb. tab t = Some tb \<and> length tb = length bss \<and>
        (\<forall>i < length bss. chain hs (tb ! i) (bss ! i))) \<and>
     length bss = tab_mask t + 1 \<and> (\<exists>k \<ge> 2. tab_mask t + 1 = 2 ^ k) \<and>
     tab_size t = length (concat bss) \<and>
     (\<forall>i < length bss. \<forall>a \<in> set (bss ! i). \<forall>n. hs a = Some n \<longrightarrow> unat (hcode n) AND tab_mask t = i)"

lemma tab_repD:
  assumes "tab_rep hs t bss"
  obtains tb where "tab t = Some tb" "length tb = length bss"
    "\<And>i. i < length bss \<Longrightarrow> chain hs (tb ! i) (bss ! i)"
  using assms unfolding tab_rep_def by blast

lemma and_mask_less: "tab_mask t + 1 = 2 ^ k \<Longrightarrow> x AND tab_mask t < (2 :: nat) ^ k"
proof -
  assume "tab_mask t + 1 = 2 ^ k"
  then have "tab_mask t = 2 ^ k - 1" by simp
  then have "x AND tab_mask t = take_bit k x"
    by (simp add: take_bit_eq_mask mask_eq_exp_minus_1)
  then show ?thesis by simp
qed

lemma tab_rep_pos: "tab_rep hs t bss \<Longrightarrow> x AND tab_mask t < length bss"
  unfolding tab_rep_def using and_mask_less by metis

lemma tab_rep_mask: "tab_rep hs t bss \<Longrightarrow> tab_mask t \<ge> 3"
proof -
  assume "tab_rep hs t bss"
  then obtain k where k: "2 \<le> k" "tab_mask t + 1 = 2 ^ k" by (auto simp: tab_rep_def)
  have "(2::nat) ^ 2 \<le> 2 ^ k" by (rule power_increasing) (use k(1) in simp_all)
  with k(2) show ?thesis by simp
qed

lemma tab_rep_concat_alloc: "tab_rep hs t bss \<Longrightarrow> a \<in> set (concat bss) \<Longrightarrow> \<exists>n. hs a = Some n"
  unfolding tab_rep_def by (auto simp: in_set_conv_nth dest!: chain_alloc) (metis chain_alloc nth_mem)

text \<open>Two stores that differ in the \<open>hnext\<close> members of the nodes \<open>A\<close> only.\<close>

definition rehung :: "addr set \<Rightarrow> hstore \<Rightarrow> hstore \<Rightarrow> bool" where
  "rehung A hs hs' \<longleftrightarrow>
     same_outside A hs hs' \<and> (\<forall>x. map_option hcode (hs' x) = map_option hcode (hs x))"

lemma rehung_refl [simp, intro]: "rehung A hs hs"
  by (simp add: rehung_def)

lemma rehung_trans: "rehung A hs hs' \<Longrightarrow> rehung A hs' hs'' \<Longrightarrow> rehung A hs hs''"
  by (auto simp: rehung_def intro: same_outside_trans)

lemma rehung_mono: "rehung A hs hs' \<Longrightarrow> A \<subseteq> B \<Longrightarrow> rehung B hs hs'"
  by (auto simp: rehung_def intro: same_outside_mono)

lemma rehung_upd [intro]: "hs a = Some n \<Longrightarrow> a \<in> A \<Longrightarrow> rehung A hs (hs(a \<mapsto> n\<lparr>hnext := p\<rparr>))"
  by (auto simp: rehung_def)

lemma rehung_hcode:
  "rehung A hs hs' \<Longrightarrow> (\<exists>n. hs' a = Some n \<and> hcode n = c) \<longleftrightarrow> (\<exists>n. hs a = Some n \<and> hcode n = c)"
  by (auto simp: rehung_def) (metis (no_types, lifting) map_option_eq_Some)+

lemma rehung_hmatch: "rehung A hs hs' \<Longrightarrow> hmatch hs' hc eq a = hmatch hs hc eq a"
  by (simp add: hmatch_def rehung_hcode)

lemma rehung_eq_defined: "rehung A hs hs' \<Longrightarrow> eq_defined hs' hc eq B = eq_defined hs hc eq B"
  unfolding eq_defined_def using rehung_hcode [of A hs hs'] by blast

lemma rehung_outside: "rehung A hs hs' \<Longrightarrow> a \<notin> A \<Longrightarrow> hs' a = hs a"
  by (simp add: rehung_def same_outside_def)

lemma tab_rep_frame [frame_simps]:
  "rehung A hs hs' \<Longrightarrow> A \<inter> set (concat bss) = {} \<Longrightarrow> tab_rep hs t bss \<Longrightarrow> tab_rep hs' t bss"
proof -
  assume A: "rehung A hs hs'" "A \<inter> set (concat bss) = {}" "tab_rep hs t bss"
  have same: "hs' a = hs a" if "i < length bss" "a \<in> set (bss ! i)" for i a
  proof -
    have "a \<in> set (concat bss)" using that by (auto simp: set_concat_nth)
    with A show ?thesis by (auto dest: rehung_outside)
  qed
  then have "chain hs' p (bss ! i) = chain hs p (bss ! i)" if "i < length bss" for p i
    using that by (intro chain_frame) auto
  then show ?thesis using A(3) same unfolding tab_rep_def by fastforce
qed

lemma h_init_4 [simp]: "h_init 4 = Some \<lparr>tab = Some (replicate 4 None), tab_mask = 3, tab_size = 0\<rparr>"
  by (simp add: h_init_def)

lemma pow2_and_pred: "((2::nat) ^ k - 1) AND 2 ^ k = 0"
proof -
  have "((2::nat) ^ k - 1) AND 2 ^ k = take_bit k (2 ^ k)"
    by (simp add: take_bit_eq_mask mask_eq_exp_minus_1 and.commute)
  then show ?thesis by simp
qed

lemma h_init_pow2:
  "h_init (2 ^ k) = Some \<lparr>tab = Some (replicate (2 ^ k) None), tab_mask = 2 ^ k - 1, tab_size = 0\<rparr>"
  using pow2_and_pred [of k] by (simp add: h_init_def)

lemma tab_rep_init:
  assumes "h_init (2 ^ k) = Some t" and "2 \<le> k"
  shows "tab_rep hs t (replicate (2 ^ k) []) \<and> tab_mask t = 2 ^ k - 1"
proof -
  have "concat (replicate n []) = []" for n :: nat
    by (induction n) auto
  then show ?thesis
    using assms by (auto simp: h_init_pow2 tab_rep_def)
qed

lemma h_insert_rep:
  assumes rep: "tab_rep hs t bss" and n: "hs node = Some n" and new: "node \<notin> set (concat bss)"
  defines "pos \<equiv> unat (hcode n) AND tab_mask t"
  shows "\<exists>hs' t'. h_insert hs t node = Some (hs', t') \<and> tab_mask t' = tab_mask t \<and>
      tab_rep hs' t' (bss[pos := node # bss ! pos]) \<and> rehung {node} hs hs'"
proof -
  have pos: "pos < length bss"
    using rep by (simp add: pos_def tab_rep_pos)
  obtain tb where tb: "tab t = Some tb" "length tb = length bss"
    "\<And>i. i < length bss \<Longrightarrow> chain hs (tb ! i) (bss ! i)"
    using rep by (rule tab_repD) blast
  define hs' where "hs' = hs(node \<mapsto> n\<lparr>hnext := tb ! pos\<rparr>)"
  define t' where "t' = t\<lparr>tab := Some (tb[pos := Some node]), tab_size := tab_size t + 1\<rparr>"
  have out: "node \<notin> set (bss ! i)" if "i < length bss" for i
    using new that by (auto simp: set_concat_nth)
  have chains: "chain hs' (tb[pos := Some node] ! i) (bss[pos := node # bss ! pos] ! i)"
    if "i < length bss" for i
    using that tb pos out by (cases "i = pos") (auto simp: hs'_def)
  have codes: "unat (hcode m) AND tab_mask t = i"
    if "i < length bss" "a \<in> set (bss[pos := node # bss ! pos] ! i)" "hs' a = Some m" for i a m
  proof (cases "a = node")
    case True
    with that out have "i = pos" by (cases "i = pos") auto
    with True that show ?thesis by (auto simp: hs'_def pos_def)
  next
    case False
    with that have "a \<in> set (bss ! i)" "hs a = Some m"
      by (cases "i = pos"; simp add: hs'_def)+
    with rep that show ?thesis unfolding tab_rep_def by blast
  qed
  have "mset (concat (bss[pos := node # bss ! pos])) = add_mset node (mset (concat bss))"
    using mset_concat_update [OF pos, of "node # bss ! pos"] by simp
  then have len: "length (concat (bss[pos := node # bss ! pos])) = length (concat bss) + 1"
    by (metis size_mset size_add_mset Suc_eq_plus1)
  have "tab_rep hs' t' (bss[pos := node # bss ! pos])"
    using rep chains codes tb len unfolding tab_rep_def t'_def by simp
  moreover have "h_insert hs t node = Some (hs', t')"
    using n tb pos by (simp add: h_insert_def Let_def pos_def [symmetric] hs'_def t'_def)
  moreover have "rehung {node} hs hs'"
    using n by (auto simp: hs'_def)
  moreover have "tab_mask t' = tab_mask t" by (simp add: t'_def)
  ultimately show ?thesis by blast
qed

lemma chain_unlink:
  assumes "chain hs p (pre @ a # post)" and "distinct (pre @ a # post)" and "pre \<noteq> []"
    and "hs a = Some na" and "hs (last pre) = Some nb"
  shows "chain (hs(last pre \<mapsto> nb\<lparr>hnext := hnext na\<rparr>)) p (pre @ post)"
  using assms
proof (induction pre arbitrary: p)
  case (Cons x xs)
  show ?case
  proof (cases "xs = []")
    case True
    define hs' where "hs' = hs(x \<mapsto> nb\<lparr>hnext := hnext na\<rparr>)"
    from True have "chain hs (hnext na) post" "x \<notin> set post" "p = Some x" "hs x = Some nb"
      using Cons.prems by auto
    then have "p = Some x" "hs' x = Some (nb\<lparr>hnext := hnext na\<rparr>)" "chain hs' (hnext na) post"
      by (simp_all add: hs'_def)
    then show ?thesis using True by (simp add: hs'_def [symmetric])
  next
    case False
    then have "last (x # xs) \<noteq> x" using Cons.prems(2) last_in_set by fastforce
    then show ?thesis using Cons False by auto
  qed
qed simp

lemma chain_drop_prefix: "chain hs p (pre @ post) \<Longrightarrow> \<exists>q. chain hs q post"
  by (induction pre arbitrary: p) auto

lemma chain_mid:
  "chain hs p (pre @ a # post) \<Longrightarrow> pre \<noteq> [] \<Longrightarrow> \<exists>nb. hs (last pre) = Some nb \<and> hnext nb = Some a"
proof (induction pre arbitrary: p)
  case (Cons x xs)
  then show ?case by (cases xs) auto
qed simp

lemma tab_rep_remove:
  assumes rep: "tab_rep hs t bss" and i: "i < length bss" and b: "bss ! i = pre @ a # post"
    and re: "rehung A hs hs'" and len: "length tb' = length bss"
    and ch: "\<And>j. j < length bss \<Longrightarrow> chain hs' (tb' ! j) (bss[i := pre @ post] ! j)"
  shows "tab_rep hs' (t\<lparr>tab := Some tb', tab_size := tab_size t - 1\<rparr>) (bss[i := pre @ post])"
proof -
  have "mset (concat (bss[i := pre @ post])) + {#a#} = mset (concat bss)"
    using mset_concat_update [OF i, of "pre @ post"] b by simp
  then have sz: "length (concat (bss[i := pre @ post])) = length (concat bss) - 1"
    by (metis Suc_eq_plus1 add_diff_cancel_right' size_mset size_single size_union)
  have code: "unat (hcode m) AND tab_mask t = j"
    if j: "j < length bss" and x: "x \<in> set (bss[i := pre @ post] ! j)" and m: "hs' x = Some m" for j x m
  proof -
    have "x \<in> set (bss ! j)" using j x b by (cases "j = i") auto
    moreover obtain m0 where "hs x = Some m0" "hcode m0 = hcode m"
      using m rehung_hcode [OF re, of x "hcode m"] by blast
    ultimately show ?thesis using rep j unfolding tab_rep_def by metis
  qed
  then show ?thesis using rep len ch sz unfolding tab_rep_def by simp
qed

lemma h_detach_rep:
  assumes rep: "tab_rep hs t bss" and dist: "distinct (concat bss)" and i: "i < length bss"
    and b: "bss ! i = pre @ a # post"
    and sl: "sl = (if pre = [] then Bucket i else NextOf (last pre))"
  shows "\<exists>hs' t'. h_detach hs t sl = Some (hs', t', a) \<and> tab_mask t' = tab_mask t \<and>
      tab_rep hs' t' (bss[i := pre @ post]) \<and> rehung (set (concat bss) - {a}) hs hs'"
proof -
  obtain tb where tb: "tab t = Some tb" "length tb = length bss"
    "\<And>j. j < length bss \<Longrightarrow> chain hs (tb ! j) (bss ! j)"
    using rep by (rule tab_repD) blast
  have ch: "chain hs (tb ! i) (pre @ a # post)" using tb(3) [OF i] b by simp
  have da: "distinct (pre @ a # post)" using distinct_concat_nth [OF dist i] b by simp
  obtain na where na: "hs a = Some na" using chain_alloc [OF ch] by auto
  show ?thesis
  proof (cases "pre = []")
    case True
    define t' where "t' = t\<lparr>tab := Some (tb[i := hnext na]), tab_size := tab_size t - 1\<rparr>"
    have p: "tb ! i = Some a" and post: "chain hs (hnext na) post"
      using ch True na by auto
    have ch': "chain hs (tb[i := hnext na] ! j) (bss[i := post] ! j)" if "j < length bss" for j
      using that tb post by (cases "j = i") auto
    have "tab_rep hs t' (bss[i := post])"
      using tab_rep_remove [OF rep i b rehung_refl, of "tb[i := hnext na]"] tb(2) ch' True
      by (simp add: t'_def)
    then show ?thesis
      using True p na tb i by (auto simp: sl h_detach_def t'_def)
  next
    case False
    obtain nb where nb: "hs (last pre) = Some nb" "hnext nb = Some a"
      using chain_mid [OF ch False] by blast
    define hs' where "hs' = hs(last pre \<mapsto> nb\<lparr>hnext := hnext na\<rparr>)"
    define t' where "t' = t\<lparr>tab := Some tb, tab_size := tab_size t - 1\<rparr>"
    have lp: "last pre \<in> set (bss ! i)" "last pre \<noteq> a"
      using False b da last_in_set [OF False] by auto
    have re: "rehung (set (concat bss) - {a}) hs hs'"
      unfolding hs'_def using nb(1) lp i by (intro rehung_upd) (auto simp: set_concat_nth)
    have ch': "chain hs' (tb ! j) (bss[i := pre @ post] ! j)" if j: "j < length bss" for j
    proof (cases "j = i")
      case True
      then show ?thesis
        using chain_unlink [OF ch da False na nb(1)] i by (simp add: hs'_def)
    next
      case False
      then have "last pre \<notin> set (bss ! j)"
        using distinct_concat_disjoint [OF dist i j lp(1)] by auto
      with False j tb show ?thesis by (simp add: hs'_def)
    qed
    have "tab_rep hs' t' (bss[i := pre @ post])"
      using tab_rep_remove [OF rep i b re tb(2) ch'] by (simp add: t'_def)
    moreover have "h_detach hs t sl = Some (hs', t', a)"
      using False nb na tb(1) by (simp add: sl h_detach_def hs'_def t'_def)
    ultimately show ?thesis using re by (auto simp: t'_def)
  qed
qed

section \<open>Two tables and the migration between them\<close>

text \<open>Both tables of a map that is being migrated, and the part of the older one already empty.\<close>

definition migrating :: "hstore \<Rightarrow> hmap \<Rightarrow> addr list list \<Rightarrow> addr list list \<Rightarrow> bool" where
  "migrating hs m ns os \<longleftrightarrow>
     tab_rep hs (newer m) ns \<and> tab_rep hs (older m) os \<and>
     (\<forall>i < length os. i < migrate_pos m \<longrightarrow> os ! i = []) \<and>
     distinct (concat ns @ concat os)"

lemma migrating_pos:
  assumes "migrating hs m ns os" and "tab_size (older m) > 0"
  shows "migrate_pos m < length os"
proof (rule ccontr)
  assume "\<not> migrate_pos m < length os"
  then have "os ! i = []" if "i < length os" for i
    using assms(1) that by (simp add: migrating_def)
  then have "set (concat os) = {}"
    by (metis equals0I length_pos_if_in_set less_numeral_extra(3) list.size(3) set_concat_nth)
  with assms show False by (simp add: migrating_def tab_rep_def)
qed

lemma migrating_move:
  assumes mig: "migrating hs m ns os" and mp: "migrate_pos m < length os"
    and b: "os ! migrate_pos m = a # post"
  shows "\<exists>hs1 t1 hs2 t2 ns2. h_detach hs (older m) (Bucket (migrate_pos m)) = Some (hs1, t1, a) \<and>
      h_insert hs1 (newer m) a = Some (hs2, t2) \<and>
      migrating hs2 (m\<lparr>older := t1, newer := t2\<rparr>) ns2 (os[migrate_pos m := post]) \<and>
      mset (concat ns2) = add_mset a (mset (concat ns)) \<and>
      mset (concat os) = add_mset a (mset (concat (os[migrate_pos m := post]))) \<and>
      rehung (set (concat ns @ concat os)) hs hs2 \<and> tab_mask t1 = tab_mask (older m) \<and> tab_mask t2 = tab_mask (newer m)"
proof -
  let ?mp = "migrate_pos m" and ?os = "os[migrate_pos m := post]"
  have reps: "tab_rep hs (newer m) ns" "tab_rep hs (older m) os"
    and dist: "distinct (concat ns @ concat os)"
    using mig by (auto simp: migrating_def)
  obtain hs1 t1 where d: "h_detach hs (older m) (Bucket ?mp) = Some (hs1, t1, a)"
    "tab_mask t1 = tab_mask (older m)" "tab_rep hs1 t1 ?os" "rehung (set (concat os) - {a}) hs hs1"
    using h_detach_rep [OF reps(2) _ mp, of "[]" a post "Bucket ?mp"] dist b by auto
  have mo: "mset (concat os) = add_mset a (mset (concat ?os))"
    using mset_concat_update [OF mp, of post] b by simp
  have a: "a \<in> set (concat os)" "a \<notin> set (concat ns)"
    using mp b dist by (force simp: set_concat_nth simp del: set_concat)+
  obtain n where n: "hs1 a = Some n"
    using tab_rep_concat_alloc [OF reps(2) a(1)] rehung_outside [OF d(4), of a] by auto
  have new: "tab_rep hs1 (newer m) ns"
    using dist by (intro tab_rep_frame [OF d(4) _ reps(1)]) auto
  define ns2 where "ns2 = ns[unat (hcode n) AND tab_mask (newer m) := a # ns ! (unat (hcode n) AND tab_mask (newer m))]"
  obtain hs2 t2 where i: "h_insert hs1 (newer m) a = Some (hs2, t2)" "tab_mask t2 = tab_mask (newer m)"
    "tab_rep hs2 t2 ns2" "rehung {a} hs1 hs2"
    using h_insert_rep [OF new n a(2)] by (auto simp: ns2_def)
  have mn: "mset (concat ns2) = add_mset a (mset (concat ns))"
    using mset_concat_update [of _ ns "a # ns ! _"] tab_rep_pos [OF new]
    by (metis add_mset_add_single mset.simps(2) ns2_def add_right_cancel union_mset_add_mset_left union_mset_add_mset_right)
  have "distinct (concat ns2 @ concat ?os) = distinct (concat ns @ concat os)"
    by (rule mset_eq_imp_distinct_iff) (simp add: mn mo)
  then have dist2: "distinct (concat ns2 @ concat ?os)" using dist by simp
  have "a \<in> set (concat ns2)" using mn by (metis set_mset_mset insert_iff set_mset_add_mset_insert)
  then have "tab_rep hs2 t1 ?os"
    using dist2 by (intro tab_rep_frame [OF i(4) _ d(3)]) auto
  then have "migrating hs2 (m\<lparr>older := t1, newer := t2\<rparr>) ns2 ?os"
    using mig dist2 i(3) mp by (auto simp: migrating_def nth_list_update)
  moreover have "rehung (set (concat ns @ concat os)) hs hs2"
  proof (rule rehung_trans)
    show "rehung (set (concat ns @ concat os)) hs hs1" by (rule rehung_mono [OF d(4)]) auto
    show "rehung (set (concat ns @ concat os)) hs1 hs2" using a(1) by (intro rehung_mono [OF i(4)]) auto
  qed
  ultimately show ?thesis using d(1,2) i(1,2) mn mo by blast
qed

lemma hm_help_loop_rep:
  assumes "migrating hs m ns os"
  shows "\<exists>hs' m' ns' os'. hm_help_loop hs m w = Some (hs', m') \<and> migrating hs' m' ns' os' \<and>
      mset (concat ns' @ concat os') = mset (concat ns @ concat os) \<and>
      length (concat os') = length (concat os) - (k_rehashing_work - w) \<and>
      rehung (set (concat ns @ concat os)) hs hs' \<and>
      tab_mask (newer m') = tab_mask (newer m) \<and> tab (older m') \<noteq> None"
  using assms
proof (induction "length (concat os) + (length os - migrate_pos m)" arbitrary: hs m ns os w
    rule: less_induct)
  case less
  let ?mp = "migrate_pos m"
  have rep: "tab_rep hs (older m) os" using less.prems by (simp add: migrating_def)
  then have size: "tab_size (older m) = length (concat os)" by (simp add: tab_rep_def)
  obtain tb where tb: "tab (older m) = Some tb" "length tb = length os"
    "\<And>i. i < length os \<Longrightarrow> chain hs (tb ! i) (os ! i)"
    using rep by (rule tab_repD) blast
  show ?case
  proof (cases "w < k_rehashing_work \<and> tab_size (older m) > 0")
    case False
    then have "hm_help_loop hs m w = Some (hs, m)"
      by (simp only: hm_help_loop.simps [of hs m w] False if_False)
    moreover have "length (concat os) = length (concat os) - (k_rehashing_work - w)"
      using False unfolding size [symmetric] by (cases "w < k_rehashing_work") simp_all
    ultimately show ?thesis
      using less.prems tb(1) by (metis option.distinct(1) rehung_refl)
  next
    case True
    then have mp: "?mp < length os" using migrating_pos less.prems by blast
    show ?thesis
    proof (cases "os ! ?mp")
      case Nil
      let ?m = "m\<lparr>migrate_pos := ?mp + 1\<rparr>"
      have "migrating hs ?m ns os"
        using less.prems Nil by (auto simp: migrating_def less_Suc_eq)
      from less.hyps [OF _ this] mp have
        "\<exists>hs' m' ns' os'. hm_help_loop hs ?m w = Some (hs', m') \<and> migrating hs' m' ns' os' \<and>
          mset (concat ns' @ concat os') = mset (concat ns @ concat os) \<and>
          length (concat os') = length (concat os) - (k_rehashing_work - w) \<and>
          rehung (set (concat ns @ concat os)) hs hs' \<and>
          tab_mask (newer m') = tab_mask (newer m) \<and> tab (older m') \<noteq> None"
        by simp
      moreover have "hm_help_loop hs m w = hm_help_loop hs ?m w"
        using True tb mp Nil tb(3) [OF mp] by (subst hm_help_loop.simps) simp
      ultimately show ?thesis by simp
    next
      case (Cons a post)
      obtain hs1 t1 hs2 t2 ns2 where mv:
        "h_detach hs (older m) (Bucket ?mp) = Some (hs1, t1, a)"
        "h_insert hs1 (newer m) a = Some (hs2, t2)"
        "migrating hs2 (m\<lparr>older := t1, newer := t2\<rparr>) ns2 (os[?mp := post])"
        "mset (concat ns2) = add_mset a (mset (concat ns))"
        "mset (concat os) = add_mset a (mset (concat (os[?mp := post])))"
        "rehung (set (concat ns @ concat os)) hs hs2" "tab_mask t2 = tab_mask (newer m)"
        using migrating_move [OF less.prems mp Cons] by blast
      let ?m = "m\<lparr>older := t1, newer := t2\<rparr>" and ?os = "os[?mp := post]"
      have len: "length (concat os) = length (concat ?os) + 1"
        using mv(5) by (metis size_mset size_add_mset Suc_eq_plus1)
      have st: "set (concat ns2 @ concat ?os) = set (concat ns @ concat os)"
        and ms: "mset (concat ns2 @ concat ?os) = mset (concat ns @ concat os)"
        using mv(4,5) by (simp_all flip: set_mset_mset)
      from less.hyps [OF _ mv(3), of "w + 1"] mp len obtain hs' m' ns' os' where ih:
        "hm_help_loop hs2 ?m (w + 1) = Some (hs', m')" "migrating hs' m' ns' os'"
        "mset (concat ns' @ concat os') = mset (concat ns2 @ concat ?os)"
        "length (concat os') = length (concat ?os) - (k_rehashing_work - (w + 1))"
        "rehung (set (concat ns2 @ concat ?os)) hs2 hs'"
        "tab_mask (newer m') = tab_mask (newer ?m)" "tab (older m') \<noteq> None"
        by force
      have "hm_help_loop hs m w = Some (hs', m')"
        using True tb mp Cons tb(3) [OF mp] mv(1,2) ih(1) by (subst hm_help_loop.simps) simp
      moreover have "rehung (set (concat ns @ concat os)) hs hs'"
        using rehung_trans [OF mv(6)] ih(5) st by simp
      ultimately show ?thesis using ih ms len mv(7) True by fastforce
    qed
  qed
qed

text \<open>
  A whole map, by the state of its two tables: not used yet, one table, or two tables of
  which the older is being migrated.
\<close>

definition hm_rep :: "hstore \<Rightarrow> hmap \<Rightarrow> addr list list \<Rightarrow> addr list list \<Rightarrow> bool" where
  "hm_rep hs m ns os \<longleftrightarrow>
     (if tab (newer m) = None
      then newer m = htab_empty \<and> older m = htab_empty \<and> ns = [] \<and> os = []
      else if tab (older m) = None
      then older m = htab_empty \<and> os = [] \<and> tab_rep hs (newer m) ns \<and> distinct (concat ns)
      else migrating hs m ns os)"

text \<open>The invariant clients rely on: the map is well formed and its nodes are \<open>A\<close>.\<close>

definition hm_inv :: "hstore \<Rightarrow> hmap \<Rightarrow> addr set \<Rightarrow> bool" where
  "hm_inv hs m A \<longleftrightarrow> (\<exists>ns os. hm_rep hs m ns os \<and> A = set (concat ns @ concat os))"

lemma hm_invE:
  assumes "hm_inv hs m A"
  obtains ns os where "hm_rep hs m ns os" "A = set (concat ns @ concat os)"
  using assms unfolding hm_inv_def by blast

lemma hm_invI: "hm_rep hs m ns os \<Longrightarrow> set (concat ns @ concat os) = A \<Longrightarrow> hm_inv hs m A"
  by (auto simp: hm_inv_def)

lemma hm_rep_distinct: "hm_rep hs m ns os \<Longrightarrow> distinct (concat ns @ concat os)"
  by (auto simp: hm_rep_def migrating_def split: if_splits)

lemma hm_rep_alloc: "hm_rep hs m ns os \<Longrightarrow> a \<in> set (concat ns @ concat os) \<Longrightarrow> \<exists>n. hs a = Some n"
  using tab_rep_concat_alloc unfolding hm_rep_def migrating_def
  by (auto simp del: set_concat split: if_splits)

lemma hm_inv_empty [simp]: "hm_inv hs hmap_empty {}"
  by (auto simp: hm_inv_def hm_rep_def hmap_empty_def htab_empty_def)

lemma hm_inv_finite: "hm_inv hs m A \<Longrightarrow> finite A"
  by (auto simp: hm_inv_def)

lemma hm_inv_alloc: "hm_inv hs m A \<Longrightarrow> a \<in> A \<Longrightarrow> \<exists>n. hs a = Some n"
  using hm_rep_alloc by (auto elim!: hm_invE)

lemma htab_rep_size: "tab_rep hs t bss \<Longrightarrow> tab_size t = length (concat bss)"
  by (simp add: tab_rep_def)

lemma hm_size_card: "hm_inv hs m A \<Longrightarrow> hm_size m = card A"
proof (erule hm_invE)
  fix ns os assume rep: "hm_rep hs m ns os" and A: "A = set (concat ns @ concat os)"
  have "card A = length (concat ns) + length (concat os)"
    using distinct_card [OF hm_rep_distinct [OF rep]] A by simp
  moreover have "hm_size m = length (concat ns) + length (concat os)"
    using rep htab_rep_size unfolding hm_size_def hm_rep_def migrating_def
    by (auto simp: htab_empty_def split: if_splits)
  ultimately show ?thesis by simp
qed

text \<open>
  A step of the migration keeps the nodes and moves up to \<open>k_rehashing_work\<close> of them; the old
  array is given up as soon as it is empty.
\<close>

lemma hm_help_rehashing_rep:
  assumes rep: "hm_rep hs m ns os"
  shows "\<exists>hs' m' ns' os'. hm_help_rehashing hs m = Some (hs', m') \<and> hm_rep hs' m' ns' os' \<and>
      mset (concat ns' @ concat os') = mset (concat ns @ concat os) \<and>
      length (concat os') = length (concat os) - k_rehashing_work \<and>
      (tab (older m') = None \<longleftrightarrow> concat os' = []) \<and>
      rehung (set (concat ns @ concat os)) hs hs' \<and> tab_mask (newer m') = tab_mask (newer m)"
proof (cases "tab (older m) = None")
  case True
  then have "older m = htab_empty" "os = []"
    using rep by (auto simp: hm_rep_def split: if_splits)
  then have "hm_help_loop hs m 0 = Some (hs, m)"
    by (simp add: hm_help_loop.simps [of hs m 0] htab_empty_def)
  then have "hm_help_rehashing hs m = Some (hs, m)"
    using True by (simp add: hm_help_rehashing_def)
  then show ?thesis using rep True \<open>os = []\<close>
    by (intro exI [of _ hs] exI [of _ m] exI [of _ ns] exI [of _ "[]"]) simp
next
  case False
  then have mig: "migrating hs m ns os"
    using rep by (auto simp: hm_rep_def htab_empty_def split: if_splits)
  from hm_help_loop_rep [OF mig, of 0] obtain hs' m' ns' os' where l:
    "hm_help_loop hs m 0 = Some (hs', m')" "migrating hs' m' ns' os'"
    "mset (concat ns' @ concat os') = mset (concat ns @ concat os)"
    "length (concat os') = length (concat os) - k_rehashing_work"
    "rehung (set (concat ns @ concat os)) hs hs'"
    "tab_mask (newer m') = tab_mask (newer m)" "tab (older m') \<noteq> None"
    by auto
  have sz: "tab_size (older m') = length (concat os')" and nt: "tab (newer m') \<noteq> None"
    using l(2) by (auto simp: migrating_def tab_rep_def)
  show ?thesis
  proof (cases "concat os' = []")
    case True
    let ?m = "m'\<lparr>older := htab_empty\<rparr>"
    have "hm_rep hs' ?m ns' []"
      using l(2) nt by (auto simp: hm_rep_def htab_empty_def migrating_def)
    moreover have "hm_help_rehashing hs m = Some (hs', ?m)"
      using l(1,7) sz True by (simp add: hm_help_rehashing_def)
    moreover have "tab (older ?m) = None" by (simp add: htab_empty_def)
    ultimately show ?thesis using l(3-6) True
      by (intro exI [of _ hs'] exI [of _ ?m] exI [of _ ns'] exI [of _ "[]"]) simp
  next
    case False
    then have "hm_rep hs' m' ns' os'" using l(2,7) nt by (auto simp: hm_rep_def)
    moreover have "hm_help_rehashing hs m = Some (hs', m')"
      using l(1) sz False by (auto simp: hm_help_rehashing_def)
    moreover have "tab (older m') = None \<longleftrightarrow> concat os' = []" using l(7) False by auto
    ultimately show ?thesis using l(3-6) by metis
  qed
qed

section \<open>Lookup, insertion, deletion, iteration\<close>

text \<open>A search of one table finds the slot of the first matching node of the key's bucket.\<close>

lemma h_lookup_rep:
  assumes rep: "tab_rep hs t bss" and eqd: "eq_defined hs hc eq (set (concat bss))"
  defines "pos \<equiv> unat hc AND tab_mask t"
  shows "h_lookup hs t hc eq = Some (slot_of (hmatch hs hc eq) (Bucket pos) (bss ! pos))"
proof -
  have pos: "pos < length bss" using rep by (simp add: pos_def tab_rep_pos)
  obtain tb where tb: "tab t = Some tb" "length tb = length bss"
    "\<And>i. i < length bss \<Longrightarrow> chain hs (tb ! i) (bss ! i)"
    using rep by (rule tab_repD) blast
  have "eq_defined hs hc eq (set (bss ! pos))"
    by (intro eq_defined_mono [OF eqd] subsetI in_concat_nthI [OF pos])
  then have "h_walk hs t hc eq (Bucket pos) = Some (slot_of (hmatch hs hc eq) (Bucket pos) (bss ! pos))"
    using tb pos by (intro h_walk_slot_of) auto
  then show ?thesis using tb(1) by (simp add: h_lookup_def pos_def)
qed

lemma hmatch_bucket:
  assumes "tab_rep hs t bss" and "a \<in> set (concat bss)" and "hmatch hs hc eq a"
  shows "a \<in> set (bss ! (unat hc AND tab_mask t))"
proof -
  obtain i where i: "i < length bss" "a \<in> set (bss ! i)"
    using assms(2) unfolding set_concat_nth by blast
  obtain n where "hs a = Some n" "hcode n = hc"
    using assms(3) by (auto simp: hmatch_def)
  then have "unat hc AND tab_mask t = i"
    using assms(1) i unfolding tab_rep_def by blast
  with i show ?thesis by simp
qed

lemma h_lookup_None:
  assumes rep: "tab_rep hs t bss" and eqd: "eq_defined hs hc eq (set (concat bss))"
    and none: "\<And>a. a \<in> set (concat bss) \<Longrightarrow> \<not> hmatch hs hc eq a"
  shows "h_lookup hs t hc eq = Some None"
proof -
  have "\<not> hmatch hs hc eq a" if "a \<in> set (bss ! (unat hc AND tab_mask t))" for a
    using that none tab_rep_pos [OF rep] by (auto simp: set_concat_nth simp del: set_concat)
  then show ?thesis using h_lookup_rep [OF rep eqd] by (simp add: slot_of_None)
qed

lemma h_lookup_Some:
  assumes rep: "tab_rep hs t bss" and eqd: "eq_defined hs hc eq (set (concat bss))"
    and a: "a \<in> set (concat bss)" "hmatch hs hc eq a"
    and uniq: "\<And>b. b \<in> set (concat bss) \<Longrightarrow> hmatch hs hc eq b \<Longrightarrow> b = a"
  shows "\<exists>pre post i sl. h_lookup hs t hc eq = Some (Some sl) \<and> i < length bss \<and>
      bss ! i = pre @ a # post \<and> sl = (if pre = [] then Bucket i else NextOf (last pre)) \<and>
      read_slot hs t sl = Some (Some a)"
proof -
  let ?i = "unat hc AND tab_mask t"
  have i: "?i < length bss" by (rule tab_rep_pos [OF rep])
  have "slot_of (hmatch hs hc eq) (Bucket ?i) (bss ! ?i) \<noteq> None"
    using hmatch_bucket [OF rep a] a(2) by (auto simp: slot_of_None)
  then obtain sl where sl: "slot_of (hmatch hs hc eq) (Bucket ?i) (bss ! ?i) = Some sl" by auto
  from slot_of_SomeD [OF this] obtain pre b post where
    b: "bss ! ?i = pre @ b # post" "hmatch hs hc eq b"
      "sl = (if pre = [] then Bucket ?i else NextOf (last pre))"
    by blast
  have "b = a" using b by (intro uniq in_concat_nthI [OF i]) auto
  obtain tb where tb: "tab t = Some tb" "length tb = length bss"
    "\<And>i. i < length bss \<Longrightarrow> chain hs (tb ! i) (bss ! i)"
    using rep by (rule tab_repD) blast
  have ch: "chain hs (tb ! ?i) (pre @ a # post)" using tb(3) [OF i] b(1) \<open>b = a\<close> by simp
  have "read_slot hs t sl = Some (Some a)"
  proof (cases "pre = []")
    case True
    then show ?thesis using b(3) ch tb(1,2) i by simp
  next
    case False
    then show ?thesis using b(3) chain_mid [OF ch] by auto
  qed
  then show ?thesis using b \<open>b = a\<close> i sl h_lookup_rep [OF rep eqd] by auto
qed

text \<open>What a client may assume of the key it searches for: at most one node matches.\<close>

definition unique_match :: "hstore \<Rightarrow> u64 \<Rightarrow> (addr \<Rightarrow> bool option) \<Rightarrow> addr set \<Rightarrow> bool" where
  "unique_match hs hc eq A \<longleftrightarrow> eq_defined hs hc eq A \<and>
     (\<forall>a \<in> A. \<forall>b \<in> A. hmatch hs hc eq a \<longrightarrow> hmatch hs hc eq b \<longrightarrow> a = b)"

text \<open>The node a search returns, if any.\<close>

definition finds :: "hstore \<Rightarrow> u64 \<Rightarrow> (addr \<Rightarrow> bool option) \<Rightarrow> addr set \<Rightarrow> ptr \<Rightarrow> bool" where
  "finds hs hc eq A r \<longleftrightarrow>
     (case r of None \<Rightarrow> \<forall>a \<in> A. \<not> hmatch hs hc eq a
      | Some a \<Rightarrow> a \<in> A \<and> hmatch hs hc eq a)"

lemma finds_rehung: "rehung B hs hs' \<Longrightarrow> finds hs' hc eq A r = finds hs hc eq A r"
  by (simp add: finds_def rehung_hmatch split: option.split)

lemma unique_match_rehung: "rehung B hs hs' \<Longrightarrow> unique_match hs' hc eq A = unique_match hs hc eq A"
  by (simp add: unique_match_def rehung_hmatch rehung_eq_defined)

text \<open>
  Where a search finds its node: the newer table is searched first, then the older one, and
  each search is exactly the test for a matching node in that table.
\<close>

lemma hm_search:
  assumes rep: "hm_rep hs m ns os" and um: "unique_match hs hc eq (set (concat ns @ concat os))"
  obtains (newer) a pre post i sl where
      "h_lookup hs (newer m) hc eq = Some (Some sl)" "tab_rep hs (newer m) ns" "i < length ns"
      "ns ! i = pre @ a # post" "sl = (if pre = [] then Bucket i else NextOf (last pre))"
      "read_slot hs (newer m) sl = Some (Some a)" "hmatch hs hc eq a" "a \<in> set (concat ns)"
  | (older) a pre post i sl where
      "h_lookup hs (newer m) hc eq = Some None" "h_lookup hs (older m) hc eq = Some (Some sl)"
      "migrating hs m ns os" "tab (newer m) \<noteq> None" "tab (older m) \<noteq> None" "i < length os"
      "os ! i = pre @ a # post" "sl = (if pre = [] then Bucket i else NextOf (last pre))"
      "read_slot hs (older m) sl = Some (Some a)" "hmatch hs hc eq a" "a \<in> set (concat os)"
  | (none) "h_lookup hs (newer m) hc eq = Some None" "h_lookup hs (older m) hc eq = Some None"
      "\<forall>a \<in> set (concat ns @ concat os). \<not> hmatch hs hc eq a"
proof -
  have eqn: "eq_defined hs hc eq (set (concat ns))" and eqo: "eq_defined hs hc eq (set (concat os))"
    using um by (auto simp: unique_match_def intro: eq_defined_mono)
  have uniq: "b = a" if "a \<in> set (concat ns @ concat os)" "b \<in> set (concat ns @ concat os)"
    "hmatch hs hc eq a" "hmatch hs hc eq b" for a b
    using um that unfolding unique_match_def by blast
  have newer_none: "h_lookup hs (newer m) hc eq = Some None"
    if "\<And>a. a \<in> set (concat ns) \<Longrightarrow> \<not> hmatch hs hc eq a"
  proof (cases "tab (newer m) = None")
    case True
    then show ?thesis by (simp add: h_lookup_def)
  next
    case False
    then have "tab_rep hs (newer m) ns" using rep by (auto simp: hm_rep_def migrating_def split: if_splits)
    then show ?thesis using that by (intro h_lookup_None [OF _ eqn])
  qed
  consider (n) a where "a \<in> set (concat ns)" "hmatch hs hc eq a"
    | (o) a where "a \<in> set (concat os)" "hmatch hs hc eq a" "\<And>b. b \<in> set (concat ns) \<Longrightarrow> \<not> hmatch hs hc eq b"
    | (x) "\<And>a. a \<in> set (concat ns @ concat os) \<Longrightarrow> \<not> hmatch hs hc eq a"
    by (metis UnE set_append)
  then show thesis
  proof cases
    case n
    then have "tab (newer m) \<noteq> None" using rep by (auto simp: hm_rep_def split: if_splits)
    then have trep: "tab_rep hs (newer m) ns" using rep by (auto simp: hm_rep_def migrating_def split: if_splits)
    from h_lookup_Some [OF trep eqn n] uniq n obtain pre post i sl where
      "h_lookup hs (newer m) hc eq = Some (Some sl)" "i < length ns" "ns ! i = pre @ a # post"
      "sl = (if pre = [] then Bucket i else NextOf (last pre))"
      "read_slot hs (newer m) sl = Some (Some a)"
      by (metis UnCI set_append)
    with trep n show thesis by (intro newer)
  next
    case o
    then have ne: "tab (newer m) \<noteq> None" "tab (older m) \<noteq> None" and mig: "migrating hs m ns os"
      using rep by (auto simp: hm_rep_def split: if_splits)
    then have trep: "tab_rep hs (older m) os" by (simp add: migrating_def)
    from h_lookup_Some [OF trep eqo o(1,2)] uniq o obtain pre post i sl where
      "h_lookup hs (older m) hc eq = Some (Some sl)" "i < length os" "os ! i = pre @ a # post"
      "sl = (if pre = [] then Bucket i else NextOf (last pre))"
      "read_slot hs (older m) sl = Some (Some a)"
      by (metis UnCI set_append)
    with mig ne o newer_none show thesis by (intro older) auto
  next
    case x
    have "h_lookup hs (older m) hc eq = Some None"
    proof (cases "tab (older m) = None")
      case True
      then show ?thesis by (simp add: h_lookup_def)
    next
      case False
      then have "tab_rep hs (older m) os"
        using rep by (auto simp: hm_rep_def migrating_def htab_empty_def split: if_splits)
      then show ?thesis using x by (intro h_lookup_None [OF _ eqo]) auto
    qed
    then show thesis using x newer_none by (intro none) auto
  qed
qed

lemma hm_help_inv:
  assumes inv: "hm_inv hs m A"
  shows "\<exists>hs' m' ns os. hm_help_rehashing hs m = Some (hs', m') \<and> hm_rep hs' m' ns os \<and>
      set (concat ns @ concat os) = A \<and> rehung A hs hs'"
proof -
  obtain ns os where rep: "hm_rep hs m ns os" and A: "A = set (concat ns @ concat os)"
    using inv by (rule hm_invE)
  from hm_help_rehashing_rep [OF rep] obtain hs1 m1 ns1 os1 where h:
    "hm_help_rehashing hs m = Some (hs1, m1)" "hm_rep hs1 m1 ns1 os1"
    "mset (concat ns1 @ concat os1) = mset (concat ns @ concat os)"
    "rehung (set (concat ns @ concat os)) hs hs1"
    by blast
  then show ?thesis using A by (metis mset_eq_setD)
qed

lemma hm_lookup_inv:
  assumes inv: "hm_inv hs m A" and um: "unique_match hs hc eq A"
  shows "\<exists>hs' m' r. hm_lookup hs m hc eq = Some (hs', m', r) \<and> hm_inv hs' m' A \<and>
      rehung A hs hs' \<and> finds hs hc eq A r"
proof -
  obtain hs1 m1 ns1 os1 where h: "hm_help_rehashing hs m = Some (hs1, m1)" "hm_rep hs1 m1 ns1 os1"
    and A1: "set (concat ns1 @ concat os1) = A" and re: "rehung A hs hs1"
    using hm_help_inv [OF inv] by blast
  have um1: "unique_match hs1 hc eq (set (concat ns1 @ concat os1))"
    using um unique_match_rehung [OF re] A1 by simp
  have inv1: "hm_inv hs1 m1 A" using h(2) A1 by (rule hm_invI)
  have "\<exists>r. hm_lookup hs m hc eq = Some (hs1, m1, r) \<and> finds hs1 hc eq A r"
    using h(2) um1
  proof (cases rule: hm_search)
    case (newer a pre post i sl)
    then show ?thesis using h(1) A1 by (auto simp: hm_lookup_def finds_def)
  next
    case (older a pre post i sl)
    then show ?thesis using h(1) A1 by (auto simp: hm_lookup_def finds_def)
  next
    case none
    then show ?thesis using h(1) A1 by (auto simp: hm_lookup_def finds_def)
  qed
  then show ?thesis using inv1 re finds_rehung [OF re] by blast
qed

text \<open>Taking a node off the newer or the older table of a map.\<close>

lemma mset_remove_mid:
  "i < length xss \<Longrightarrow> xss ! i = pre @ a # post \<Longrightarrow>
   mset (concat xss) = add_mset a (mset (concat (xss[i := pre @ post])))"
  using mset_concat_update [of i xss "pre @ post"] by simp

lemma distinct_mset_remove:
  assumes "distinct xs" and "mset xs = add_mset a (mset ys)"
  shows "distinct ys" and "set ys = set xs - {a}"
proof -
  have "mset xs = mset (a # ys)" using assms(2) by simp
  then have "distinct (a # ys)" and "set xs = set (a # ys)"
    using assms(1) mset_eq_imp_distinct_iff mset_eq_setD by blast+
  then show "distinct ys" and "set ys = set xs - {a}" by auto
qed

lemma hm_detach_newer:
  assumes rep: "hm_rep hs m ns os" and trep: "tab_rep hs (newer m) ns"
    and b: "i < length ns" "ns ! i = pre @ a # post" "sl = (if pre = [] then Bucket i else NextOf (last pre))"
  shows "\<exists>hs' t'. h_detach hs (newer m) sl = Some (hs', t', a) \<and>
      hm_inv hs' (m\<lparr>newer := t'\<rparr>) (set (concat ns @ concat os) - {a}) \<and>
      rehung (set (concat ns @ concat os)) hs hs'"
proof -
  have dist: "distinct (concat ns @ concat os)" by (rule hm_rep_distinct [OF rep])
  let ?ns = "ns[i := pre @ post]"
  obtain hs2 t2 where d: "h_detach hs (newer m) sl = Some (hs2, t2, a)" "tab_rep hs2 t2 ?ns"
    "rehung (set (concat ns) - {a}) hs hs2"
    using h_detach_rep [OF trep _ b] dist by auto
  have ms: "mset (concat ns @ concat os) = add_mset a (mset (concat ?ns @ concat os))"
    using mset_remove_mid [OF b(1,2)] by simp
  note d' = distinct_mset_remove [OF dist ms]
  have old: "tab_rep hs2 (older m) os" if "tab_rep hs (older m) os"
    using dist by (intro tab_rep_frame [OF d(3) _ that]) auto
  have "tab t2 \<noteq> None" "tab (newer m) \<noteq> None" using d(2) trep by (auto simp: tab_rep_def)
  then have "hm_rep hs2 (m\<lparr>newer := t2\<rparr>) ?ns os"
    using rep d(2) old d'(1) by (auto simp: hm_rep_def migrating_def split: if_splits)
  then have "hm_inv hs2 (m\<lparr>newer := t2\<rparr>) (set (concat ns @ concat os) - {a})"
    using d'(2) by (rule hm_invI)
  moreover have "rehung (set (concat ns @ concat os)) hs hs2"
    by (intro rehung_mono [OF d(3)]) auto
  ultimately show ?thesis using d(1) by blast
qed

lemma hm_detach_older:
  assumes mig: "migrating hs m ns os" and ne: "tab (newer m) \<noteq> None"
    and b: "i < length os" "os ! i = pre @ a # post" "sl = (if pre = [] then Bucket i else NextOf (last pre))"
  shows "\<exists>hs' t'. h_detach hs (older m) sl = Some (hs', t', a) \<and>
      hm_inv hs' (m\<lparr>older := t'\<rparr>) (set (concat ns @ concat os) - {a}) \<and>
      rehung (set (concat ns @ concat os)) hs hs'"
proof -
  have reps: "tab_rep hs (newer m) ns" "tab_rep hs (older m) os"
    and dist: "distinct (concat ns @ concat os)"
    using mig by (auto simp: migrating_def)
  let ?os = "os[i := pre @ post]"
  obtain hs2 t2 where d: "h_detach hs (older m) sl = Some (hs2, t2, a)" "tab_rep hs2 t2 ?os"
    "rehung (set (concat os) - {a}) hs hs2"
    using h_detach_rep [OF reps(2) _ b] dist by auto
  have ms: "mset (concat ns @ concat os) = add_mset a (mset (concat ns @ concat ?os))"
    using mset_remove_mid [OF b(1,2)] by simp
  note d' = distinct_mset_remove [OF dist ms]
  have new: "tab_rep hs2 (newer m) ns"
    using dist by (intro tab_rep_frame [OF d(3) _ reps(1)]) auto
  have "\<forall>j < length ?os. j < migrate_pos m \<longrightarrow> ?os ! j = []"
    using mig b(1,2) by (auto simp: migrating_def nth_list_update)
  then have "migrating hs2 (m\<lparr>older := t2\<rparr>) ns ?os"
    using new d(2) d'(1) by (simp add: migrating_def)
  then have "hm_rep hs2 (m\<lparr>older := t2\<rparr>) ns ?os"
    using ne d(2) by (auto simp: hm_rep_def tab_rep_def)
  then have "hm_inv hs2 (m\<lparr>older := t2\<rparr>) (set (concat ns @ concat os) - {a})"
    using d'(2) by (rule hm_invI)
  moreover have "rehung (set (concat ns @ concat os)) hs hs2"
    by (intro rehung_mono [OF d(3)]) auto
  ultimately show ?thesis using d(1) by blast
qed

lemma hm_delete_inv:
  assumes inv: "hm_inv hs m A" and um: "unique_match hs hc eq A"
  shows "\<exists>hs' m' r. hm_delete hs m hc eq = Some (hs', m', r) \<and>
      hm_inv hs' m' (A - set_option r) \<and> rehung A hs hs' \<and> finds hs hc eq A r"
proof -
  obtain hs1 m1 ns1 os1 where h: "hm_help_rehashing hs m = Some (hs1, m1)" "hm_rep hs1 m1 ns1 os1"
    and A1: "set (concat ns1 @ concat os1) = A" and re: "rehung A hs hs1"
    using hm_help_inv [OF inv] by blast
  have um1: "unique_match hs1 hc eq (set (concat ns1 @ concat os1))"
    using um unique_match_rehung [OF re] A1 by simp
  have "\<exists>hs' m' r. hm_delete hs m hc eq = Some (hs', m', r) \<and> hm_inv hs' m' (A - set_option r) \<and>
      rehung A hs1 hs' \<and> finds hs1 hc eq A r"
    using h(2) um1
  proof (cases rule: hm_search)
    case (newer a pre post i sl)
    then obtain hs2 t2 where "h_detach hs1 (newer m1) sl = Some (hs2, t2, a)"
      "hm_inv hs2 (m1\<lparr>newer := t2\<rparr>) (A - {a})" "rehung A hs1 hs2"
      using hm_detach_newer [OF h(2) newer(2-5)] A1 by auto
    then show ?thesis using newer h(1) A1 by (auto simp: hm_delete_def finds_def)
  next
    case (older a pre post i sl)
    then obtain hs2 t2 where "h_detach hs1 (older m1) sl = Some (hs2, t2, a)"
      "hm_inv hs2 (m1\<lparr>older := t2\<rparr>) (A - {a})" "rehung A hs1 hs2"
      using hm_detach_older [OF older(3,4,6-8)] A1 by auto
    then show ?thesis using older h(1) A1 by (auto simp: hm_delete_def finds_def)
  next
    case none
    have "hm_inv hs1 m1 A" using h(2) A1 by (rule hm_invI)
    then show ?thesis using none h(1) A1 by (auto simp: hm_delete_def finds_def)
  qed
  then show ?thesis using re finds_rehung [OF re] rehung_trans [OF re] by blast
qed

text \<open>Insertion: the first use allocates a table, growth starts a migration.\<close>

lemma concat_replicate_Nil [simp]: "concat (replicate n []) = []"
  by (induction n) auto

lemma hm_first_table:
  assumes "hm_rep hs m ns os"
  shows "\<exists>m' ns'. (if tab (newer m) = None then do { t \<leftarrow> h_init 4; Some (m\<lparr>newer := t\<rparr>) } else Some m) = Some m' \<and>
      hm_rep hs m' ns' os \<and> concat ns' = concat ns \<and> tab_rep hs (newer m') ns'"
proof (cases "tab (newer m) = None")
  case True
  have "tab_rep hs (the (h_init 4)) (replicate 4 [])"
    using tab_rep_init [of 2 "the (h_init 4)" hs] by simp
  then show ?thesis using True assms
    by (intro exI [of _ "m\<lparr>newer := the (h_init 4)\<rparr>"] exI [of _ "replicate 4 []"])
      (auto simp: hm_rep_def htab_empty_def)
next
  case False
  then show ?thesis using assms
    by (intro exI [of _ m] exI [of _ ns]) (auto simp: hm_rep_def migrating_def split: if_splits)
qed

lemma hm_put:
  assumes rep: "hm_rep hs m ns os" and trep: "tab_rep hs (newer m) ns"
    and n: "hs a = Some n" and new: "a \<notin> set (concat ns @ concat os)"
  shows "\<exists>hs' t ns'. h_insert hs (newer m) a = Some (hs', t) \<and> hm_rep hs' (m\<lparr>newer := t\<rparr>) ns' os \<and>
      mset (concat ns') = add_mset a (mset (concat ns)) \<and> tab_rep hs' t ns' \<and> rehung {a} hs hs'"
proof -
  define i where "i = unat (hcode n) AND tab_mask (newer m)"
  let ?ns = "ns[i := a # ns ! i]"
  have i: "i < length ns" unfolding i_def by (rule tab_rep_pos [OF trep])
  obtain hs1 t1 where ins: "h_insert hs (newer m) a = Some (hs1, t1)" "tab_rep hs1 t1 ?ns" "rehung {a} hs hs1"
    using h_insert_rep [OF trep n] new unfolding i_def by auto
  have ms: "mset (concat ?ns) = add_mset a (mset (concat ns))"
    using mset_concat_update [OF i, of "a # ns ! i"] by simp
  have "distinct (a # concat ns @ concat os)" using new hm_rep_distinct [OF rep] by simp
  then have dist: "distinct (concat ?ns @ concat os)"
    using ms mset_eq_imp_distinct_iff [of "concat ?ns @ concat os" "a # concat ns @ concat os"] by simp
  have old: "tab_rep hs1 (older m) os" if "tab_rep hs (older m) os"
    using new by (intro tab_rep_frame [OF ins(3) _ that]) auto
  have "tab t1 \<noteq> None" "tab (newer m) \<noteq> None" using ins(2) trep by (auto simp: tab_rep_def)
  then have "hm_rep hs1 (m\<lparr>newer := t1\<rparr>) ?ns os"
    using rep ins(2) old dist by (auto simp: hm_rep_def migrating_def split: if_splits)
  then show ?thesis using ins ms by blast
qed

lemma hm_trigger_rehashing_rep:
  assumes rep: "tab_rep hs (newer m) ns" and dist: "distinct (concat ns)"
  shows "\<exists>m'. hm_trigger_rehashing m = Some m' \<and> older m' = newer m \<and>
      tab_mask (newer m') + 1 = (tab_mask (newer m) + 1) * 2 \<and>
      hm_rep hs m' (replicate (tab_mask (newer m') + 1) []) ns"
proof -
  obtain k where k: "2 \<le> k" "tab_mask (newer m) + 1 = 2 ^ k"
    using rep by (auto simp: tab_rep_def)
  obtain t where t: "h_init (2 ^ (k + 1)) = Some t" using h_init_pow2 by blast
  have tr: "tab_rep hs t (replicate (2 ^ (k + 1)) [])" and tm: "tab_mask t + 1 = 2 ^ (k + 1)"
    using tab_rep_init [OF t, of hs] k(1) by auto
  have pow: "(tab_mask (newer m) + 1) * 2 = 2 ^ (k + 1)" using k(2) by simp
  define m' where "m' = m\<lparr>older := newer m, newer := t, migrate_pos := 0\<rparr>"
  have "migrating hs m' (replicate (2 ^ (k + 1)) []) ns"
    using rep dist tr by (simp add: migrating_def m'_def)
  moreover have "tab t \<noteq> None" "tab (newer m) \<noteq> None" using tr rep by (auto simp: tab_rep_def)
  ultimately have "hm_rep hs m' (replicate (2 ^ (k + 1)) []) ns"
    by (auto simp: hm_rep_def m'_def)
  moreover have "hm_trigger_rehashing m = Some m'"
  proof -
    have "newer (m\<lparr>older := newer m\<rparr>) = newer m" by simp
    then show ?thesis
      unfolding hm_trigger_rehashing_def Let_def by (simp only: pow t m'_def bind.bind_lunit)
  qed
  ultimately show ?thesis using tm pow unfolding m'_def by (intro exI [of _ m']) (simp add: m'_def)
qed

lemma hm_grow:
  assumes rep: "hm_rep hs m ns os" and trep: "tab_rep hs (newer m) ns"
  shows "\<exists>m' ns' os'. (if tab (older m) = None
        then (let shreshold = (tab_mask (newer m) + 1) * k_max_load_factor
              in if tab_size (newer m) \<ge> shreshold then hm_trigger_rehashing m else Some m)
        else Some m) = Some m' \<and> hm_rep hs m' ns' os' \<and>
      mset (concat ns' @ concat os') = mset (concat ns @ concat os)"
proof (cases "tab (older m) = None \<and> tab_size (newer m) \<ge> (tab_mask (newer m) + 1) * k_max_load_factor")
  case True
  then have "os = []" "distinct (concat ns)"
    using rep hm_rep_distinct [OF rep] by (auto simp: hm_rep_def split: if_splits)
  then show ?thesis
    using hm_trigger_rehashing_rep [OF trep] True by (force simp: Let_def)
next
  case False
  then show ?thesis using rep by (auto simp: Let_def)
qed

lemma hm_insert_steps:
  assumes inv: "hm_inv hs m A" and n: "hs a = Some n" and new: "a \<notin> A"
  obtains m0 hs1 t1 m2 hs3 m3 where
    "(if tab (newer m) = None then do { t \<leftarrow> h_init 4; Some (m\<lparr>newer := t\<rparr>) } else Some m) = Some m0"
    "h_insert hs (newer m0) a = Some (hs1, t1)"
    "(let m1 = m0\<lparr>newer := t1\<rparr> in if tab (older m1) = None
        then (let shreshold = (tab_mask (newer m1) + 1) * k_max_load_factor
              in if tab_size (newer m1) \<ge> shreshold then hm_trigger_rehashing m1 else Some m1)
        else Some m1) = Some m2"
    "hm_inv hs1 m2 (insert a A)" "hm_help_rehashing hs1 m2 = Some (hs3, m3)"
    "hm_insert hs m a = Some (hs3, m3)" "rehung {a} hs hs1"
proof -
  obtain ns os where rep: "hm_rep hs m ns os" and A: "A = set (concat ns @ concat os)"
    using inv by (rule hm_invE)
  obtain m0 ns0 where m0:
    "(if tab (newer m) = None then do { t \<leftarrow> h_init 4; Some (m\<lparr>newer := t\<rparr>) } else Some m) = Some m0"
    "hm_rep hs m0 ns0 os" "concat ns0 = concat ns" "tab_rep hs (newer m0) ns0"
    using hm_first_table [OF rep] by blast
  obtain hs1 t1 ns1 where ins: "h_insert hs (newer m0) a = Some (hs1, t1)"
    "hm_rep hs1 (m0\<lparr>newer := t1\<rparr>) ns1 os" "mset (concat ns1) = add_mset a (mset (concat ns0))"
    "tab_rep hs1 t1 ns1" "rehung {a} hs hs1"
    using hm_put [OF m0(2,4) n] new A m0(3) by (metis set_append)
  obtain m2 ns2 os2 where g: "(let m1 = m0\<lparr>newer := t1\<rparr> in if tab (older m1) = None
        then (let shreshold = (tab_mask (newer m1) + 1) * k_max_load_factor
              in if tab_size (newer m1) \<ge> shreshold then hm_trigger_rehashing m1 else Some m1)
        else Some m1) = Some m2" "hm_rep hs1 m2 ns2 os2"
    "mset (concat ns2 @ concat os2) = mset (concat ns1 @ concat os)"
    using hm_grow [OF ins(2)] ins(4) unfolding Let_def by fastforce
  have "set (concat ns1 @ concat os) = insert a A"
    using ins(3) m0(3) A by (metis Un_insert_left set_append set_mset_add_mset_insert set_mset_mset)
  then have inv2: "hm_inv hs1 m2 (insert a A)"
    using g(3) by (intro hm_invI [OF g(2)]) (metis mset_eq_setD)
  obtain hs3 m3 where h: "hm_help_rehashing hs1 m2 = Some (hs3, m3)"
    using hm_help_inv [OF inv2] by blast
  have "hm_insert hs m a = Some (hs3, m3)"
    using m0(1) ins(1) g(1) h by (simp add: hm_insert_def Let_def)
  with m0(1) ins(1) g(1) inv2 h ins(5) show thesis by (intro that)
qed

lemma hm_insert_inv:
  assumes "hm_inv hs m A" and "hs a = Some n" and "a \<notin> A"
  shows "\<exists>hs' m'. hm_insert hs m a = Some (hs', m') \<and> hm_inv hs' m' (insert a A) \<and>
      rehung (insert a A) hs hs'"
  using assms
proof (rule hm_insert_steps)
  fix hs1 m2 hs3 m3
  assume s: "hm_inv hs1 m2 (insert a A)" "hm_help_rehashing hs1 m2 = Some (hs3, m3)"
    "hm_insert hs m a = Some (hs3, m3)" "rehung {a} hs hs1"
  obtain ns3 os3 where h: "hm_rep hs3 m3 ns3 os3" "set (concat ns3 @ concat os3) = insert a A"
    "rehung (insert a A) hs1 hs3"
    using hm_help_inv [OF s(1)] s(2) by force
  have "rehung (insert a A) hs hs3"
    by (rule rehung_trans [OF rehung_mono [OF s(4)] h(3)]) simp
  with s(3) hm_invI [OF h(1,2)] show ?thesis by blast
qed

text \<open>Iteration is a fold over the nodes, in the order of the buckets.\<close>

fun foreach_list :: "(addr \<Rightarrow> 'a \<Rightarrow> ('a \<times> bool) option) \<Rightarrow> addr list \<Rightarrow> 'a \<Rightarrow> ('a \<times> bool) option" where
  "foreach_list f [] arg = Some (arg, True)"
| "foreach_list f (a # as) arg =
     do { (arg, go) \<leftarrow> f a arg; if go then foreach_list f as arg else Some (arg, False) }"

lemma foreach_list_append:
  "foreach_list f (xs @ ys) arg =
     do { (arg, go) \<leftarrow> foreach_list f xs arg; if go then foreach_list f ys arg else Some (arg, False) }"
  by (induction xs arbitrary: arg) (auto split: bind_splits)

lemma h_foreach_chain_list: "chain hs p xs \<Longrightarrow> h_foreach_chain hs f p arg = foreach_list f xs arg"
proof (induction xs arbitrary: p arg)
  case Nil
  then show ?case by (simp add: h_foreach_chain.simps)
next
  case (Cons a as)
  then obtain n where n: "p = Some a" "hs a = Some n" "chain hs (hnext n) as" by auto
  then show ?case
    using Cons.IH [OF n(3)] by (subst h_foreach_chain.simps) (auto intro!: bind_option_cong)
qed

lemma h_foreach_from_list:
  assumes rep: "tab_rep hs t bss"
  shows "h_foreach_from hs t f i arg = foreach_list f (concat (drop i bss)) arg"
proof (induction "length bss - i" arbitrary: i arg)
  case 0
  then have "\<not> i \<le> tab_mask t" using rep by (auto simp: tab_rep_def)
  then show ?case using 0 by (subst h_foreach_from.simps) simp
next
  case (Suc k)
  obtain tb where tb: "tab t = Some tb" "length tb = length bss"
    "\<And>i. i < length bss \<Longrightarrow> chain hs (tb ! i) (bss ! i)"
    using rep by (rule tab_repD) blast
  have i: "i < length bss" using Suc by simp
  have "tab_mask t \<noteq> 0" using tab_rep_mask [OF rep] by simp
  moreover have "i \<le> tab_mask t" using rep i by (auto simp: tab_rep_def)
  ultimately have "h_foreach_from hs t f i arg =
      do { (arg, go) \<leftarrow> foreach_list f (bss ! i) arg;
           if go then h_foreach_from hs t f (i + 1) arg else Some (arg, False) }"
    using tb i h_foreach_chain_list [OF tb(3) [OF i]]
    by (subst h_foreach_from.simps) (auto intro!: bind_option_cong)
  also have "\<dots> = foreach_list f (bss ! i @ concat (drop (i + 1) bss)) arg"
    using Suc by (auto simp: foreach_list_append intro!: bind_option_cong)
  also have "bss ! i @ concat (drop (i + 1) bss) = concat (drop i bss)"
    using i by (metis Cons_nth_drop_Suc Suc_eq_plus1 concat.simps(2))
  finally show ?case .
qed

lemma hm_foreach_list:
  assumes rep: "hm_rep hs m ns os"
  shows "hm_foreach hs m f arg = map_option fst (foreach_list f (concat ns @ concat os) arg)"
proof -
  have none: "h_foreach hs htab_empty f arg = Some (arg, True)" for arg
    unfolding h_foreach_def by (subst h_foreach_from.simps) (simp add: htab_empty_def)
  have new: "h_foreach hs (newer m) f arg = foreach_list f (concat ns) arg"
    using rep none h_foreach_from_list [of hs "newer m" ns f 0]
    by (auto simp: h_foreach_def hm_rep_def migrating_def split: if_splits)
  have old: "h_foreach hs (older m) f arg = foreach_list f (concat os) arg" for arg
    using rep none h_foreach_from_list [of hs "older m" os f 0]
    by (auto simp: h_foreach_def hm_rep_def migrating_def split: if_splits)
  show ?thesis
    by (auto simp: hm_foreach_def new old foreach_list_append split: bind_splits option.split)
qed

lemma hm_foreach_inv:
  assumes "hm_inv hs m A"
  shows "\<exists>xs. distinct xs \<and> set xs = A \<and>
      (\<forall>f arg. hm_foreach hs m f arg = map_option fst (foreach_list f xs arg))"
proof -
  obtain ns os where rep: "hm_rep hs m ns os" and A: "A = set (concat ns @ concat os)"
    using assms by (rule hm_invE)
  show ?thesis
    using hm_foreach_list [OF rep] hm_rep_distinct [OF rep] A
    by (intro exI [of _ "concat ns @ concat os"]) blast
qed

section \<open>The load stays bounded while the table is rehashed\<close>

text \<open>
  The code checks the load factor only when no migration is under way. That is enough: a
  migration moves \<open>k_rehashing_work\<close> nodes per operation, so it ends before the newer table
  can fill up. The invariant counts the operations the migration still needs.
\<close>

definition load_ok :: "hmap \<Rightarrow> bool" where
  "load_ok m \<longleftrightarrow>
     (if tab (newer m) = None then tab_size (newer m) = 0 \<and> tab_size (older m) = 0
      else if tab (older m) = None
      then tab_size (newer m) < k_max_load_factor * (tab_mask (newer m) + 1) \<and> tab_size (older m) = 0
      else tab_size (newer m) + tab_size (older m) + tab_size (older m) div k_rehashing_work + 1
             < k_max_load_factor * (tab_mask (newer m) + 1))"

lemma h_detach_fields:
  "h_detach hs t sl = Some (hs', t', a) \<Longrightarrow>
   tab_mask t' = tab_mask t \<and> tab_size t' = tab_size t - 1 \<and> (tab t' = None \<longleftrightarrow> tab t = None)"
  by (cases sl) (auto simp: h_detach_def upd_nth_def bind_eq_Some_conv split: if_splits)

lemma h_insert_fields:
  "h_insert hs t a = Some (hs', t') \<Longrightarrow>
   tab_mask t' = tab_mask t \<and> tab_size t' = tab_size t + 1 \<and> tab t' \<noteq> None \<and> tab t \<noteq> None"
  by (auto simp: h_insert_def Let_def upd_nth_def bind_eq_Some_conv split: if_splits)

lemma hm_help_fields:
  assumes "hm_inv hs m A" and "hm_help_rehashing hs m = Some (hs', m')"
  shows "tab_size (older m') = tab_size (older m) - k_rehashing_work"
    and "tab_size (newer m') + tab_size (older m') = tab_size (newer m) + tab_size (older m)"
    and "tab_mask (newer m') = tab_mask (newer m)"
    and "tab (older m') = None \<longleftrightarrow> tab_size (older m') = 0"
    and "tab (newer m') = None \<longleftrightarrow> tab (newer m) = None"
proof -
  obtain ns os where rep: "hm_rep hs m ns os" using assms(1) by (rule hm_invE)
  obtain ns' os' where h: "hm_rep hs' m' ns' os'"
    "mset (concat ns' @ concat os') = mset (concat ns @ concat os)"
    "length (concat os') = length (concat os) - k_rehashing_work"
    "tab (older m') = None \<longleftrightarrow> concat os' = []" "tab_mask (newer m') = tab_mask (newer m)"
    using hm_help_rehashing_rep [OF rep] assms(2) by fastforce
  have sz: "tab_size (newer m) = length (concat ns) \<and> tab_size (older m) = length (concat os)"
    if "hm_rep hs m ns os" for hs m ns os
    using that htab_rep_size
    by (auto simp: hm_rep_def migrating_def htab_empty_def split: if_splits)
  have "length (concat ns' @ concat os') = length (concat ns @ concat os)"
    using h(2) by (metis size_mset)
  then show "tab_size (newer m') + tab_size (older m') = tab_size (newer m) + tab_size (older m)"
    using sz [OF rep] sz [OF h(1)] by simp
  show "tab_size (older m') = tab_size (older m) - k_rehashing_work"
    using sz [OF rep] sz [OF h(1)] h(3) by simp
  show "tab_mask (newer m') = tab_mask (newer m)" by (rule h(5))
  show "tab (older m') = None \<longleftrightarrow> tab_size (older m') = 0"
    using sz [OF h(1)] h(4) by simp
  have "tab (newer m) = None \<longleftrightarrow> tab_mask (newer m) = 0" if "hm_rep hs m ns os" for hs m ns os
    using that tab_rep_mask [of hs "newer m" ns]
    by (auto simp: hm_rep_def migrating_def htab_empty_def split: if_splits)
  from this [OF rep] this [OF h(1)] h(5)
  show "tab (newer m') = None \<longleftrightarrow> tab (newer m) = None" by simp
qed

lemma load_ok_help:
  assumes "hm_inv hs m A" and "hm_help_rehashing hs m = Some (hs', m')" and "load_ok m"
  shows "load_ok m'"
proof -
  let ?o = "tab_size (older m)"
  note f = hm_help_fields [OF assms(1,2)]
  have d: "(?o - k_rehashing_work) div k_rehashing_work \<le> ?o div k_rehashing_work"
    by (simp add: div_le_mono)
  show ?thesis
  proof (cases "tab (newer m) = None")
    case True
    then show ?thesis using assms(3) f by (simp add: load_ok_def)
  next
    case False
    have "tab (older m) = None \<Longrightarrow> tab_size (older m) = 0" using assms(3) False by (simp add: load_ok_def)
    then show ?thesis using assms(3) f d False by (auto simp: load_ok_def split: if_splits)
  qed
qed

lemma load_ok_put_migrating:
  assumes "n + o' + o' div k_rehashing_work + 1 < c" and "o1 = o' - k_rehashing_work"
    and "n1 + o1 = n + o' + 1"
  shows "if o1 = 0 then n1 < c else n1 + o1 + o1 div k_rehashing_work + 1 < c"
proof (cases "o' < k_rehashing_work")
  case True
  then show ?thesis using assms by simp
next
  case False
  then have "o' div k_rehashing_work = o1 div k_rehashing_work + 1"
    using assms(2) by (simp add: k_rehashing_work_def le_div_geq)
  then show ?thesis using assms by auto
qed

lemma hm_inv_null_newer: "hm_inv hs m A \<Longrightarrow> tab (newer m) = None \<Longrightarrow> m = m\<lparr>newer := htab_empty, older := htab_empty\<rparr>"
  by (auto simp: hm_inv_def hm_rep_def)

lemma load_ok_insert:
  assumes inv: "hm_inv hs m A" and n: "hs a = Some n" and new: "a \<notin> A" and ok: "load_ok m"
    and ins: "hm_insert hs m a = Some (hs', m')"
  shows "load_ok m'"
  using inv n new
proof (rule hm_insert_steps)
  fix m0 hs1 t1 m2 hs3 m3
  assume s: "(if tab (newer m) = None then do { t \<leftarrow> h_init 4; Some (m\<lparr>newer := t\<rparr>) } else Some m) = Some m0"
    "h_insert hs (newer m0) a = Some (hs1, t1)"
    "(let m1 = m0\<lparr>newer := t1\<rparr> in if tab (older m1) = None
        then (let shreshold = (tab_mask (newer m1) + 1) * k_max_load_factor
              in if tab_size (newer m1) \<ge> shreshold then hm_trigger_rehashing m1 else Some m1)
        else Some m1) = Some m2"
    "hm_inv hs1 m2 (insert a A)" "hm_help_rehashing hs1 m2 = Some (hs3, m3)"
    "hm_insert hs m a = Some (hs3, m3)"
  have m': "m' = m3" using s(6) ins by simp
  have m0: "load_ok m0 \<and> tab (newer m0) \<noteq> None"
    using s(1) ok hm_inv_null_newer [OF inv]
    by (auto simp: load_ok_def k_max_load_factor_def split: if_splits)
  note t1 = h_insert_fields [OF s(2)]
  let ?n = "tab_size (newer m0)" and ?o = "tab_size (older m0)" and ?B = "tab_mask (newer m0) + 1"
  let ?m1 = "m0\<lparr>newer := t1\<rparr>"
  show ?thesis
  proof (cases "tab (older m0) = None")
    case False
    then have m2: "m2 = ?m1" using s(3) by (auto simp: Let_def)
    note f = hm_help_fields [OF s(4,5)]
    have "?n + ?o + ?o div k_rehashing_work + 1 < k_max_load_factor * ?B"
      using m0 False by (auto simp: load_ok_def split: if_splits)
    from load_ok_put_migrating [OF this, of "tab_size (older m3)" "tab_size (newer m3)"]
    show ?thesis using f m2 t1 unfolding m' by (auto simp: load_ok_def split: if_splits)
  next
    case True
    have lt: "?n < k_max_load_factor * ?B" and o0: "?o = 0" using m0 True by (auto simp: load_ok_def)
    have "load_ok m2"
    proof (cases "?n + 1 \<ge> ?B * k_max_load_factor")
      case False
      then have "m2 = ?m1" using s(3) True t1 by (simp add: Let_def)
      then show ?thesis using False True t1 o0 by (auto simp: load_ok_def mult.commute)
    next
      case big: True
      then have "hm_trigger_rehashing ?m1 = Some m2" using s(3) True t1 by (simp add: Let_def)
      then have m2: "older m2 = t1" "tab (newer m2) \<noteq> None" "tab_size (newer m2) = 0"
        "tab_mask (newer m2) + 1 = ?B * 2"
        using t1 by (auto simp: hm_trigger_rehashing_def h_init_def Let_def bind_eq_Some_conv)
      have "?n + 1 = k_max_load_factor * ?B" using big lt by (simp add: mult.commute)
      then show ?thesis using m2 t1
        by (simp add: load_ok_def k_max_load_factor_def k_rehashing_work_def)
    qed
    then show ?thesis using load_ok_help [OF s(4,5)] by (simp add: m')
  qed
qed

lemma load_ok_lookup:
  assumes "hm_inv hs m A" and "load_ok m" and "hm_lookup hs m hc eq = Some (hs', m', r)"
  shows "load_ok m'"
  using assms load_ok_help
  by (auto simp: hm_lookup_def bind_eq_Some_conv split: option.splits)

lemma load_ok_shrink_newer: "load_ok m \<Longrightarrow> tab_mask t = tab_mask (newer m) \<Longrightarrow>
    tab_size t = tab_size (newer m) - 1 \<Longrightarrow> (tab t = None \<longleftrightarrow> tab (newer m) = None) \<Longrightarrow> load_ok (m\<lparr>newer := t\<rparr>)"
  by (auto simp: load_ok_def split: if_splits)

lemma load_ok_shrink_older:
  assumes "load_ok m" and "tab_size t = tab_size (older m) - 1" and "tab t = None \<longleftrightarrow> tab (older m) = None"
  shows "load_ok (m\<lparr>older := t\<rparr>)"
proof -
  have "(tab_size (older m) - 1) div k_rehashing_work \<le> tab_size (older m) div k_rehashing_work"
    by (rule div_le_mono) simp
  then show ?thesis using assms by (auto simp: load_ok_def split: if_splits)
qed

lemma load_ok_delete:
  assumes inv: "hm_inv hs m A" and ok: "load_ok m" and d: "hm_delete hs m hc eq = Some (hs', m', r)"
  shows "load_ok m'"
proof -
  obtain hs1 m1 where h: "hm_help_rehashing hs m = Some (hs1, m1)"
    using d by (auto simp: hm_delete_def bind_eq_Some_conv)
  have ok1: "load_ok m1" by (rule load_ok_help [OF inv h ok])
  from d h consider "m' = m1"
    | hs2 t2 a sl where "h_detach hs1 (newer m1) sl = Some (hs2, t2, a)" "m' = m1\<lparr>newer := t2\<rparr>"
    | hs2 t2 a sl where "h_detach hs1 (older m1) sl = Some (hs2, t2, a)" "m' = m1\<lparr>older := t2\<rparr>"
    by (auto simp: hm_delete_def bind_eq_Some_conv split: option.splits)
  then show ?thesis
  proof cases
    case 1
    then show ?thesis using ok1 by simp
  next
    case 2
    then show ?thesis using load_ok_shrink_newer [OF ok1] h_detach_fields by blast
  next
    case 3
    then show ?thesis using load_ok_shrink_older [OF ok1] h_detach_fields by blast
  qed
qed

section \<open>The interface clients use\<close>

text \<open>
  What the payload (a database entry, a sorted-set member) needs of the table: its nodes are
  a set, a search by hash code and callback finds the matching node, an insertion adds a
  node, a deletion takes off the matching one, and no operation touches more of a node than
  the link the table keeps in it.
\<close>

locale hash_index =
  fixes inv :: "hstore \<Rightarrow> 'm \<Rightarrow> addr set \<Rightarrow> bool"
    and empty :: 'm
    and lookup :: "hstore \<Rightarrow> 'm \<Rightarrow> u64 \<Rightarrow> (addr \<Rightarrow> bool option) \<Rightarrow> (hstore \<times> 'm \<times> ptr) option"
    and insert_node :: "hstore \<Rightarrow> 'm \<Rightarrow> addr \<Rightarrow> (hstore \<times> 'm) option"
    and delete :: "hstore \<Rightarrow> 'm \<Rightarrow> u64 \<Rightarrow> (addr \<Rightarrow> bool option) \<Rightarrow> (hstore \<times> 'm \<times> ptr) option"
  assumes empty_law: "inv hs empty {}"
    and alloc_law: "inv hs m A \<Longrightarrow> a \<in> A \<Longrightarrow> \<exists>n. hs a = Some n"
    and frame_law: "inv hs m A \<Longrightarrow> (\<And>a. a \<in> A \<Longrightarrow> hs' a = hs a) \<Longrightarrow> inv hs' m A"
    and lookup_law: "inv hs m A \<Longrightarrow> unique_match hs hc eq A \<Longrightarrow>
      \<exists>hs' m' r. lookup hs m hc eq = Some (hs', m', r) \<and> inv hs' m' A \<and> rehung A hs hs' \<and> finds hs hc eq A r"
    and insert_law: "inv hs m A \<Longrightarrow> hs a = Some n \<Longrightarrow> a \<notin> A \<Longrightarrow>
      \<exists>hs' m'. insert_node hs m a = Some (hs', m') \<and> inv hs' m' (insert a A) \<and> rehung (insert a A) hs hs'"
    and delete_law: "inv hs m A \<Longrightarrow> unique_match hs hc eq A \<Longrightarrow>
      \<exists>hs' m' r. delete hs m hc eq = Some (hs', m', r) \<and> inv hs' m' (A - set_option r) \<and>
        rehung A hs hs' \<and> finds hs hc eq A r"
begin

text \<open>
  A client gives every node a key of its own, and the hash of the key as its code. Then a
  search with the key's hash and a callback that compares keys finds the node of the key.
\<close>

definition keyed :: "hstore \<Rightarrow> addr set \<Rightarrow> (addr \<Rightarrow> 'k) \<Rightarrow> ('k \<Rightarrow> u64) \<Rightarrow> bool" where
  "keyed hs A key h \<longleftrightarrow> inj_on key A \<and> (\<forall>a \<in> A. \<exists>n. hs a = Some n \<and> hcode n = h (key a))"

definition node_of :: "addr set \<Rightarrow> (addr \<Rightarrow> 'k) \<Rightarrow> 'k \<Rightarrow> ptr \<Rightarrow> bool" where
  "node_of A key k r \<longleftrightarrow> (case r of None \<Rightarrow> k \<notin> key ` A | Some a \<Rightarrow> a \<in> A \<and> key a = k)"

lemma keyed_rehung: "rehung B hs hs' \<Longrightarrow> keyed hs' A key h = keyed hs A key h"
  by (simp add: keyed_def rehung_hcode)

lemma keyed_match:
  assumes "keyed hs A key h" and "\<And>a. a \<in> A \<Longrightarrow> eq a = Some (key a = k)" and "a \<in> A"
  shows "hmatch hs (h k) eq a \<longleftrightarrow> key a = k"
  using assms by (fastforce simp: keyed_def hmatch_def)

lemma keyed_unique_match:
  assumes "keyed hs A key h" and "\<And>a. a \<in> A \<Longrightarrow> eq a = Some (key a = k)"
  shows "unique_match hs (h k) eq A"
proof -
  have "eq_defined hs (h k) eq A" using assms(2) by (simp add: eq_defined_def)
  moreover have "inj_on key A" using assms(1) by (simp add: keyed_def)
  ultimately show ?thesis
    unfolding unique_match_def using keyed_match [OF assms] by (auto dest: inj_onD)
qed

lemma keyed_finds:
  assumes "keyed hs A key h" and "\<And>a. a \<in> A \<Longrightarrow> eq a = Some (key a = k)"
  shows "finds hs (h k) eq A r \<longleftrightarrow> node_of A key k r"
  using keyed_match [OF assms] by (auto simp: finds_def node_of_def split: option.split)

lemma lookup_key:
  assumes "inv hs m A" and "keyed hs A key h" and "\<And>a. a \<in> A \<Longrightarrow> eq a = Some (key a = k)"
  shows "\<exists>hs' m' r. lookup hs m (h k) eq = Some (hs', m', r) \<and> inv hs' m' A \<and>
      keyed hs' A key h \<and> rehung A hs hs' \<and> node_of A key k r"
  using lookup_law [OF assms(1) keyed_unique_match [OF assms(2,3)]]
    keyed_finds [OF assms(2,3)] keyed_rehung assms(2) by metis

lemma delete_key:
  assumes "inv hs m A" and "keyed hs A key h" and "\<And>a. a \<in> A \<Longrightarrow> eq a = Some (key a = k)"
  shows "\<exists>hs' m' r. delete hs m (h k) eq = Some (hs', m', r) \<and> inv hs' m' (A - set_option r) \<and>
      keyed hs' (A - set_option r) key h \<and> rehung A hs hs' \<and> node_of A key k r"
proof -
  obtain hs' m' r where d: "delete hs m (h k) eq = Some (hs', m', r)" "inv hs' m' (A - set_option r)"
    "rehung A hs hs'" "finds hs (h k) eq A r"
    using delete_law [OF assms(1) keyed_unique_match [OF assms(2,3)]] by blast
  have "keyed hs' A key h" using assms(2) by (simp add: keyed_rehung [OF d(3)])
  then have "keyed hs' (A - set_option r) key h" by (auto simp: keyed_def intro: inj_on_subset)
  then show ?thesis using d keyed_finds [OF assms(2,3)] by blast
qed

lemma insert_key:
  assumes "inv hs m A" and "keyed hs A key h" and "a \<notin> A" and "hs a = Some n"
    and "hcode n = h (key a)" and "key a \<notin> key ` A"
  shows "\<exists>hs' m'. insert_node hs m a = Some (hs', m') \<and> inv hs' m' (insert a A) \<and>
      keyed hs' (insert a A) key h \<and> rehung (insert a A) hs hs'"
proof -
  have "keyed hs (insert a A) key h" using assms(2,4-6) by (auto simp: keyed_def)
  then show ?thesis using insert_law [OF assms(1,4,3)] keyed_rehung by metis
qed

end

lemma hm_inv_frame:
  assumes "hm_inv hs m A" and same: "\<And>a. a \<in> A \<Longrightarrow> hs' a = hs a"
  shows "hm_inv hs' m A"
proof -
  obtain ns os where rep: "hm_rep hs m ns os" and A: "A = set (concat ns @ concat os)"
    using assms(1) by (rule hm_invE)
  have tr: "tab_rep hs' t bss" if "tab_rep hs t bss" "set (concat bss) \<subseteq> A" for t bss
  proof -
    have s: "hs' a = hs a" if "i < length bss" "a \<in> set (bss ! i)" for i a
      using same in_concat_nthI [OF that] \<open>set (concat bss) \<subseteq> A\<close> by blast
    then have "chain hs' p (bss ! i) = chain hs p (bss ! i)" if "i < length bss" for p i
      using that by (intro chain_frame) auto
    then show ?thesis using \<open>tab_rep hs t bss\<close> s unfolding tab_rep_def by fastforce
  qed
  have "hm_rep hs' m ns os"
    using rep tr A by (auto simp: hm_rep_def migrating_def split: if_splits)
  then show ?thesis using A by (intro hm_invI) auto
qed

interpretation hm: hash_index hm_inv hmap_empty hm_lookup hm_insert hm_delete
proof unfold_locales
qed (use hm_inv_alloc hm_inv_frame hm_lookup_inv hm_insert_inv hm_delete_inv in auto)

section \<open>Properties\<close>

text \<open>A map in the middle of a migration, for the witnesses: node 1 moved, node 2 still in the older table.\<close>

definition sample_hs :: hstore where
  "sample_hs = [1 \<mapsto> \<lparr>hnext = None, hcode = 9\<rparr>, 2 \<mapsto> \<lparr>hnext = None, hcode = 6\<rparr>, 3 \<mapsto> \<lparr>hnext = None, hcode = 14\<rparr>]"

definition sample_hm :: hmap where
  "sample_hm = \<lparr>
     newer = \<lparr>tab = Some [None, Some 1, None, None, None, None, None, None], tab_mask = 7, tab_size = 1\<rparr>,
     older = \<lparr>tab = Some [None, None, Some 2, None], tab_mask = 3, tab_size = 1\<rparr>,
     migrate_pos = 1\<rparr>"

lemma sample_hm_inv: "hm_inv sample_hs sample_hm {1, 2}"
proof (rule hm_invI)
  let ?ns = "[[], [1], [], [], [], [], [], []]" and ?os = "[[], [], [2], []]"
  have pow: "\<exists>k \<ge> 2. (8 :: nat) = 2 ^ k" "\<exists>k \<ge> 2. (4 :: nat) = 2 ^ k"
    by (rule exI [of _ 3], simp, rule exI [of _ 2], simp)
  have len: "length ?ns = 8" "length ?os = 4" by simp_all
  have new: "tab_rep sample_hs (newer sample_hm) ?ns"
    unfolding tab_rep_def len all_less_8 using pow by (simp add: sample_hs_def sample_hm_def)
  have old: "tab_rep sample_hs (older sample_hm) ?os"
    unfolding tab_rep_def len all_less_4 using pow by (simp add: sample_hs_def sample_hm_def)
  have "migrating sample_hs sample_hm ?ns ?os"
    unfolding migrating_def len all_less_4 using new old by (simp add: sample_hm_def)
  then show "hm_rep sample_hs sample_hm ?ns ?os"
    by (simp add: hm_rep_def) (simp add: sample_hm_def)
qed auto

lemma sample_unique: "unique_match sample_hs 6 (\<lambda>a. Some (a = 2)) {1, 2}"
  by (auto simp: unique_match_def eq_defined_def hmatch_def)

lemma sample_load: "load_ok sample_hm"
  by (simp add: load_ok_def sample_hm_def k_max_load_factor_def k_rehashing_work_def)

text \<open>
  C25. Looking a key up in a well-formed map, in any state of its migration, returns: it finds
  the node that matches the key if the map holds one and NULL if not, it keeps the set of
  nodes and the invariant, and it changes nothing of a node but its link.
\<close>

theorem hm_lookup_correct:
  assumes "hm_inv hs m A" and "unique_match hs hc eq A"
  shows "\<exists>hs' m' r. hm_lookup hs m hc eq = Some (hs', m', r) \<and> hm_inv hs' m' A \<and>
      rehung A hs hs' \<and>
      (case r of None \<Rightarrow> \<forall>a \<in> A. \<not> hmatch hs hc eq a | Some a \<Rightarrow> a \<in> A \<and> hmatch hs hc eq a)"
  using hm_lookup_inv [OF assms] by (simp add: finds_def)

theorem hm_lookup_correct_witness:
  "\<exists>hs' m'. hm_lookup sample_hs sample_hm 6 (\<lambda>a. Some (a = 2)) = Some (hs', m', Some 2) \<and> hm_inv hs' m' {1, 2}"
proof -
  obtain hs' m' r where l: "hm_lookup sample_hs sample_hm 6 (\<lambda>a. Some (a = 2)) = Some (hs', m', r)"
    "hm_inv hs' m' {1, 2}"
    "case r of None \<Rightarrow> \<forall>a \<in> {1, 2}. \<not> hmatch sample_hs 6 (\<lambda>a. Some (a = 2)) a
     | Some a \<Rightarrow> a \<in> {1, 2} \<and> hmatch sample_hs 6 (\<lambda>a. Some (a = 2)) a"
    using hm_lookup_correct [OF sample_hm_inv sample_unique] by blast
  have "r = Some 2" using l(3) by (auto simp: hmatch_def sample_hs_def split: option.splits)
  then show ?thesis using l(1,2) by blast
qed

text \<open>
  C26. Inserting a node that is not in the map returns, adds exactly that node, keeps the
  invariant (also when it allocates the first array or starts a migration) and changes
  nothing of a node but its link.
\<close>

theorem hm_insert_correct:
  assumes "hm_inv hs m A" and "hs a = Some n" and "a \<notin> A"
  shows "\<exists>hs' m'. hm_insert hs m a = Some (hs', m') \<and> hm_inv hs' m' (insert a A) \<and>
      rehung (insert a A) hs hs'"
  using assms by (rule hm_insert_inv)

theorem hm_insert_correct_witness:
  "\<exists>hs' m'. hm_insert sample_hs sample_hm 3 = Some (hs', m') \<and> hm_inv hs' m' {3, 1, 2}"
  using hm_insert_correct [OF sample_hm_inv, of 3 "\<lparr>hnext = None, hcode = 14\<rparr>"]
  by (auto simp: sample_hs_def)

text \<open>
  C27. Deleting a key returns the node that matches it, or NULL if there is none, and takes
  exactly that node off the map, from whichever of the two tables holds it.
\<close>

theorem hm_delete_correct:
  assumes "hm_inv hs m A" and "unique_match hs hc eq A"
  shows "\<exists>hs' m' r. hm_delete hs m hc eq = Some (hs', m', r) \<and> rehung A hs hs' \<and>
      (case r of None \<Rightarrow> (\<forall>a \<in> A. \<not> hmatch hs hc eq a) \<and> hm_inv hs' m' A
       | Some a \<Rightarrow> a \<in> A \<and> hmatch hs hc eq a \<and> hm_inv hs' m' (A - {a}))"
  using hm_delete_inv [OF assms] by (fastforce simp: finds_def split: option.splits)

theorem hm_delete_correct_witness:
  "\<exists>hs' m'. hm_delete sample_hs sample_hm 6 (\<lambda>a. Some (a = 2)) = Some (hs', m', Some 2) \<and> hm_inv hs' m' ({1, 2} - {2})"
proof -
  obtain hs' m' r where l: "hm_delete sample_hs sample_hm 6 (\<lambda>a. Some (a = 2)) = Some (hs', m', r)"
    "case r of None \<Rightarrow> (\<forall>a \<in> {1, 2}. \<not> hmatch sample_hs 6 (\<lambda>a. Some (a = 2)) a) \<and> hm_inv hs' m' {1, 2}
     | Some a \<Rightarrow> a \<in> {1, 2} \<and> hmatch sample_hs 6 (\<lambda>a. Some (a = 2)) a \<and> hm_inv hs' m' ({1, 2} - {a})"
    using hm_delete_correct [OF sample_hm_inv sample_unique] by blast
  have "r = Some 2" using l(2) by (auto simp: hmatch_def sample_hs_def split: option.splits)
  then show ?thesis using l by simp
qed

text \<open>
  \<open>hm_size\<close> is the number of nodes, and \<open>hm_foreach\<close> calls its callback on every node
  exactly once, in an order that does not depend on the callback, until one call says stop.
\<close>

theorem hm_foreach_correct:
  assumes "hm_inv hs m A"
  shows "\<exists>xs. distinct xs \<and> set xs = A \<and> length xs = hm_size m \<and>
      (\<forall>f arg. hm_foreach hs m f arg = map_option fst (foreach_list f xs arg))"
  using hm_foreach_inv [OF assms] hm_size_card [OF assms] distinct_card by metis

theorem hm_foreach_correct_witness:
  "\<exists>xs. distinct xs \<and> set xs = {1, 2} \<and>
     hm_foreach sample_hs sample_hm (\<lambda>a n. Some (n + a, True)) 0 =
       map_option fst (foreach_list (\<lambda>a n. Some (n + a, True)) xs 0)"
proof -
  obtain xs where "distinct xs" "set xs = {1, 2}"
    "\<forall>f (arg :: nat). hm_foreach sample_hs sample_hm f arg = map_option fst (foreach_list f xs arg)"
    using hm_foreach_correct [where 'a = nat, OF sample_hm_inv] by (elim exE conjE)
  then show ?thesis by (intro exI [of _ xs]) simp
qed

text \<open>
  C29. Progressive rehashing keeps the load bounded: although an insertion does not look at
  the load factor while a migration is under way, after every insertion the map holds fewer
  than \<open>k_max_load_factor\<close> nodes per bucket of the newer table.
\<close>

theorem hm_insert_load:
  assumes "hm_inv hs m A" and "hs a = Some n" and "a \<notin> A" and "load_ok m"
    and "hm_insert hs m a = Some (hs', m')"
  shows "load_ok m' \<and> hm_size m' < k_max_load_factor * (tab_mask (newer m') + 1)"
proof -
  have ok: "load_ok m'" using load_ok_insert [OF assms(1-4)] assms(5) by blast
  then show ?thesis by (auto simp: load_ok_def hm_size_def k_max_load_factor_def split: if_splits)
qed

theorem hm_insert_load_witness:
  "\<exists>hs' m'. hm_insert sample_hs sample_hm 3 = Some (hs', m') \<and>
     hm_size m' < k_max_load_factor * (tab_mask (newer m') + 1)"
proof -
  have n: "sample_hs 3 = Some \<lparr>hnext = None, hcode = 14\<rparr>" and new: "3 \<notin> {1, 2 :: nat}"
    by (simp_all add: sample_hs_def)
  obtain hs' m' where i: "hm_insert sample_hs sample_hm 3 = Some (hs', m')"
    using hm_insert_inv [OF sample_hm_inv n new] by blast
  show ?thesis using hm_insert_load [OF sample_hm_inv n new sample_load i] i by blast
qed

text \<open>
  C28. A step of the migration always returns, moves exactly \<open>k_rehashing_work\<close> nodes (or all
  that are left) from the older to the newer table, loses none, and frees the older array
  exactly when it is empty. So a migration of \<open>n\<close> nodes ends after \<open>n / 128\<close> operations.
\<close>

theorem hm_rehashing_progress:
  assumes "hm_inv hs m A"
  shows "\<exists>hs' m'. hm_help_rehashing hs m = Some (hs', m') \<and> hm_inv hs' m' A \<and>
      tab_size (older m') = tab_size (older m) - k_rehashing_work \<and> hm_size m' = hm_size m \<and>
      (tab (older m') = None \<longleftrightarrow> tab_size (older m) \<le> k_rehashing_work)"
proof -
  obtain hs' m' ns os where h: "hm_help_rehashing hs m = Some (hs', m')" "hm_rep hs' m' ns os"
    "set (concat ns @ concat os) = A"
    using hm_help_inv [OF assms] by blast
  show ?thesis
    using h(1) hm_invI [OF h(2,3)] hm_help_fields [OF assms h(1)] by (simp add: hm_size_def)
qed

theorem hm_rehashing_progress_witness:
  "\<exists>hs' m'. hm_help_rehashing sample_hs sample_hm = Some (hs', m') \<and> tab (older m') = None \<and> hm_size m' = 2"
proof -
  obtain hs' m' where h: "hm_help_rehashing sample_hs sample_hm = Some (hs', m')"
    "hm_size m' = hm_size sample_hm"
    "tab (older m') = None \<longleftrightarrow> tab_size (older sample_hm) \<le> k_rehashing_work"
    using hm_rehashing_progress [OF sample_hm_inv] by (elim exE conjE)
  have "tab_size (older sample_hm) = 1" "hm_size sample_hm = 2"
    by (simp_all add: sample_hm_def hm_size_def)
  then show ?thesis using h by (simp add: k_rehashing_work_def)
qed

end
