(* ===== verification/Avl_Tree.thy ===== *)
theory Avl_Tree
  imports Avl
begin

text \<open>
  The mathematical side of the AVL tree: trees whose nodes are addresses, the rebalancing of
  the code as a function on them, paths to the root (the parent pointers), and the balance
  argument for insertion and deletion, free of pointers.
\<close>

section \<open>Trees of addresses\<close>

datatype ptree = Leaf | Node ptree addr ptree

fun ht :: "ptree \<Rightarrow> nat" where
  "ht Leaf = 0"
| "ht (Node l a r) = 1 + max (ht l) (ht r)"

fun inorder :: "ptree \<Rightarrow> addr list" where
  "inorder Leaf = []"
| "inorder (Node l a r) = inorder l @ a # inorder r"

abbreviation nodes :: "ptree \<Rightarrow> addr set" where
  "nodes t \<equiv> set (inorder t)"

abbreviation tsize :: "ptree \<Rightarrow> nat" where
  "tsize t \<equiv> length (inorder t)"

text \<open>No two subtrees of a node differ in height by more than one.\<close>

fun bal :: "ptree \<Rightarrow> bool" where
  "bal Leaf = True"
| "bal (Node l a r) \<longleftrightarrow> bal l \<and> bal r \<and> ht l \<le> ht r + 1 \<and> ht r \<le> ht l + 1"

lemma ht_le_tsize: "ht t \<le> tsize t"
  by (induction t) auto

lemma ht_0 [simp]: "ht t = 0 \<longleftrightarrow> t = Leaf"
  by (cases t) auto

section \<open>Rebalancing one node\<close>

fun rotR :: "ptree \<Rightarrow> addr \<Rightarrow> ptree \<Rightarrow> ptree" where
  "rotR (Node t1 b t2) a t3 = Node t1 b (Node t2 a t3)"
| "rotR Leaf a t3 = Node Leaf a t3"

fun rotL :: "ptree \<Rightarrow> addr \<Rightarrow> ptree \<Rightarrow> ptree" where
  "rotL t1 a (Node t2 b t3) = Node (Node t1 a t2) b t3"
| "rotL t1 a Leaf = Node t1 a Leaf"

fun fix_left :: "ptree \<Rightarrow> addr \<Rightarrow> ptree \<Rightarrow> ptree" where
  "fix_left (Node ll b lr) a r =
     (if ht ll < ht lr then rotR (rotL ll b lr) a r else rotR (Node ll b lr) a r)"
| "fix_left Leaf a r = Node Leaf a r"

fun fix_right :: "ptree \<Rightarrow> addr \<Rightarrow> ptree \<Rightarrow> ptree" where
  "fix_right l a (Node rl b rr) =
     (if ht rr < ht rl then rotL l a (rotR rl b rr) else rotL l a (Node rl b rr))"
| "fix_right l a Leaf = Node l a Leaf"

definition rebalance :: "ptree \<Rightarrow> addr \<Rightarrow> ptree \<Rightarrow> ptree" where
  "rebalance l a r =
     (if ht l = ht r + 2 then fix_left l a r
      else if ht l + 2 = ht r then fix_right l a r
      else Node l a r)"

lemma inorder_rotR [simp]: "inorder (rotR l a r) = inorder l @ a # inorder r"
  by (cases l) auto

lemma inorder_rotL [simp]: "inorder (rotL l a r) = inorder l @ a # inorder r"
  by (cases r) auto

lemma inorder_rebalance [simp]: "inorder (rebalance l a r) = inorder l @ a # inorder r"
  by (cases l; cases r) (auto simp: rebalance_def)

lemma rebalance_not_Leaf [simp]: "rebalance l a r \<noteq> Leaf"
  by (metis inorder_rebalance inorder.simps(1) append_is_Nil_conv list.distinct(1))

lemma bal_fix_left:
  assumes "bal l" "bal r" "ht l = ht r + 2"
  shows "bal (fix_left l a r) \<and> (ht (fix_left l a r) = ht r + 2 \<or> ht (fix_left l a r) = ht r + 3)"
proof (cases l)
  case (Node ll b lr)
  show ?thesis
  proof (cases "ht ll < ht lr")
    case True
    then obtain t1 c t2 where "lr = Node t1 c t2" by (cases lr) auto
    then show ?thesis using assms Node True by (auto simp: max_def split: if_splits)
  next
    case False
    then show ?thesis using assms Node by (auto simp: max_def split: if_splits)
  qed
qed (use assms in simp)

lemma bal_fix_right:
  assumes "bal l" "bal r" "ht l + 2 = ht r"
  shows "bal (fix_right l a r) \<and> (ht (fix_right l a r) = ht l + 2 \<or> ht (fix_right l a r) = ht l + 3)"
proof (cases r)
  case (Node rl b rr)
  show ?thesis
  proof (cases "ht rr < ht rl")
    case True
    then obtain t1 c t2 where "rl = Node t1 c t2" by (cases rl) auto
    then show ?thesis using assms Node True by (auto simp: max_def split: if_splits)
  next
    case False
    then show ?thesis using assms Node by (auto simp: max_def split: if_splits)
  qed
qed (use assms in simp)

text \<open>
  Subtrees that differ by at most two in height become a balanced tree, at most one lower
  than the unbalanced one.
\<close>

lemma bal_rebalance:
  assumes "bal l" "bal r" "ht l \<le> ht r + 2" "ht r \<le> ht l + 2"
  shows "bal (rebalance l a r)"
    and "max (ht l) (ht r) \<le> ht (rebalance l a r)"
    and "ht (rebalance l a r) \<le> 1 + max (ht l) (ht r)"
    and "ht l \<le> ht r + 1 \<Longrightarrow> ht r \<le> ht l + 1 \<Longrightarrow> ht (rebalance l a r) = 1 + max (ht l) (ht r)"
proof -
  consider "ht l = ht r + 2" | "ht l + 2 = ht r" | "ht l \<le> ht r + 1" "ht r \<le> ht l + 1"
    using assms(3,4) by linarith
  then have "bal (rebalance l a r) \<and> max (ht l) (ht r) \<le> ht (rebalance l a r) \<and>
      ht (rebalance l a r) \<le> 1 + max (ht l) (ht r) \<and>
      (ht l \<le> ht r + 1 \<longrightarrow> ht r \<le> ht l + 1 \<longrightarrow> ht (rebalance l a r) = 1 + max (ht l) (ht r))"
  proof cases
    case 1
    then show ?thesis using bal_fix_left [OF assms(1,2), of a] by (auto simp: rebalance_def)
  next
    case 2
    then show ?thesis using bal_fix_right [OF assms(1,2), of a] by (auto simp: rebalance_def)
  next
    case 3
    then show ?thesis using assms(1,2) by (auto simp: rebalance_def max_def)
  qed
  then show "bal (rebalance l a r)" "max (ht l) (ht r) \<le> ht (rebalance l a r)"
    "ht (rebalance l a r) \<le> 1 + max (ht l) (ht r)"
    "ht l \<le> ht r + 1 \<Longrightarrow> ht r \<le> ht l + 1 \<Longrightarrow> ht (rebalance l a r) = 1 + max (ht l) (ht r)"
    by blast+
qed

section \<open>Paths to the root\<close>

text \<open>
  The path from a subtree to the root, innermost step first: \<open>FL a r\<close> when the subtree is the
  left child of \<open>a\<close>, whose right child is \<open>r\<close>; \<open>FR l a\<close> when it is the right child.
\<close>

datatype step = FL addr ptree | FR ptree addr

fun plug :: "ptree \<Rightarrow> step list \<Rightarrow> ptree" where
  "plug t [] = t"
| "plug t (FL a r # c) = plug (Node t a r) c"
| "plug t (FR l a # c) = plug (Node l a t) c"

fun before :: "step list \<Rightarrow> addr list" where
  "before [] = []"
| "before (FL a r # c) = before c"
| "before (FR l a # c) = before c @ inorder l @ [a]"

fun after :: "step list \<Rightarrow> addr list" where
  "after [] = []"
| "after (FL a r # c) = a # inorder r @ after c"
| "after (FR l a # c) = after c"

lemma inorder_plug: "inorder (plug t c) = before c @ inorder t @ after c"
  by (induction t c rule: plug.induct) auto

lemma plug_append: "plug t (c @ d) = plug (plug t c) d"
  by (induction t c rule: plug.induct) auto

lemma before_append: "before (c @ d) = before d @ before c"
  by (induction c rule: before.induct) auto

lemma after_append: "after (c @ d) = after c @ after d"
  by (induction c rule: after.induct) auto

text \<open>Every node of a tree has a path.\<close>

lemma node_path: "a \<in> nodes t \<Longrightarrow> \<exists>l r c. t = plug (Node l a r) c"
proof (induction t)
  case (Node l b r)
  consider "a = b" | "a \<in> nodes l" | "a \<in> nodes r" using Node.prems by auto
  then show ?case
  proof cases
    case 1
    then show ?thesis by (intro exI [of _ l] exI [of _ r] exI [of _ "[]"]) simp
  next
    case 2
    then obtain l1 r1 c where "l = plug (Node l1 a r1) c" using Node.IH(1) by blast
    then show ?thesis
      by (intro exI [of _ l1] exI [of _ r1] exI [of _ "c @ [FL b r]"]) (simp add: plug_append)
  next
    case 3
    then obtain l1 r1 c where "r = plug (Node l1 a r1) c" using Node.IH(2) by blast
    then show ?thesis
      by (intro exI [of _ l1] exI [of _ r1] exI [of _ "c @ [FR l b]"]) (simp add: plug_append)
  qed
qed simp

text \<open>Rebalancing all the way up, as \<open>avl_fix\<close> does.\<close>

fun fix_up :: "ptree \<Rightarrow> step list \<Rightarrow> ptree" where
  "fix_up t [] = t"
| "fix_up t (FL a r # c) = fix_up (rebalance t a r) c"
| "fix_up t (FR l a # c) = fix_up (rebalance l a t) c"

lemma inorder_fix_up [simp]: "inorder (fix_up t c) = before c @ inorder t @ after c"
  by (induction t c rule: fix_up.induct) auto

text \<open>A path that is balanced when the subtree below it has height \<open>h\<close>.\<close>

fun bal_path :: "nat \<Rightarrow> step list \<Rightarrow> bool" where
  "bal_path h [] = True"
| "bal_path h (FL a r # c) \<longleftrightarrow> bal r \<and> h \<le> ht r + 1 \<and> ht r \<le> h + 1 \<and> bal_path (1 + max h (ht r)) c"
| "bal_path h (FR l a # c) \<longleftrightarrow> bal l \<and> h \<le> ht l + 1 \<and> ht l \<le> h + 1 \<and> bal_path (1 + max h (ht l)) c"

lemma bal_plug: "bal (plug t c) \<longleftrightarrow> bal t \<and> bal_path (ht t) c"
  by (induction t c rule: plug.induct) (auto simp: max.commute)

text \<open>
  The balance argument, for insertion and deletion at once: a balanced subtree whose height
  changed by at most one is rebalanced up to the root, one rotation at most per level.
\<close>

lemma bal_fix_up:
  assumes "bal t" and "bal_path h c" and "ht t \<le> h + 1" and "h \<le> ht t + 1"
  shows "bal (fix_up t c)"
  using assms
proof (induction t c arbitrary: h rule: fix_up.induct)
  case (2 t a r c)
  note b = bal_rebalance [of t r a]
  have "bal (rebalance t a r)" using 2 by (intro b) auto
  moreover have "ht (rebalance t a r) \<le> (1 + max h (ht r)) + 1"
    using b(3) 2 by force
  moreover have "1 + max h (ht r) \<le> ht (rebalance t a r) + 1"
    using b(2,4) 2 by (cases "ht t \<le> ht r + 1 \<and> ht r \<le> ht t + 1") (force simp: max_def split: if_splits)+
  ultimately show ?case using "2.IH" [of "1 + max h (ht r)"] "2.prems" by simp
next
  case (3 t l a c)
  note b = bal_rebalance [of l t a]
  have "bal (rebalance l a t)" using 3 by (intro b) auto
  moreover have "ht (rebalance l a t) \<le> (1 + max h (ht l)) + 1"
    using b(3) 3 by force
  moreover have "1 + max h (ht l) \<le> ht (rebalance l a t) + 1"
    using b(2,4) 3 by (cases "ht l \<le> ht t + 1 \<and> ht t \<le> ht l + 1") (force simp: max_def split: if_splits)+
  ultimately show ?case using "3.IH" [of "1 + max h (ht l)"] "3.prems" by simp
qed simp

end
