(* ===== verification/Avl_Correct.thy ===== *)
theory Avl_Correct
  imports Avl_Tree
begin

text \<open>
  The pointer code of \<open>src/avl.cpp\<close> implements the trees of \<open>Avl_Tree\<close>: representation of
  a tree and of a path to the root in a store, rotations, rebalancing, deletion and offset by
  rank. Each operation is total on a represented tree, changes only the nodes of the tree,
  keeps it balanced, and has the expected effect on the sorted sequence of nodes.
\<close>

section \<open>Representation\<close>

fun root_of :: "ptree \<Rightarrow> ptr" where
  "root_of Leaf = None"
| "root_of (Node l a r) = Some a"

definition aux_height :: "ptree \<Rightarrow> u32" where
  "aux_height t = of_nat (ht t)"

definition aux_cnt :: "ptree \<Rightarrow> u32" where
  "aux_cnt t = of_nat (tsize t)"

text \<open>The tree \<open>t\<close> is in the store \<open>s\<close>, all pointers and cached fields right, below the parent \<open>par\<close>.\<close>

fun tree_at :: "astore \<Rightarrow> ptr \<Rightarrow> ptree \<Rightarrow> bool" where
  "tree_at s par Leaf = True"
| "tree_at s par (Node l a r) \<longleftrightarrow>
     s a = Some \<lparr>parent = par, left = root_of l, right = root_of r,
                 height = aux_height (Node l a r), cnt = aux_cnt (Node l a r)\<rparr> \<and>
     tree_at s (Some a) l \<and> tree_at s (Some a) r"

text \<open>A node with its two subtrees whose cached fields may be stale.\<close>

definition open_at :: "astore \<Rightarrow> ptr \<Rightarrow> ptree \<Rightarrow> addr \<Rightarrow> ptree \<Rightarrow> bool" where
  "open_at s par l a r \<longleftrightarrow>
     (\<exists>h c. s a = Some \<lparr>parent = par, left = root_of l, right = root_of r, height = h, cnt = c\<rparr>) \<and>
     tree_at s (Some a) l \<and> tree_at s (Some a) r"

fun ctx_par :: "step list \<Rightarrow> ptr" where
  "ctx_par [] = None"
| "ctx_par (FL a r # c) = Some a"
| "ctx_par (FR l a # c) = Some a"

text \<open>A path whose innermost child pointer is \<open>p\<close>; its nodes may have stale cached fields.\<close>

fun ctx_at :: "astore \<Rightarrow> ptr \<Rightarrow> step list \<Rightarrow> bool" where
  "ctx_at s p [] = True"
| "ctx_at s p (FL a r # c) \<longleftrightarrow>
     (\<exists>h n. s a = Some \<lparr>parent = ctx_par c, left = p, right = root_of r, height = h, cnt = n\<rparr>) \<and>
     tree_at s (Some a) r \<and> ctx_at s (Some a) c"
| "ctx_at s p (FR l a # c) \<longleftrightarrow>
     (\<exists>h n. s a = Some \<lparr>parent = ctx_par c, left = root_of l, right = p, height = h, cnt = n\<rparr>) \<and>
     tree_at s (Some a) l \<and> ctx_at s (Some a) c"

fun aux_ok :: "astore \<Rightarrow> ptree \<Rightarrow> step list \<Rightarrow> bool" where
  "aux_ok s t [] = True"
| "aux_ok s t (FL a r # c) \<longleftrightarrow>
     (\<exists>n. s a = Some n \<and> height n = aux_height (Node t a r) \<and> cnt n = aux_cnt (Node t a r)) \<and>
     aux_ok s (Node t a r) c"
| "aux_ok s t (FR l a # c) \<longleftrightarrow>
     (\<exists>n. s a = Some n \<and> height n = aux_height (Node l a t) \<and> cnt n = aux_cnt (Node l a t)) \<and>
     aux_ok s (Node l a t) c"

lemma tree_at_plug:
  "tree_at s None (plug t c) \<longleftrightarrow>
   tree_at s (ctx_par c) t \<and> ctx_at s (root_of t) c \<and> aux_ok s t c"
proof (induction t c rule: plug.induct)
  case (2 t a r c)
  then show ?case by (cases "s a") (auto simp: intro: avlnode.equality)
next
  case (3 t l a c)
  then show ?case by (cases "s a") (auto simp: intro: avlnode.equality)
qed simp

definition avl_max :: nat where
  "avl_max = 2 ^ 32 - 2"

text \<open>The pointer \<open>p\<close> is the root of a balanced tree whose nodes in order are \<open>xs\<close>.\<close>

definition avl_rep :: "astore \<Rightarrow> ptr \<Rightarrow> addr list \<Rightarrow> bool" where
  "avl_rep s p xs \<longleftrightarrow>
     (\<exists>t. p = root_of t \<and> tree_at s None t \<and> bal t \<and> inorder t = xs) \<and>
     distinct xs \<and> length xs \<le> avl_max"

section \<open>Frames\<close>

lemma root_of_eq_None [simp]: "root_of t = None \<longleftrightarrow> t = Leaf"
  by (cases t) auto

lemma root_of_None_eq [simp]: "None = root_of t \<longleftrightarrow> t = Leaf"
  by (cases t) auto

lemma root_of_in_nodes: "root_of t = Some a \<Longrightarrow> a \<in> nodes t"
  by (cases t) auto

lemma root_of_neq [simp]: "a \<notin> nodes t \<Longrightarrow> root_of t \<noteq> Some a"
  by (auto dest: root_of_in_nodes)

lemma tree_at_frame:
  "tree_at s par t \<Longrightarrow> same_outside A s s' \<Longrightarrow> A \<inter> nodes t = {} \<Longrightarrow> tree_at s' par t"
  by (induction s par t rule: tree_at.induct) (auto simp: same_outside_def)

lemma avl_rep_frame: "avl_rep s p xs \<Longrightarrow> same_outside A s s' \<Longrightarrow> A \<inter> set xs = {} \<Longrightarrow> avl_rep s' p xs"
  unfolding avl_rep_def by (blast intro: tree_at_frame)

lemma tree_at_upd [simp]: "a \<notin> nodes t \<Longrightarrow> tree_at (s(a := v)) par t = tree_at s par t"
  by (induction s par t rule: tree_at.induct) auto

fun ctx_nodes :: "step list \<Rightarrow> addr set" where
  "ctx_nodes [] = {}"
| "ctx_nodes (FL a r # c) = insert a (nodes r \<union> ctx_nodes c)"
| "ctx_nodes (FR l a # c) = insert a (nodes l \<union> ctx_nodes c)"

lemma set_before_after: "set (before c) \<union> set (after c) = ctx_nodes c"
  by (induction c rule: before.induct) auto

lemma ctx_at_frame:
  "ctx_at s p c \<Longrightarrow> same_outside A s s' \<Longrightarrow> A \<inter> ctx_nodes c = {} \<Longrightarrow> ctx_at s' p c"
proof (induction s p c rule: ctx_at.induct)
  case (2 s p a r c)
  have "tree_at s' (Some a) r" using 2 by (auto intro: tree_at_frame [OF _ 2(3)])
  then show ?case using 2 by (auto simp: same_outside_def)
next
  case (3 s p l a c)
  have "tree_at s' (Some a) l" using 3 by (auto intro: tree_at_frame [OF _ 3(3)])
  then show ?case using 3 by (auto simp: same_outside_def)
qed simp

lemma ctx_at_upd [simp]: "a \<notin> ctx_nodes c \<Longrightarrow> ctx_at (s(a := v)) p c = ctx_at s p c"
  by (induction s p c rule: ctx_at.induct) auto

section \<open>Cached fields\<close>

lemma avl_height_root [simp]:
  "tree_at s par t \<Longrightarrow> avl_height s (root_of t) = Some (aux_height t)"
  by (cases t) (auto simp: avl_height_def aux_height_def)

lemma avl_cnt_root [simp]: "tree_at s par t \<Longrightarrow> avl_cnt s (root_of t) = Some (aux_cnt t)"
  by (cases t) (auto simp: avl_cnt_def aux_cnt_def)

lemma unat_u32 [simp]: "n < 2 ^ 32 \<Longrightarrow> unat (of_nat n :: u32) = n"
  by (simp add: unat_of_nat)

lemma of_nat_u32_less:
  "m < 2 ^ 32 \<Longrightarrow> n < 2 ^ 32 \<Longrightarrow> (of_nat m :: u32) < of_nat n \<longleftrightarrow> m < n"
  unfolding word_less_nat_alt by simp

lemma of_nat_u32_eq:
  "m < 2 ^ 32 \<Longrightarrow> n < 2 ^ 32 \<Longrightarrow> (of_nat m :: u32) = of_nat n \<longleftrightarrow> m = n"
  unfolding word_unat_eq_iff by simp

lemma aux_height_Node:
  assumes "tsize l < 2 ^ 32" "tsize r < 2 ^ 32"
  shows "1 + max_u32 (aux_height l) (aux_height r) = aux_height (Node l a r)"
proof -
  have "ht l < 2 ^ 32" "ht r < 2 ^ 32" using ht_le_tsize [of l] ht_le_tsize [of r] assms by linarith+
  then show ?thesis
    by (auto simp: max_u32_def aux_height_def of_nat_u32_less max_def)
qed

lemma aux_cnt_Node: "1 + aux_cnt l + aux_cnt r = aux_cnt (Node l a r)"
  by (simp add: aux_cnt_def)

lemma aux_height_less:
  "tsize l < 2 ^ 32 \<Longrightarrow> tsize r < 2 ^ 32 \<Longrightarrow> aux_height l < aux_height r \<longleftrightarrow> ht l < ht r"
  using ht_le_tsize [of l] ht_le_tsize [of r] by (simp add: aux_height_def of_nat_u32_less)

lemma aux_height_two:
  assumes "tsize l < 2 ^ 32" "tsize r + 2 < 2 ^ 32"
  shows "aux_height l = aux_height r + 2 \<longleftrightarrow> ht l = ht r + 2"
proof -
  have "aux_height r + 2 = of_nat (ht r + 2)" by (simp add: aux_height_def)
  moreover have "ht l < 2 ^ 32" "ht r + 2 < 2 ^ 32"
    using ht_le_tsize [of l] ht_le_tsize [of r] assms by linarith+
  ultimately show ?thesis unfolding aux_height_def by (simp only: of_nat_u32_eq)
qed

lemma avl_update_at:
  assumes "s a = Some n" "left n = root_of l" "right n = root_of r"
    and "tree_at s pl l" "tree_at s pr r" and "tsize l < 2 ^ 32" "tsize r < 2 ^ 32"
  shows "avl_update s a =
    Some (s(a \<mapsto> n\<lparr>height := aux_height (Node l a r), cnt := aux_cnt (Node l a r)\<rparr>))"
  using aux_height_Node [of l r a] assms by (simp add: avl_update_def aux_cnt_Node [of l r a])

section \<open>Rotations\<close>

lemma set_parent_at:
  assumes "tree_at s par t" "distinct (inorder t)"
  shows "\<exists>s'. set_parent s (root_of t) q = Some s' \<and> tree_at s' q t \<and> same_outside (nodes t) s s'"
  using assms by (cases t) (auto simp: set_parent_def)

lemma rot_right_at:
  assumes o: "open_at s par (Node t1 b t2) a t3"
    and d: "distinct (inorder (Node (Node t1 b t2) a t3))"
    and sz: "tsize (Node (Node t1 b t2) a t3) < 2 ^ 32"
  shows "\<exists>s'. rot_right s a = Some (s', b) \<and> tree_at s' par (Node t1 b (Node t2 a t3)) \<and>
    same_outside (insert a (nodes (Node t1 b t2))) s s'"
proof -
  obtain h c where a: "s a = Some \<lparr>parent = par, left = Some b, right = root_of t3, height = h, cnt = c\<rparr>"
    and t: "tree_at s (Some a) (Node t1 b t2)" "tree_at s (Some a) t3"
    using o by (auto simp: open_at_def)
  have b: "s b = Some \<lparr>parent = Some a, left = root_of t1, right = root_of t2,
      height = aux_height (Node t1 b t2), cnt = aux_cnt (Node t1 b t2)\<rparr>"
    and t12: "tree_at s (Some b) t1" "tree_at s (Some b) t2" using t by auto
  define s1 where "s1 = s(a \<mapsto> \<lparr>parent = par, left = root_of t2, right = root_of t3, height = h, cnt = c\<rparr>)"
  have "tree_at s1 (Some b) t2" using t12 d by (simp add: s1_def)
  then obtain s2 where s2: "set_parent s1 (root_of t2) (Some a) = Some s2"
    "tree_at s2 (Some a) t2" "same_outside (nodes t2) s1 s2"
    using set_parent_at [of s1 "Some b" t2 "Some a"] d by auto
  have s2a: "s2 a = s1 a" "s2 b = s b" "tree_at s2 (Some b) t1" "tree_at s2 (Some a) t3"
    using same_outsideD [OF s2(3)] d t12 t s1_def
    by (auto intro!: tree_at_frame [OF _ s2(3)])
  define s3 where "s3 = s2(b \<mapsto> \<lparr>parent = par, left = root_of t1, right = Some a,
      height = aux_height (Node t1 b t2), cnt = aux_cnt (Node t1 b t2)\<rparr>,
      a \<mapsto> \<lparr>parent = Some b, left = root_of t2, right = root_of t3, height = h, cnt = c\<rparr>)"
  have s3: "tree_at s3 (Some a) t2" "tree_at s3 (Some a) t3" "tree_at s3 (Some b) t1"
    using s2 s2a d by (auto simp: s3_def)
  define s4 where "s4 = s3(a \<mapsto> \<lparr>parent = Some b, left = root_of t2, right = root_of t3,
      height = aux_height (Node t2 a t3), cnt = aux_cnt (Node t2 a t3)\<rparr>)"
  have u4: "avl_update s3 a = Some s4"
    by (subst avl_update_at [OF _ _ _ s3(1,2), where a = a])
      (use sz in \<open>auto simp: s3_def s4_def\<close>)
  have t4: "tree_at s4 (Some b) (Node t2 a t3)" "tree_at s4 (Some b) t1"
    using s3 d by (auto simp: s4_def)
  have b4: "s4 b = Some \<lparr>parent = par, left = root_of t1, right = Some a,
      height = aux_height (Node t1 b t2), cnt = aux_cnt (Node t1 b t2)\<rparr>"
    using d by (auto simp: s4_def s3_def)
  define s5 where "s5 = s4(b \<mapsto> \<lparr>parent = par, left = root_of t1, right = Some a,
      height = aux_height (Node t1 b (Node t2 a t3)), cnt = aux_cnt (Node t1 b (Node t2 a t3))\<rparr>)"
  have u5: "avl_update s4 b = Some s5"
    by (subst avl_update_at [OF b4 _ _ t4(2,1)]) (use sz in \<open>auto simp: s5_def\<close>)
  have t5: "tree_at s5 par (Node t1 b (Node t2 a t3))"
    using t4 d by (auto simp: s5_def simp del: tree_at.simps(2)) (auto simp: s4_def)
  have "rot_right s a = Some (s5, b)"
    using a b d s2a(1,2) s2(1) u4 u5
    by (auto simp: rot_right_def Let_def s1_def s3_def)
  moreover have "same_outside (insert a (nodes (Node t1 b t2))) s s5"
    using s2(3) by (auto simp: same_outside_def s5_def s4_def s3_def s1_def)
  ultimately show ?thesis using t5 by blast
qed

text \<open>
  The code has each routine twice, with left and right exchanged. The facts about one are
  carried to the other through the mirror image of a store.
\<close>

definition mir_node :: "avlnode \<Rightarrow> avlnode" where
  "mir_node n = \<lparr>parent = parent n, left = right n, right = left n, height = height n, cnt = cnt n\<rparr>"

definition mir :: "astore \<Rightarrow> astore" where
  "mir s = (\<lambda>a. map_option mir_node (s a))"

fun mirror :: "ptree \<Rightarrow> ptree" where
  "mirror Leaf = Leaf"
| "mirror (Node l a r) = Node (mirror r) a (mirror l)"

lemma mir_node_sel [simp]:
  "parent (mir_node n) = parent n" "left (mir_node n) = right n" "right (mir_node n) = left n"
  "height (mir_node n) = height n" "cnt (mir_node n) = cnt n" "mir_node (mir_node n) = n"
  by (simp_all add: mir_node_def)

lemma mir_apply: "mir s a = map_option mir_node (s a)"
  by (simp add: mir_def)

lemma mir_mir [simp]: "mir (mir s) = s"
  by (auto simp: mir_def fun_eq_iff option.map_comp comp_def option.map_ident)

lemma mir_upd: "mir (s(a \<mapsto> n)) = (mir s)(a \<mapsto> mir_node n)"
  by (auto simp: mir_def)

lemma mirror_simps [simp]:
  "mirror (mirror t) = t" "ht (mirror t) = ht t" "inorder (mirror t) = rev (inorder t)"
  "root_of (mirror t) = root_of t"
  by (induction t) auto

lemma aux_mirror [simp]: "aux_height (mirror t) = aux_height t" "aux_cnt (mirror t) = aux_cnt t"
  by (simp_all add: aux_height_def aux_cnt_def)

lemma aux_swap:
  "aux_height (Node (mirror r) a (mirror l)) = aux_height (Node l a r)"
  "aux_cnt (Node (mirror r) a (mirror l)) = aux_cnt (Node l a r)"
  using aux_mirror [of "Node l a r"] by simp_all

lemma mir_Some: "mir s a = Some n \<longleftrightarrow> s a = Some (mir_node n)"
  by (cases "s a") (auto simp: mir_apply)

lemma tree_at_mir [simp]: "tree_at (mir s) par (mirror t) = tree_at s par t"
  by (induction s par t rule: tree_at.induct) (auto simp: mir_Some aux_swap mir_node_def)

lemma open_at_mir [simp]: "open_at (mir s) par (mirror r) a (mirror l) = open_at s par l a r"
  by (auto simp: open_at_def mir_Some mir_node_def)

lemma same_outside_mir [simp]: "same_outside A (mir s) (mir s') = same_outside A s s'"
  by (auto simp: same_outside_def mir_apply) (metis mir_mir mir_apply)

lemma modify_mir:
  assumes "\<And>n. f (mir_node n) = mir_node (g n)"
  shows "modify (mir s) a f = map_option mir (modify s a g)"
  using assms by (auto simp: modify_def mir_apply mir_upd split: option.splits)

lemma modify_mir_simps [simp]:
  "modify (mir s) a (\<lambda>n. n\<lparr>parent := p\<rparr>) = map_option mir (modify s a (\<lambda>n. n\<lparr>parent := p\<rparr>))"
  "modify (mir s) a (\<lambda>n. n\<lparr>left := p\<rparr>) = map_option mir (modify s a (\<lambda>n. n\<lparr>right := p\<rparr>))"
  "modify (mir s) a (\<lambda>n. n\<lparr>right := p\<rparr>) = map_option mir (modify s a (\<lambda>n. n\<lparr>left := p\<rparr>))"
  "modify (mir s) a (\<lambda>n. n\<lparr>height := h, cnt := c\<rparr>) = map_option mir (modify s a (\<lambda>n. n\<lparr>height := h, cnt := c\<rparr>))"
  by (rule modify_mir, simp add: mir_node_def)+

lemma set_parent_mir [simp]: "set_parent (mir s) p q = map_option mir (set_parent s p q)"
  by (simp add: set_parent_def split: option.split)

lemma avl_height_mir [simp]: "avl_height (mir s) p = avl_height s p"
  by (auto simp: avl_height_def mir_apply split: option.split bind_splits)

lemma avl_cnt_mir [simp]: "avl_cnt (mir s) p = avl_cnt s p"
  by (auto simp: avl_cnt_def mir_apply split: option.split bind_splits)

lemma max_u32_commute: "max_u32 x y = max_u32 y x"
  by (auto simp: max_u32_def)

lemma avl_update_mir [simp]: "avl_update (mir s) a = map_option mir (avl_update s a)"
  by (auto simp: avl_update_def mir_apply max_u32_commute add_ac split: bind_splits
      intro!: Option.bind_option_cong)

lemma rot_left_mir: "rot_left (mir s) a = map_option (map_prod mir id) (rot_right s a)"
  unfolding rot_left_def rot_right_def
  by (auto simp: mir_apply Let_def Option.map_option_bind comp_def bind_map_option)

lemma rot_left_at:
  assumes "open_at s par t1 a (Node t2 b t3)" and "distinct (inorder (Node t1 a (Node t2 b t3)))"
    and "tsize (Node t1 a (Node t2 b t3)) < 2 ^ 32"
  shows "\<exists>s'. rot_left s a = Some (s', b) \<and> tree_at s' par (Node (Node t1 a t2) b t3) \<and>
    same_outside (insert a (nodes (Node t2 b t3))) s s'"
proof -
  have "open_at (mir s) par (Node (mirror t3) b (mirror t2)) a (mirror t1)"
    using assms(1) open_at_mir [of s par "Node t2 b t3" a t1] by simp
  then obtain s' where s': "rot_right (mir s) a = Some (s', b)"
    "tree_at s' par (Node (mirror t3) b (Node (mirror t2) a (mirror t1)))"
    "same_outside (insert a (nodes (Node t2 b t3))) (mir s) s'"
    using rot_right_at [of "mir s" par "mirror t3" b "mirror t2" a "mirror t1"] assms(2,3)
    by (auto simp: ac_simps insert_commute)
  have "rot_left s a = Some (mir s', b)"
    using rot_left_mir [of "mir s" a] s'(1) by simp
  moreover have "tree_at (mir s') par (Node (Node t1 a t2) b t3)"
    using tree_at_mir [of s' par "Node (mirror t3) b (Node (mirror t2) a (mirror t1))"] s'(2) by simp
  moreover have "same_outside (insert a (nodes (Node t2 b t3))) s (mir s')"
    using s'(3) same_outside_mir [of _ "mir s" s'] by simp
  ultimately show ?thesis by blast
qed

lemma tree_open: "tree_at s par (Node l a r) \<Longrightarrow> open_at s par l a r"
  by (auto simp: open_at_def)

lemma avl_fix_left_at:
  assumes o: "open_at s par l a r" and d: "distinct (inorder (Node l a r))"
    and sz: "tsize (Node l a r) < 2 ^ 32" and h: "ht l = ht r + 2"
  shows "\<exists>s' b. avl_fix_left s a = Some (s', b) \<and> root_of (fix_left l a r) = Some b \<and>
    tree_at s' par (fix_left l a r) \<and> same_outside (nodes (Node l a r)) s s'"
proof -
  obtain ll b lr where l: "l = Node ll b lr" using h by (cases l) auto
  obtain h0 c0 where a: "s a = Some \<lparr>parent = par, left = Some b, right = root_of r, height = h0, cnt = c0\<rparr>"
    and t: "tree_at s (Some a) (Node ll b lr)" "tree_at s (Some a) r"
    using o l by (auto simp: open_at_def)
  have b: "s b = Some \<lparr>parent = Some a, left = root_of ll, right = root_of lr,
      height = aux_height l, cnt = aux_cnt l\<rparr>" using t l by simp
  have hs: "avl_height s (root_of ll) = Some (aux_height ll)" "avl_height s (root_of lr) = Some (aux_height lr)"
    "aux_height ll < aux_height lr \<longleftrightarrow> ht ll < ht lr"
    using t sz l by (auto simp: aux_height_less)
  show ?thesis
  proof (cases "ht ll < ht lr")
    case False
    then show ?thesis
      using rot_right_at [of s par ll b lr a r] o d sz a b hs l
      by (auto simp: avl_fix_left_def intro: same_outside_mono)
  next
    case True
    then obtain t1 c t2 where lr: "lr = Node t1 c t2" by (cases lr) auto
    obtain s1 where s1: "rot_left s b = Some (s1, c)" "tree_at s1 (Some a) (Node (Node ll b t1) c t2)"
      "same_outside (nodes l) s s1"
    proof -
      have "open_at s (Some a) ll b (Node t1 c t2)" using tree_open [OF t(1)] lr by simp
      then show ?thesis
        using rot_left_at [of s "Some a" ll b t1 c t2] d sz l lr that
        by (auto intro: same_outside_mono)
    qed
    have s1a: "s1 a = s a" "tree_at s1 (Some a) r"
      using same_outsideD [OF s1(3)] d t l by (auto intro!: tree_at_frame [OF _ s1(3)])
    define s2 where "s2 = s1(a \<mapsto> \<lparr>parent = par, left = Some c, right = root_of r, height = h0, cnt = c0\<rparr>)"
    have "open_at s2 par (Node (Node ll b t1) c t2) a r"
      using s1 s1a d l lr by (auto simp: open_at_def s2_def)
    then obtain s3 where s3: "rot_right s2 a = Some (s3, c)"
      "tree_at s3 par (Node (Node ll b t1) c (Node t2 a r))"
      "same_outside (insert a (nodes (Node (Node ll b t1) c t2))) s2 s3"
      using rot_right_at [of s2 par "Node ll b t1" c t2 a r] d sz l lr by auto
    have "avl_fix_left s a = Some (s3, c)"
      using True a b hs s1(1) s1a(1) s3(1) by (simp add: avl_fix_left_def s2_def)
    moreover have "same_outside (nodes (Node l a r)) s s3"
      using s1(3) s3(3) l lr by (auto simp: same_outside_def s2_def)
    ultimately show ?thesis using s3(2) True l lr by simp
  qed
qed

lemma rot_right_mir: "rot_right (mir s) a = map_option (map_prod mir id) (rot_left s a)"
  using rot_left_mir [of "mir s" a]
  by (simp add: option.map_comp comp_def prod.map_comp option.map_ident map_prod_def case_prod_beta)

lemma avl_fix_right_mir: "avl_fix_right (mir s) a = map_option (map_prod mir id) (avl_fix_left s a)"
proof -
  have step: "rot_right (mir s) x \<bind> (\<lambda>(s, r'). modify s a (\<lambda>n. n\<lparr>right := Some r'\<rparr>)) =
      map_option mir (rot_left s x \<bind> (\<lambda>(s, l'). modify s a (\<lambda>n. n\<lparr>left := Some l'\<rparr>)))" for x
    by (auto simp: rot_right_mir bind_map_option map_option_bind comp_def case_prod_beta)
  have mid: "(if b then rot_right (mir s) x \<bind> (\<lambda>(s, r'). modify s a (\<lambda>n. n\<lparr>right := Some r'\<rparr>))
       else Some (mir s)) =
      map_option mir (if b then rot_left s x \<bind> (\<lambda>(s, l'). modify s a (\<lambda>n. n\<lparr>left := Some l'\<rparr>))
       else Some s)" for b x
    by (simp add: step)
  show ?thesis
    unfolding avl_fix_right_def avl_fix_left_def
    by (auto simp: mir_apply map_option_bind comp_def bind_map_option mid rot_left_mir
        intro!: Option.bind_option_cong)
qed

lemma fix_right_mirror: "fix_right l a r = mirror (fix_left (mirror r) a (mirror l))"
proof -
  have rotL: "rotL t1 b t2 = mirror (rotR (mirror t2) b (mirror t1))" for t1 b t2 by (cases t2) auto
  have rotR: "rotR t1 b t2 = mirror (rotL (mirror t2) b (mirror t1))" for t1 b t2 by (cases t1) auto
  show ?thesis by (cases r) (auto simp: rotL rotR [of _ _ Leaf] simp del: rotL.simps rotR.simps)
qed

lemma avl_fix_right_at:
  assumes "open_at s par l a r" and "distinct (inorder (Node l a r))"
    and "tsize (Node l a r) < 2 ^ 32" and "ht l + 2 = ht r"
  shows "\<exists>s' b. avl_fix_right s a = Some (s', b) \<and> root_of (fix_right l a r) = Some b \<and>
    tree_at s' par (fix_right l a r) \<and> same_outside (nodes (Node l a r)) s s'"
proof -
  let ?t = "fix_left (mirror r) a (mirror l)"
  obtain s' b where s': "avl_fix_left (mir s) a = Some (s', b)" "root_of ?t = Some b"
    "tree_at s' par ?t" "same_outside (nodes (Node l a r)) (mir s) s'"
    using avl_fix_left_at [of "mir s" par "mirror r" a "mirror l"] assms by (auto simp: Un_commute)
  have "avl_fix_right s a = Some (mir s', b)"
    using avl_fix_right_mir [of "mir s" a] s'(1) by simp
  moreover have "tree_at (mir s') par (fix_right l a r)"
    using tree_at_mir [of s' par ?t] s'(3) by (simp add: fix_right_mirror)
  moreover have "same_outside (nodes (Node l a r)) s (mir s')"
    using s'(4) same_outside_mir [of _ "mir s" s'] by simp
  ultimately show ?thesis using s'(2) by (auto simp: fix_right_mirror)
qed

section \<open>Rebalancing up to the root\<close>

text \<open>The slot that points to the subtree below a path.\<close>

fun ctx_slot :: "step list \<Rightarrow> aslot" where
  "ctx_slot [] = Local"
| "ctx_slot (FL a r # c) = LeftOf a"
| "ctx_slot (FR l a # c) = RightOf a"

lemma read_ctx_slot: "ctx_at s p c \<Longrightarrow> (c = [] \<Longrightarrow> root = p) \<Longrightarrow> read_aslot s root (ctx_slot c) = Some p"
  by (cases c rule: ctx_slot.cases) auto

lemma incoming_at:
  assumes "ctx_at s (Some a) c" and "a \<notin> ctx_nodes c"
  shows "incoming s (ctx_par c) a = Some (ctx_slot c)"
proof (cases c rule: ctx_slot.cases)
  case (3 l b d)
  then have "root_of l \<noteq> Some a" using assms(2) by simp
  then show ?thesis using assms(1) 3 by (auto simp: incoming_def)
qed (use assms(1) in \<open>auto simp: incoming_def\<close>)

text \<open>Writing the slot makes the new child pointer the innermost one of the path.\<close>

lemma assign_at:
  assumes "ctx_at s p c" and "distinct (before c @ after c)"
  shows "\<exists>s'. assign_slot s loc (ctx_slot c) v = Some (s', if c = [] then v else loc) \<and>
    ctx_at s' v c \<and> same_outside (ctx_nodes c) s s' \<and> (c = [] \<longrightarrow> s' = s)"
proof (cases c rule: ctx_slot.cases)
  case (2 a r d)
  then have "a \<notin> ctx_nodes d" "a \<notin> nodes r" using assms(2) by (auto simp: set_before_after [symmetric])
  then show ?thesis using assms(1) 2 by auto
next
  case (3 l a d)
  then have "a \<notin> ctx_nodes d" "a \<notin> nodes l" using assms(2) by (auto simp: set_before_after [symmetric])
  then show ?thesis using assms(1) 3 by auto
qed simp

text \<open>One level: refresh the cached fields, then rotate if the heights differ by two.\<close>

definition fix_node :: "astore \<Rightarrow> ptr \<Rightarrow> addr \<Rightarrow> aslot \<Rightarrow> (astore \<times> ptr) option" where
  "fix_node s par node from = do {
     s \<leftarrow> avl_update s node;
     n \<leftarrow> s node;
     l \<leftarrow> avl_height s (left n);
     r \<leftarrow> avl_height s (right n);
     if l = r + 2 then do { (s, t) \<leftarrow> avl_fix_left s node; assign_slot s (Some node) from (Some t) }
     else if l + 2 = r then do { (s, t) \<leftarrow> avl_fix_right s node; assign_slot s (Some node) from (Some t) }
     else Some (s, Some node) }"

lemma avl_fix_unfold:
  "avl_fix s node = do {
     n \<leftarrow> s node;
     from \<leftarrow> incoming s (parent n) node;
     (s, loc) \<leftarrow> fix_node s (parent n) node from;
     case parent n of None \<Rightarrow> Some (s, loc) | Some p \<Rightarrow> avl_fix s p }"
  by (subst avl_fix.simps) (simp add: fix_node_def Let_def)

lemma distinct_ctx:
  "distinct (before c @ inorder t @ after c) \<longleftrightarrow>
   distinct (inorder t) \<and> distinct (before c @ after c) \<and> nodes t \<inter> ctx_nodes c = {}"
  by (auto simp: set_before_after [symmetric])

lemma fix_node_at:
  assumes o: "open_at s (ctx_par c) l a r" and c: "ctx_at s (Some a) c"
    and d: "distinct (before c @ inorder (Node l a r) @ after c)"
    and sz: "tsize (Node l a r) \<le> avl_max"
  shows "\<exists>s'. fix_node s (ctx_par c) a (ctx_slot c) =
      Some (s', if c = [] then root_of (rebalance l a r) else Some a) \<and>
    tree_at s' (ctx_par c) (rebalance l a r) \<and> ctx_at s' (root_of (rebalance l a r)) c \<and>
    same_outside (nodes (Node l a r) \<union> ctx_nodes c) s s'"
proof -
  let ?A = "nodes (Node l a r)"
  have dt: "distinct (inorder (Node l a r))" and dc: "distinct (before c @ after c)"
    and dj: "?A \<inter> ctx_nodes c = {}" using d unfolding distinct_ctx by blast+
  have sz2: "tsize (Node l a r) < 2 ^ 32" "tsize l + 2 < 2 ^ 32" "tsize r + 2 < 2 ^ 32"
    using sz by (auto simp: avl_max_def)
  obtain h0 c0 where sa: "s a = Some \<lparr>parent = ctx_par c, left = root_of l, right = root_of r,
      height = h0, cnt = c0\<rparr>" and t: "tree_at s (Some a) l" "tree_at s (Some a) r"
    using o by (auto simp: open_at_def)
  define s1 where "s1 = s(a \<mapsto> \<lparr>parent = ctx_par c, left = root_of l, right = root_of r,
      height = aux_height (Node l a r), cnt = aux_cnt (Node l a r)\<rparr>)"
  have u1: "avl_update s a = Some s1"
    by (subst avl_update_at [OF sa _ _ t]) (use sz2 in \<open>auto simp: s1_def\<close>)
  have t1: "tree_at s1 (ctx_par c) (Node l a r)" and c1: "ctx_at s1 (Some a) c"
    and f1: "same_outside (?A \<union> ctx_nodes c) s s1"
    using t dt c dj by (auto simp: s1_def)
  have o1: "open_at s1 (ctx_par c) l a r" by (rule tree_open [OF t1])
  have hs: "avl_height s1 (root_of l) = Some (aux_height l)"
    "avl_height s1 (root_of r) = Some (aux_height r)" using t1 by auto
  note two = aux_height_two [of l r] aux_height_two [of r l]
  have attach: "\<exists>s3. assign_slot s2 (Some a) (ctx_slot c) (root_of t) =
        Some (s3, if c = [] then root_of t else Some a) \<and> tree_at s3 (ctx_par c) t \<and>
        ctx_at s3 (root_of t) c \<and> same_outside (?A \<union> ctx_nodes c) s s3"
    if t2: "tree_at s2 (ctx_par c) t" "same_outside ?A s1 s2" "nodes t = ?A" for t s2
  proof -
    have "ctx_at s2 (Some a) c" using ctx_at_frame [OF c1 t2(2)] dj by simp
    from assign_at [OF this dc, of "Some a" "root_of t"] obtain s3 where
      s3: "assign_slot s2 (Some a) (ctx_slot c) (root_of t) = Some (s3, if c = [] then root_of t else Some a)"
        "ctx_at s3 (root_of t) c" "same_outside (ctx_nodes c) s2 s3" by blast
    have "tree_at s3 (ctx_par c) t" using tree_at_frame [OF t2(1) s3(3)] dj t2(3) by auto
    moreover have "same_outside (?A \<union> ctx_nodes c) s s3"
      using f1 t2(2) s3(3) by (auto simp: same_outside_def)
    ultimately show ?thesis using s3 by blast
  qed
  consider "ht l = ht r + 2" | "ht l + 2 = ht r" | "ht l \<noteq> ht r + 2" "ht l + 2 \<noteq> ht r" by blast
  then show ?thesis
  proof cases
    case 1
    then have reb: "rebalance l a r = fix_left l a r" by (simp add: rebalance_def)
    obtain s2 b where s2: "avl_fix_left s1 a = Some (s2, b)" "root_of (fix_left l a r) = Some b"
      "tree_at s2 (ctx_par c) (fix_left l a r)" "same_outside ?A s1 s2"
      using avl_fix_left_at [OF o1 dt sz2(1) 1] by blast
    have "nodes (rebalance l a r) = ?A" by simp
    with attach [OF s2(3,4)] reb s2(1,2) show ?thesis
      using hs two sz2 1 u1 by (auto simp: fix_node_def s1_def)
  next
    case 2
    then have reb: "rebalance l a r = fix_right l a r" by (simp add: rebalance_def)
    obtain s2 b where s2: "avl_fix_right s1 a = Some (s2, b)" "root_of (fix_right l a r) = Some b"
      "tree_at s2 (ctx_par c) (fix_right l a r)" "same_outside ?A s1 s2"
      using avl_fix_right_at [OF o1 dt sz2(1) 2] by blast
    have "nodes (rebalance l a r) = ?A" by simp
    with attach [OF s2(3,4)] reb s2(1,2) show ?thesis
      using hs two sz2 2 u1 by (auto simp: fix_node_def s1_def)
  next
    case 3
    then have reb: "rebalance l a r = Node l a r" by (simp add: rebalance_def)
    then show ?thesis using 3 hs two sz2 u1 t1 c1 f1 by (auto simp: fix_node_def s1_def)
  qed
qed

lemma ctx_open:
  "tree_at s (ctx_par (FL a r # c)) t \<Longrightarrow> ctx_at s (root_of t) (FL a r # c) \<Longrightarrow> open_at s (ctx_par c) t a r"
  "tree_at s (ctx_par (FR l a # c)) t \<Longrightarrow> ctx_at s (root_of t) (FR l a # c) \<Longrightarrow> open_at s (ctx_par c) l a t"
  by (auto simp: open_at_def)

lemma avl_fix_at:
  assumes "open_at s (ctx_par c) l a r" and "ctx_at s (Some a) c"
    and "distinct (before c @ inorder (Node l a r) @ after c)"
    and "length (before c @ inorder (Node l a r) @ after c) \<le> avl_max"
  shows "\<exists>s'. avl_fix s a = Some (s', root_of (fix_up (rebalance l a r) c)) \<and>
    tree_at s' None (fix_up (rebalance l a r) c) \<and>
    same_outside (nodes (Node l a r) \<union> ctx_nodes c) s s'"
  using assms
proof (induction c arbitrary: s l a r)
  case Nil
  obtain n where n: "s a = Some n" "parent n = None"
    using Nil.prems(1) by (auto simp: open_at_def)
  obtain s1 where "fix_node s None a Local = Some (s1, root_of (rebalance l a r))"
    "tree_at s1 None (rebalance l a r)" "same_outside (nodes (Node l a r)) s s1"
    using fix_node_at [of s "[]" l a r] Nil.prems by auto
  then show ?case
    using n by (subst avl_fix_unfold) (auto simp: incoming_def)
next
  case (Cons x c)
  let ?t = "rebalance l a r" and ?A = "nodes (Node l a r)"
  have "a \<notin> ctx_nodes (x # c)" using Cons.prems(3) by (auto simp: set_before_after [symmetric])
  note inc = incoming_at [OF Cons.prems(2) this]
  obtain n where n: "s a = Some n" "parent n = ctx_par (x # c)"
    using Cons.prems(1) by (auto simp: open_at_def)
  obtain s1 where s1: "fix_node s (ctx_par (x # c)) a (ctx_slot (x # c)) = Some (s1, Some a)"
    "tree_at s1 (ctx_par (x # c)) ?t" "ctx_at s1 (root_of ?t) (x # c)"
    "same_outside (?A \<union> ctx_nodes (x # c)) s s1"
    using fix_node_at [OF Cons.prems(1-3)] Cons.prems(4) by auto
  have unf: "avl_fix s a = (case ctx_par (x # c) of None \<Rightarrow> Some (s1, Some a) | Some p \<Rightarrow> avl_fix s1 p)"
    using n inc s1(1) by (subst avl_fix_unfold) simp
  have up: ?case
    if o: "open_at s1 (ctx_par c) l' p r'" and p: "ctx_at s1 (Some p) c" "ctx_par (x # c) = Some p"
      and io: "before c @ inorder (Node l' p r') @ after c =
        before (x # c) @ inorder (Node l a r) @ after (x # c)"
      and f: "fix_up (rebalance l a r) (x # c) = fix_up (rebalance l' p r') c"
      and nd: "nodes (Node l' p r') \<union> ctx_nodes c = ?A \<union> ctx_nodes (x # c)" for l' p r'
  proof -
    obtain s2 where "avl_fix s1 p = Some (s2, root_of (fix_up (rebalance l' p r') c))"
      "tree_at s2 None (fix_up (rebalance l' p r') c)"
      "same_outside (?A \<union> ctx_nodes (x # c)) s1 s2"
      using Cons.IH [OF o p(1)] Cons.prems(3,4) unfolding io nd by blast
    then show ?thesis using unf p(2) f same_outside_trans [OF s1(4)] by simp
  qed
  show ?case
  proof (cases x)
    case (FL p r')
    show ?thesis
      by (rule up [of ?t p r']) (use s1 FL ctx_open(1) in auto)
  next
    case (FR l' p)
    show ?thesis
      by (rule up [of l' p ?t]) (use s1 FR ctx_open(2) in auto)
  qed
qed

section \<open>Insertion\<close>

text \<open>
  A new leaf is put into an empty slot and the tree is rebalanced from it. The caller finds the
  slot and links the leaf; what it needs is that the path is in the store.
\<close>

lemma avl_insert_at:
  assumes c: "ctx_at s (Some a) c" and a: "s a = Some (avl_init\<lparr>parent := ctx_par c\<rparr>)"
    and d: "distinct (before c @ a # after c)" and sz: "length (before c @ a # after c) \<le> avl_max"
    and b: "bal (plug Leaf c)"
  shows "\<exists>s' p. avl_fix s a = Some (s', p) \<and> avl_rep s' p (before c @ a # after c) \<and>
    same_outside (insert a (ctx_nodes c)) s s'"
proof -
  have "open_at s (ctx_par c) Leaf a Leaf" using a by (simp add: open_at_def avl_init_def)
  with avl_fix_at [of s c Leaf a Leaf] c d sz obtain s' where
    s': "avl_fix s a = Some (s', root_of (fix_up (rebalance Leaf a Leaf) c))"
      "tree_at s' None (fix_up (rebalance Leaf a Leaf) c)"
      "same_outside (insert a (ctx_nodes c)) s s'" by auto
  have "bal (fix_up (rebalance Leaf a Leaf) c)"
    by (rule bal_fix_up [of _ 0]) (use b in \<open>auto simp: bal_plug rebalance_def\<close>)
  then show ?thesis using s' d sz by (auto simp: avl_rep_def)
qed

text \<open>The whole step: the empty slot at the end of a path is assigned, the parent pointer set, the tree fixed.\<close>

lemma link_leaf_at:
  assumes t: "tree_at s None t" "bal t" "distinct (inorder t)" "tsize t < avl_max" and d: "plug Leaf d = t"
    and x: "s x = Some avl_init" "x \<notin> nodes t"
  shows "\<exists>s1 root1 s2 root. assign_slot s loc (ctx_slot d) (Some x) = Some (s1, root1) \<and> s1 x = Some avl_init \<and>
    avl_fix (s1(x \<mapsto> avl_init\<lparr>parent := ctx_par d\<rparr>)) x = Some (s2, root) \<and>
    avl_rep s2 root (before d @ x # after d) \<and> same_outside (insert x (nodes t)) s s2"
proof -
  have xs: "inorder t = before d @ after d" using d inorder_plug [of Leaf d] by simp
  then have nodes: "nodes t = ctx_nodes d" by (simp add: set_before_after)
  have c0: "ctx_at s None d" using t(1) d tree_at_plug [of s Leaf d] by simp
  obtain s1 root1 where s1: "assign_slot s loc (ctx_slot d) (Some x) = Some (s1, root1)"
    "ctx_at s1 (Some x) d" "same_outside (ctx_nodes d) s s1"
    using assign_at [OF c0, of loc "Some x"] t(3) xs by auto
  have s1x: "s1 x = Some avl_init" using same_outsideD [OF s1(3)] x nodes by simp
  have c2: "ctx_at (s1(x \<mapsto> avl_init\<lparr>parent := ctx_par d\<rparr>)) (Some x) d" using s1(2) x(2) nodes by simp
  obtain s2 root where s2: "avl_fix (s1(x \<mapsto> avl_init\<lparr>parent := ctx_par d\<rparr>)) x = Some (s2, root)"
    "avl_rep s2 root (before d @ x # after d)"
    "same_outside (insert x (ctx_nodes d)) (s1(x \<mapsto> avl_init\<lparr>parent := ctx_par d\<rparr>)) s2"
    using avl_insert_at [OF c2] t(2-4) d xs x(2) by auto
  have "same_outside (insert x (nodes t)) s s2"
    using s1(3) s2(3) nodes by (auto simp: same_outside_def)
  then show ?thesis using s1(1) s1x s2(1,2) by blast
qed

section \<open>Deletion\<close>

text \<open>Rebalancing from the parent of a changed subtree.\<close>

lemma avl_fix_parent:
  assumes t: "tree_at s (ctx_par c) t" and c: "ctx_at s (root_of t) c" and p: "ctx_par c = Some p"
    and d: "distinct (before c @ inorder t @ after c)"
    and sz: "length (before c @ inorder t @ after c) \<le> avl_max"
  shows "\<exists>s'. avl_fix s p = Some (s', root_of (fix_up t c)) \<and> tree_at s' None (fix_up t c) \<and>
    same_outside (nodes t \<union> ctx_nodes c) s s'"
proof (cases c rule: ctx_slot.cases)
  case (2 a r e)
  then show ?thesis
    using avl_fix_at [OF ctx_open(1) [of s a r e t]] t c p d sz by (auto simp: Un_assoc)
next
  case (3 l a e)
  then show ?thesis
    using avl_fix_at [OF ctx_open(2) [of s l a e t]] t c p d sz by (auto simp: ac_simps)
qed (use p in simp)

lemma avl_del_easy_at:
  assumes t: "tree_at s (ctx_par c) (Node l a r)" and c: "ctx_at s (Some a) c"
    and e: "l = Leaf \<and> t = r \<or> r = Leaf \<and> t = l"
    and d: "distinct (before c @ inorder (Node l a r) @ after c)"
    and sz: "length (before c @ inorder t @ after c) \<le> avl_max"
  shows "\<exists>s'. avl_del_easy s a = Some (s', root_of (fix_up t c)) \<and> tree_at s' None (fix_up t c) \<and>
    same_outside (nodes t \<union> ctx_nodes c) s s'"
proof -
  have dt: "distinct (inorder t)" "nodes t \<inter> ctx_nodes c = {}" "a \<notin> ctx_nodes c"
    "distinct (before c @ after c)"
    using d e unfolding distinct_ctx by auto
  have n: "s a = Some \<lparr>parent = ctx_par c, left = root_of l, right = root_of r,
      height = aux_height (Node l a r), cnt = aux_cnt (Node l a r)\<rparr>" using t by simp
  have child: "(if root_of l \<noteq> None then root_of l else root_of r) = root_of t" using e by auto
  have "tree_at s (Some a) t" using t e by auto
  then obtain s1 where s1: "set_parent s (root_of t) (ctx_par c) = Some s1"
    "tree_at s1 (ctx_par c) t" "same_outside (nodes t) s s1"
    using set_parent_at dt(1) by blast
  have c1: "ctx_at s1 (Some a) c" using ctx_at_frame [OF c s1(3) dt(2)] .
  have unf: "avl_del_easy s a = (case ctx_par c of None \<Rightarrow> Some (s1, root_of t)
      | Some p \<Rightarrow> do { from \<leftarrow> incoming s1 (Some p) a; (s, _) \<leftarrow> assign_slot s1 None from (root_of t); avl_fix s p })"
    unfolding avl_del_easy_def Let_def n using s1(1) child e
    by (auto simp: bind_eq_Some_conv split: option.splits)
  show ?thesis
  proof (cases "ctx_par c")
    case None
    then have "c = []" by (cases c rule: ctx_slot.cases) auto
    then show ?thesis using s1 unf by auto
  next
    case (Some p)
    obtain s2 where s2: "assign_slot s1 None (ctx_slot c) (root_of t) = Some (s2, if c = [] then root_of t else None)"
      "ctx_at s2 (root_of t) c" "same_outside (ctx_nodes c) s1 s2"
      using assign_at [OF c1 dt(4)] by blast
    have "tree_at s2 (ctx_par c) t"
      using tree_at_frame [OF s1(2) s2(3)] dt(2) by auto
    from avl_fix_parent [OF this s2(2) Some] obtain s3 where
      s3: "avl_fix s2 p = Some (s3, root_of (fix_up t c))" "tree_at s3 None (fix_up t c)"
        "same_outside (nodes t \<union> ctx_nodes c) s2 s3"
      using d e sz unfolding distinct_ctx by auto
    have "incoming s1 (Some p) a = Some (ctx_slot c)" using incoming_at [OF c1 dt(3)] Some by simp
    then have "avl_del_easy s a = Some (s3, root_of (fix_up t c))"
      using unf Some s2(1) s3(1) by simp
    moreover have "same_outside (nodes t \<union> ctx_nodes c) s s3"
      using s1(3) s2(3) s3(3) by (auto simp: same_outside_def)
    ultimately show ?thesis using s3(2) by blast
  qed
qed

text \<open>The leftmost node of a non-empty tree.\<close>

fun left_path :: "ptree \<Rightarrow> step list" where
  "left_path (Node (Node ll b lr) a r) = left_path (Node ll b lr) @ [FL a r]"
| "left_path t = []"

fun leftmost :: "ptree \<Rightarrow> addr \<times> ptree" where
  "leftmost (Node (Node ll b lr) a r) = leftmost (Node ll b lr)"
| "leftmost (Node Leaf a r) = (a, r)"
| "leftmost Leaf = (0, Leaf)"

lemma leftmost_plug:
  "t \<noteq> Leaf \<Longrightarrow> leftmost t = (v, r) \<Longrightarrow> t = plug (Node Leaf v r) (left_path t)"
  by (induction t rule: leftmost.induct) (auto simp: plug_append)

lemma left_path_before [simp]: "before (left_path t) = []"
  by (induction t rule: left_path.induct) (auto simp: before_append)

lemma avl_leftmost_at:
  "tree_at s par t \<Longrightarrow> root_of t = Some a \<Longrightarrow> avl_leftmost s a = Some (fst (leftmost t))"
proof (induction t arbitrary: par a rule: leftmost.induct)
  case (1 ll b lr a' r)
  have "avl_leftmost s b = Some (fst (leftmost (Node ll b lr)))"
    by (rule 1(1) [of "Some a'"]) (use 1 in auto)
  then show ?case using 1 by (subst avl_leftmost.simps) auto
next
  case (2 a' r)
  then show ?case by (subst avl_leftmost.simps) auto
qed simp

lemma aux_ok_cong: "ht t = ht t' \<Longrightarrow> tsize t = tsize t' \<Longrightarrow> aux_ok s t c = aux_ok s t' c"
proof (induction c arbitrary: t t')
  case (Cons x c)
  have *: "ht (Node t a u) = ht (Node t' a u)" "tsize (Node t a u) = tsize (Node t' a u)"
    "ht (Node u a t) = ht (Node u a t')" "tsize (Node u a t) = tsize (Node u a t')" for a u
    using Cons.prems by auto
  show ?case
    by (cases x) (use Cons.IH [OF *(1,2)] Cons.IH [OF *(3,4)] * in \<open>simp_all add: aux_height_def aux_cnt_def del: ht.simps inorder.simps\<close>)
qed simp

lemma aux_ok_frame:
  "aux_ok s t c \<Longrightarrow> same_outside A s s' \<Longrightarrow> A \<inter> ctx_nodes c = {} \<Longrightarrow> aux_ok s' t c"
  by (induction s t c rule: aux_ok.induct) (auto simp: same_outside_def)

lemma aux_ok_upd:
  "s p = Some n \<Longrightarrow> height n' = height n \<Longrightarrow> cnt n' = cnt n \<Longrightarrow> aux_ok (s(p \<mapsto> n')) t c = aux_ok s t c"
  by (induction s t c rule: aux_ok.induct) auto

lemma aux_ok_assign: "assign_slot s loc sl v = Some (s', loc') \<Longrightarrow> aux_ok s' t c = aux_ok s t c"
  by (cases sl) (auto simp: bind_eq_Some_conv modify_eq_Some aux_ok_upd)

lemma root_of_plug: "c \<noteq> [] \<Longrightarrow> root_of (plug t c) = root_of (plug t' c)"
proof (induction c arbitrary: t t')
  case (Cons x c)
  then show ?case by (cases x; cases "c = []") auto
qed simp

text \<open>Node \<open>v\<close>, outside the tree, takes the place of node \<open>a\<close>: the second half of \<open>avl_del\<close>.\<close>

definition replace_node :: "astore \<Rightarrow> addr \<Rightarrow> addr \<Rightarrow> ptr \<Rightarrow> (astore \<times> ptr) option" where
  "replace_node s node victim root = do {
     n \<leftarrow> s node;
     s \<leftarrow> modify s victim (\<lambda>_. n);
     s \<leftarrow> set_parent s (left n) (Some victim);
     s \<leftarrow> set_parent s (right n) (Some victim);
     n \<leftarrow> s node;
     from \<leftarrow> incoming s (parent n) node;
     assign_slot s root from (Some victim) }"

lemma replace_node_at:
  assumes t: "tree_at s None (plug (Node l a r) c)" and v: "s v = Some w"
    and d: "distinct (inorder (plug (Node l a r) c))" "v \<notin> nodes (plug (Node l a r) c)"
  shows "\<exists>s'. replace_node s a v (root_of (plug (Node l a r) c)) = Some (s', root_of (plug (Node l v r) c)) \<and>
    tree_at s' None (plug (Node l v r) c) \<and> same_outside (insert v (nodes (plug (Node l a r) c))) s s'"
proof -
  have dn: "distinct (inorder (Node l a r))" "distinct (before c @ after c)"
    "nodes (Node l a r) \<inter> ctx_nodes c = {}" "v \<notin> nodes (Node l a r)" "v \<notin> ctx_nodes c"
    and N: "nodes (plug (Node l a r) c) = nodes (Node l a r) \<union> ctx_nodes c"
    using d unfolding inorder_plug distinct_ctx by (auto simp: set_before_after [symmetric])
  have ta: "tree_at s (ctx_par c) (Node l a r)" and ca: "ctx_at s (Some a) c"
    and aux: "aux_ok s (Node l a r) c" using t by (auto simp: tree_at_plug)
  define n where "n = \<lparr>parent = ctx_par c, left = root_of l, right = root_of r,
      height = aux_height (Node l a r), cnt = aux_cnt (Node l a r)\<rparr>"
  have sa: "s a = Some n" using ta by (simp add: n_def)
  define s2 where "s2 = s(v \<mapsto> n)"
  have t2: "tree_at s2 (Some a) l" "tree_at s2 (Some a) r" using ta dn(4) by (auto simp: s2_def)
  obtain s3 where s3: "set_parent s2 (root_of l) (Some v) = Some s3" "tree_at s3 (Some v) l"
    "same_outside (nodes l) s2 s3" using set_parent_at [OF t2(1)] dn(1) by auto
  have "tree_at s3 (Some a) r" using tree_at_frame [OF t2(2) s3(3)] dn(1) by auto
  then obtain s4 where s4: "set_parent s3 (root_of r) (Some v) = Some s4" "tree_at s4 (Some v) r"
    "same_outside (nodes r) s3 s4" using set_parent_at dn(1) by fastforce
  have l4: "tree_at s4 (Some v) l" using tree_at_frame [OF s3(2) s4(3)] dn(1) by auto
  have f4: "same_outside (insert v (nodes l \<union> nodes r)) s s4" "same_outside (nodes l \<union> nodes r) s2 s4"
    using s3(3) s4(3) by (auto simp: same_outside_def s2_def)
  have a4: "s4 a = Some n" "s4 v = Some n"
    using same_outsideD [OF f4(2), of a] same_outsideD [OF f4(2), of v] dn sa by (auto simp: s2_def)
  have c4: "ctx_at s4 (Some a) c" by (rule ctx_at_frame [OF ca f4(1)]) (use dn in auto)
  have "a \<notin> ctx_nodes c" using dn(3) by auto
  note inc = incoming_at [OF c4 this]
  obtain s5 where s5: "assign_slot s4 (root_of (plug (Node l a r) c)) (ctx_slot c) (Some v) =
      Some (s5, if c = [] then Some v else root_of (plug (Node l a r) c))"
    "ctx_at s5 (Some v) c" "same_outside (ctx_nodes c) s4 s5"
    using assign_at [OF c4 dn(2)] by blast
  have "tree_at s5 (ctx_par c) (Node l v r)"
  proof -
    have "s5 v = Some n" using same_outsideD [OF s5(3)] dn(5) a4(2) by simp
    moreover have "tree_at s5 (Some v) l" "tree_at s5 (Some v) r"
      using tree_at_frame [OF l4 s5(3)] tree_at_frame [OF s4(2) s5(3)] dn(3) by auto
    ultimately show ?thesis by (simp add: n_def aux_height_def aux_cnt_def)
  qed
  moreover have "aux_ok s5 (Node l v r) c"
  proof -
    have "aux_ok s4 (Node l a r) c" by (rule aux_ok_frame [OF aux f4(1)]) (use dn in auto)
    then show ?thesis using aux_ok_assign [OF s5(1)] aux_ok_cong [of "Node l v r" "Node l a r"] by simp
  qed
  ultimately have "tree_at s5 None (plug (Node l v r) c)" using s5(2) by (simp add: tree_at_plug)
  moreover have "replace_node s a v (root_of (plug (Node l a r) c)) = Some (s5, root_of (plug (Node l v r) c))"
    using sa v s3(1) s4(1) a4(1) inc s5(1) root_of_plug [of c "Node l a r" "Node l v r"]
    by (cases "c = []") (auto simp: replace_node_def n_def s2_def)
  moreover have "same_outside (insert v (nodes (plug (Node l a r) c))) s s5"
    using f4(1) s5(3) N by (auto simp: same_outside_def)
  ultimately show ?thesis by blast
qed

lemma avl_del_unfold:
  "avl_del s node = do {
     n \<leftarrow> s node;
     if left n = None \<or> right n = None then avl_del_easy s node
     else do {
       r \<leftarrow> right n;
       victim \<leftarrow> avl_leftmost s r;
       (s, root) \<leftarrow> avl_del_easy s victim;
       replace_node s node victim root } }"
  unfolding avl_del_def replace_node_def by (rule refl)

text \<open>The pointer form of deletion, with the whole tree and the path of the node.\<close>

lemma avl_del_at:
  assumes t: "tree_at s None (plug (Node l a r) c)" and b: "bal (plug (Node l a r) c)"
    and d: "distinct (inorder (plug (Node l a r) c))" and sz: "tsize (plug (Node l a r) c) \<le> avl_max"
  shows "\<exists>s' t'. avl_del s a = Some (s', root_of t') \<and> tree_at s' None t' \<and> bal t' \<and>
    inorder t' = remove1 a (inorder (plug (Node l a r) c)) \<and>
    same_outside (nodes (plug (Node l a r) c)) s s'"
proof -
  have d': "distinct (before c @ inorder (Node l a r) @ after c)" using d by (simp add: inorder_plug)
  have ta: "tree_at s (ctx_par c) (Node l a r)" and ca: "ctx_at s (Some a) c" using t by (auto simp: tree_at_plug)
  then have sa: "s a = Some \<lparr>parent = ctx_par c, left = root_of l, right = root_of r,
      height = aux_height (Node l a r), cnt = aux_cnt (Node l a r)\<rparr>" by simp
  have bb: "bal (Node l a r)" "bal_path (ht (Node l a r)) c" using b by (auto simp: bal_plug)
  have rem: "remove1 a (inorder (plug (Node l a r) c)) = before c @ inorder l @ inorder r @ after c"
    using d' by (simp add: inorder_plug remove1_append remove1_idem)
  have N: "nodes (plug (Node l a r) c) = nodes (Node l a r) \<union> ctx_nodes c"
    by (auto simp: inorder_plug set_before_after [symmetric])
  show ?thesis
  proof (cases "l = Leaf \<or> r = Leaf")
    case True
    define u where "u = (if l = Leaf then r else l)"
    have u: "l = Leaf \<and> u = r \<or> r = Leaf \<and> u = l" using True by (auto simp: u_def)
    have szu: "length (before c @ inorder u @ after c) \<le> avl_max"
      using sz u by (auto simp: inorder_plug)
    from avl_del_easy_at [OF ta ca u d' szu] obtain s' where
      s': "avl_del_easy s a = Some (s', root_of (fix_up u c))" "tree_at s' None (fix_up u c)"
        "same_outside (nodes u \<union> ctx_nodes c) s s'" by blast
    have "bal (fix_up u c)" by (rule bal_fix_up [OF _ bb(2)]) (use bb(1) u in auto)
    moreover have "inorder (fix_up u c) = remove1 a (inorder (plug (Node l a r) c))"
      using rem u by auto
    moreover have "avl_del s a = avl_del_easy s a" using True sa by (auto simp: avl_del_unfold)
    moreover have "same_outside (nodes (plug (Node l a r) c)) s s'"
      by (rule same_outside_mono [OF s'(3)]) (use u N in auto)
    ultimately show ?thesis using s' by auto
  next
    case False
    obtain v rv where lm: "leftmost r = (v, rv)" by fastforce
    define e where "e = left_path r @ FR l a # c"
    have r: "r = plug (Node Leaf v rv) (left_path r)" using leftmost_plug [OF _ lm] False by simp
    have T: "plug (Node l a r) c = plug (Node Leaf v rv) e" by (simp add: e_def plug_append r [symmetric])
    have ri: "inorder r = v # inorder rv @ after (left_path r)" by (subst r) (simp add: inorder_plug)
    have e: "before e = before c @ inorder l @ [a]" "after e = after (left_path r) @ after c"
      by (simp_all add: e_def before_append after_append)
    have tv: "tree_at s (ctx_par e) (Node Leaf v rv)" and cv: "ctx_at s (Some v) e"
      using t unfolding T by (auto simp: tree_at_plug)
    have dv: "distinct (before e @ inorder (Node Leaf v rv) @ after e)" using d unfolding T by (simp add: inorder_plug)
    have szv: "length (before e @ inorder rv @ after e) \<le> avl_max" using sz unfolding T by (simp add: inorder_plug)
    from avl_del_easy_at [OF tv cv _ dv szv] obtain s1 where
      s1: "avl_del_easy s v = Some (s1, root_of (fix_up rv e))" "tree_at s1 None (fix_up rv e)"
        "same_outside (nodes rv \<union> ctx_nodes e) s s1" by blast
    have bv: "bal (Node Leaf v rv)" "bal_path (ht (Node Leaf v rv)) e" using b unfolding T by (auto simp: bal_plug)
    have b1: "bal (fix_up rv e)" by (rule bal_fix_up [OF _ bv(2)]) (use bv(1) in auto)
    have i1: "inorder (fix_up rv e) = before c @ inorder l @ a # inorder rv @ after (left_path r) @ after c"
      using e by simp
    have dd: "distinct (inorder (fix_up rv e))" "v \<notin> nodes (fix_up rv e)" using dv by auto
    obtain l2 r2 c2 where T1: "fix_up rv e = plug (Node l2 a r2) c2"
      using node_path [of a "fix_up rv e"] by (auto simp: e)
    have "(before c2 @ inorder l2) @ a # (inorder r2 @ after c2) =
        (before c @ inorder l) @ a # (inorder rv @ after (left_path r) @ after c)"
      using i1 T1 by (simp add: inorder_plug)
    then have sp: "before c2 @ inorder l2 = before c @ inorder l"
      "inorder r2 @ after c2 = inorder rv @ after (left_path r) @ after c"
      using d' ri append_Cons_eq_iff [of a "before c @ inorder l"
          "inorder rv @ after (left_path r) @ after c" "before c2 @ inorder l2" "inorder r2 @ after c2"]
      by auto
    have "s1 v \<noteq> None"
      using same_outsideD [OF s1(3), of v] dv tv unfolding set_before_after [symmetric] by auto
    then obtain w where w: "s1 v = Some w" by blast
    from replace_node_at [OF s1(2) [unfolded T1] w dd [unfolded T1]] obtain s2 where
      s2: "replace_node s1 a v (root_of (fix_up rv e)) = Some (s2, root_of (plug (Node l2 v r2) c2))"
        "tree_at s2 None (plug (Node l2 v r2) c2)" "same_outside (insert v (nodes (fix_up rv e))) s1 s2"
      unfolding T1 by blast
    obtain z where z: "root_of r = Some z" using False by (cases r) auto
    then have "avl_leftmost s z = Some v" using avl_leftmost_at [of s "Some a" r z] ta lm by simp
    then have "avl_del s a = Some (s2, root_of (plug (Node l2 v r2) c2))"
      using False sa z s1(1) s2(1) by (simp add: avl_del_unfold)
    moreover have "bal (plug (Node l2 v r2) c2)" using b1 unfolding T1 by (simp add: bal_plug)
    moreover have "inorder (plug (Node l2 v r2) c2) = remove1 a (inorder (plug (Node l a r) c))"
      using sp unfolding rem by (simp add: inorder_plug ri)
    moreover have "same_outside (nodes (plug (Node l a r) c)) s s2"
      using s1(3) s2(3) i1 N ri e unfolding same_outside_def set_before_after [symmetric] by auto
    ultimately show ?thesis using s2(2) by blast
  qed
qed

section \<open>Offset by rank\<close>

text \<open>
  A node of \<open>t = plug (Node l x r) c\<close> has the index \<open>length (before c) + tsize l\<close> in the order.
  The loop keeps \<open>pos\<close> = (index of the current node) - (index of the first), and looks for the
  index \<open>k\<close> = (index of the first) + \<open>offset\<close>.
\<close>

lemma uint_aux_cnt: "tsize t < 2 ^ 32 \<Longrightarrow> uint (aux_cnt t) = int (tsize t)"
  by (simp add: aux_cnt_def uint_nat)

lemma uint_aux_cnt_Suc: "tsize t + 1 < 2 ^ 32 \<Longrightarrow> uint (aux_cnt t + 1) = int (tsize t) + 1"
proof -
  assume "tsize t + 1 < 2 ^ 32"
  moreover have "aux_cnt t + 1 = of_nat (tsize t + 1)" by (simp add: aux_cnt_def)
  ultimately show ?thesis by (simp only: uint_nat unat_u32)
qed

text \<open>The target is in the subtree of the current node: the loop goes down to it.\<close>

lemma avl_offset_down:
  assumes "tree_at s par t" and "t = Node l x r" and "0 \<le> b" and "b + int (tsize t) \<le> int avl_max"
    and "0 \<le> i" "i \<le> int avl_max" and "b \<le> k" "k < b + int (tsize t)"
  shows "avl_offset_loop s x (k - i) (b + int (tsize l) - i) = Some (Some (inorder t ! nat (k - b)))"
  using assms
proof (induction t arbitrary: par b l x r)
  case (Node l' x' r')
  then have eq: "l' = l" "x' = x" "r' = r" by auto
  have sx: "s x = Some \<lparr>parent = par, left = root_of l, right = root_of r,
      height = aux_height (Node l x r), cnt = aux_cnt (Node l x r)\<rparr>"
    and t: "tree_at s (Some x) l" "tree_at s (Some x) r" using Node.prems by auto
  have sz: "tsize l + 1 < 2 ^ 32" "tsize r + 1 < 2 ^ 32" "i < 2 ^ 32"
    "b + int (tsize l) + int (tsize r) + 1 < 2 ^ 32"
    using Node.prems eq by (auto simp: avl_max_def)
  have c: "avl_cnt s (root_of l) = Some (aux_cnt l)" "avl_cnt s (root_of r) = Some (aux_cnt r)"
    "uint (aux_cnt l) = int (tsize l)" "uint (aux_cnt r) = int (tsize r)"
    using t sz by (auto simp: uint_aux_cnt)
  consider "k = b + int (tsize l)" | "k > b + int (tsize l)" | "k < b + int (tsize l)" by linarith
  then show ?case
  proof cases
    case 1
    then show ?thesis using eq by (subst avl_offset_loop.simps) (simp add: nth_append)
  next
    case 2
    then obtain rl y rr where r: "r = Node rl y rr" using Node.prems(8) eq by (cases r) auto
    have cy: "avl_cnt s (root_of rl) = Some (aux_cnt rl)" "uint (aux_cnt rl + 1) = int (tsize rl) + 1"
      using t(2) sz(2) r by (auto simp: uint_aux_cnt_Suc)
    have sy: "\<exists>n. s y = Some n \<and> left n = root_of rl" using t(2) r by simp
    have IH: "avl_offset_loop s y (k - i) (b + int (tsize l) + 1 + int (tsize rl) - i) =
        Some (Some (inorder r ! nat (k - (b + int (tsize l) + 1))))"
      by (rule Node.IH(2) [unfolded eq, OF t(2) r]) (use Node.prems 2 eq in auto)
    have "inorder (Node l x r) ! nat (k - b) = inorder r ! nat (k - (b + int (tsize l) + 1))"
      using 2 Node.prems(3) by (auto simp: nth_append nth_Cons' nat_diff_distrib) (simp add: nat_minus_as_int algebra_simps)?
    then show ?thesis
      using 2 c cy sx sy sz Node.prems r IH eq
      by (subst avl_offset_loop.simps) (auto simp: algebra_simps)
  next
    case 3
    then obtain ll y lr where l: "l = Node ll y lr" using Node.prems(7) by (cases l) auto
    have cy: "avl_cnt s (root_of lr) = Some (aux_cnt lr)" "uint (aux_cnt lr + 1) = int (tsize lr) + 1"
      using t(1) sz(1) l by (auto simp: uint_aux_cnt_Suc)
    have sy: "\<exists>n. s y = Some n \<and> right n = root_of lr" using t(1) l by simp
    have IH: "avl_offset_loop s y (k - i) (b + int (tsize ll) - i) = Some (Some (inorder l ! nat (k - b)))"
      by (rule Node.IH(1) [unfolded eq, OF t(1) l]) (use Node.prems 3 eq in auto)
    have "inorder (Node l x r) ! nat (k - b) = inorder l ! nat (k - b)"
      using 3 Node.prems(7) by (auto simp: nth_append)
    then show ?thesis
      using 3 c cy sx sy sz Node.prems l IH eq
      by (subst avl_offset_loop.simps) (auto simp: algebra_simps)
  qed
qed simp

text \<open>From any node: up while the target is outside the subtree, then down.\<close>

lemma avl_offset_up:
  assumes "tree_at s None (plug (Node l x r) c)" and "distinct (inorder (plug (Node l x r) c))"
    and "tsize (plug (Node l x r) c) \<le> avl_max" and "0 \<le> i" "i \<le> int avl_max"
  shows "avl_offset_loop s x (k - i) (int (length (before c)) + int (tsize l) - i) =
    Some (if 0 \<le> k \<and> k < int (tsize (plug (Node l x r) c))
          then Some (inorder (plug (Node l x r) c) ! nat k) else None)"
  using assms
proof (induction c arbitrary: l x r)
  case Nil
  show ?case
  proof (cases "0 \<le> k \<and> k < int (tsize (Node l x r))")
    case True
    then show ?thesis
      using avl_offset_down [of s None "Node l x r" l x r 0 i k] Nil.prems by auto
  next
    case False
    have "avl_cnt s (root_of l) = Some (aux_cnt l)" "avl_cnt s (root_of r) = Some (aux_cnt r)"
      "uint (aux_cnt l) = int (tsize l)" "uint (aux_cnt r) = int (tsize r)"
      using Nil.prems by (auto simp: uint_aux_cnt avl_max_def)
    then show ?thesis
      using False Nil.prems by (subst avl_offset_loop.simps) (auto simp: avl_max_def)
  qed
next
  case (Cons st c)
  let ?T = "plug (Node l x r) (st # c)" and ?b = "int (length (before (st # c)))"
  have len: "length (before (st # c)) + tsize l + 1 + tsize r + length (after (st # c)) \<le> avl_max"
    using Cons.prems(3) by (simp add: inorder_plug)
  have t: "tree_at s (ctx_par (st # c)) (Node l x r)" and ca: "ctx_at s (Some x) (st # c)"
    using Cons.prems(1) by (simp_all only: tree_at_plug root_of.simps)
  show ?case
  proof (cases "?b \<le> k \<and> k < ?b + int (tsize (Node l x r))")
    case True
    have "inorder ?T ! nat k = inorder (Node l x r) ! nat (k - ?b)"
      using True nth_middle [of "before (st # c)" "nat k" "inorder (Node l x r)" "after (st # c)"]
      unfolding inorder_plug by (simp add: nat_diff_distrib nat_less_iff le_nat_iff)
    moreover have "k < int (tsize ?T)" using True by (simp add: inorder_plug)
    ultimately show ?thesis
      using avl_offset_down [OF t, of l x r ?b i k] True Cons.prems len by auto
  next
    case False
    have c: "avl_cnt s (root_of l) = Some (aux_cnt l)" "avl_cnt s (root_of r) = Some (aux_cnt r)"
      "uint (aux_cnt l) = int (tsize l)" "uint (aux_cnt r) = int (tsize r)"
      "uint (aux_cnt l + 1) = int (tsize l) + 1" "uint (aux_cnt r + 1) = int (tsize r) + 1"
      using t len by (auto simp: uint_aux_cnt uint_aux_cnt_Suc avl_max_def)
    note b = len Cons.prems(4,5)
    show ?thesis
    proof (cases st)
      case (FL p r')
      have right_neq: "root_of r' \<noteq> Some x"
        using Cons.prems(2) FL by (intro root_of_neq) (auto simp: inorder_plug)
      obtain pn where pn: "s p = Some pn" "right pn = root_of r'" using ca FL by auto
      have "avl_offset_loop s x (k - i) (?b + int (tsize l) - i) =
          avl_offset_loop s p (k - i) (int (length (before c)) + int (tsize (Node l x r)) - i)"
        using c t pn right_neq FL False b
        by (subst avl_offset_loop.simps) (auto simp: avl_max_def algebra_simps)
      then show ?thesis using Cons.IH [of "Node l x r" p r'] Cons.prems FL by simp
    next
      case (FR l' p)
      obtain pn where pn: "s p = Some pn" "right pn = Some x" using ca FR by auto
      have "avl_offset_loop s x (k - i) (?b + int (tsize l) - i) =
          avl_offset_loop s p (k - i) (int (length (before c)) + int (tsize l') - i)"
        using c t pn FR False b
        by (subst avl_offset_loop.simps) (auto simp: avl_max_def algebra_simps)
      then show ?thesis using Cons.IH [of l' p "Node l x r"] Cons.prems FR by simp
    qed
  qed
qed

section \<open>Memory\<close>

text \<open>The operations write members of nodes; they neither allocate nor free.\<close>

lemma set_parent_live: "set_parent s p q = Some s' \<Longrightarrow> live s' = live s"
  by (auto simp: set_parent_def modify_live split: option.splits)

lemma avl_update_live: "avl_update s a = Some s' \<Longrightarrow> live s' = live s"
  by (auto simp: avl_update_def bind_eq_Some_conv dest!: modify_live)

lemmas live_rules = modify_live set_parent_live avl_update_live

lemma rot_live:
  "rot_left s a = Some (s', b) \<Longrightarrow> live s' = live s"
  "rot_right s a = Some (s', b) \<Longrightarrow> live s' = live s"
  by (auto simp: rot_left_def rot_right_def Let_def bind_eq_Some_conv dest!: live_rules)

lemma avl_fix_left_live: "avl_fix_left s a = Some (s', b) \<Longrightarrow> live s' = live s"
  by (auto simp: avl_fix_left_def bind_eq_Some_conv dest!: live_rules rot_live split: if_splits)

lemma avl_fix_right_live: "avl_fix_right s a = Some (s', b) \<Longrightarrow> live s' = live s"
  by (auto simp: avl_fix_right_def bind_eq_Some_conv dest!: live_rules rot_live split: if_splits)

lemma assign_slot_live: "assign_slot s loc sl v = Some (s', loc') \<Longrightarrow> live s' = live s"
  by (cases sl) (auto simp: bind_eq_Some_conv dest!: modify_live)

lemma fix_node_live: "fix_node s par a sl = Some (s', p) \<Longrightarrow> live s' = live s"
  by (auto simp: fix_node_def bind_eq_Some_conv
      dest!: live_rules avl_fix_left_live avl_fix_right_live assign_slot_live split: if_splits)

lemma avl_fix_live: "avl_fix s a = Some (s', p) \<Longrightarrow> live s' = live s"
proof -
  have *: "live (fst r) = live s" if "avl_fix s a = Some r" for r
    using that
  proof (rule avl_fix.raw_induct [rotated, where P = "\<lambda>s a r. live (fst r) = live s"])
    fix f s node r
    assume IH: "\<And>s a r. f s a = Some r \<Longrightarrow> live (fst r) = live s"
      and *: "(do { n \<leftarrow> s node; let par = parent n; from \<leftarrow> incoming s par node; s \<leftarrow> avl_update s node;
        n \<leftarrow> s node; l \<leftarrow> avl_height s (left n); r \<leftarrow> avl_height s (right n);
        (s, loc) \<leftarrow> (if l = r + 2 then do { (s, t) \<leftarrow> avl_fix_left s node; assign_slot s (Some node) from (Some t) }
          else if l + 2 = r then do { (s, t) \<leftarrow> avl_fix_right s node; assign_slot s (Some node) from (Some t) }
          else Some (s, Some node));
        case par of None \<Rightarrow> Some (s, loc) | Some p \<Rightarrow> f s p }) = Some r"
    then obtain n sl s1 loc where n: "s node = Some n" "fix_node s (parent n) node sl = Some (s1, loc)"
      "(case parent n of None \<Rightarrow> Some (s1, loc) | Some p \<Rightarrow> f s1 p) = Some r"
      by (fastforce simp: fix_node_def bind_eq_Some_conv Let_def)
    then show "live (fst r) = live s" using IH fix_node_live [OF n(2)] by (auto split: option.splits)
  qed
  show "avl_fix s a = Some (s', p) \<Longrightarrow> live s' = live s" using * [of "(s', p)"] by simp
qed

lemma avl_del_easy_live: "avl_del_easy s a = Some (s', p) \<Longrightarrow> live s' = live s"
  by (auto simp: avl_del_easy_def Let_def bind_eq_Some_conv
      dest!: set_parent_live assign_slot_live avl_fix_live split: option.splits)

lemma avl_del_live: "avl_del s a = Some (s', p) \<Longrightarrow> live s' = live s"
  by (auto simp: avl_del_def bind_eq_Some_conv
      dest!: modify_live set_parent_live assign_slot_live avl_del_easy_live split: if_splits)

section \<open>The interface\<close>

text \<open>
  A sequence of objects in order, on which the client steps by rank and deletes: what the
  sorted set asks of the tree (\<open>avl_del\<close>, \<open>avl_offset\<close>).
\<close>

locale rank_list =
  fixes rep :: "'s \<Rightarrow> ptr \<Rightarrow> addr list \<Rightarrow> bool"
    and delete :: "'s \<Rightarrow> addr \<Rightarrow> ('s \<times> ptr) option"
    and offset :: "'s \<Rightarrow> addr \<Rightarrow> int \<Rightarrow> ptr option"
  assumes rep_distinct: "rep s p xs \<Longrightarrow> distinct xs"
    and delete_rep: "rep s p xs \<Longrightarrow> a \<in> set xs \<Longrightarrow>
      \<exists>s' p'. delete s a = Some (s', p') \<and> rep s' p' (remove1 a xs)"
    and offset_rep: "rep s p xs \<Longrightarrow> j < length xs \<Longrightarrow>
      offset s (xs ! j) k =
        Some (if 0 \<le> int j + k \<and> int j + k < int (length xs) then Some (xs ! nat (int j + k)) else None)"
begin

lemma offset_next: "rep s p xs \<Longrightarrow> j < length xs \<Longrightarrow>
  offset s (xs ! j) 1 = Some (if Suc j < length xs then Some (xs ! Suc j) else None)"
  by (auto simp: offset_rep nat_add_distrib)

lemma offset_back: "rep s p xs \<Longrightarrow> a \<in> set xs \<Longrightarrow> offset s a k = Some (Some b) \<Longrightarrow>
  offset s b (- k) = Some (Some a)"
proof -
  assume r: "rep s p xs" and a: "a \<in> set xs" and o: "offset s a k = Some (Some b)"
  obtain j where j: "j < length xs" "a = xs ! j" using a by (auto simp: in_set_conv_nth)
  with o offset_rep [OF r j(1)] have k: "0 \<le> int j + k" "int j + k < int (length xs)" "b = xs ! nat (int j + k)"
    by (auto split: if_splits)
  then show ?thesis using offset_rep [OF r, of "nat (int j + k)" "- k"] j by auto
qed

lemma offset_member: "rep s p xs \<Longrightarrow> a \<in> set xs \<Longrightarrow> \<exists>q. offset s a k = Some q \<and> (\<forall>b. q = Some b \<longrightarrow> b \<in> set xs)"
  by (force simp: in_set_conv_nth [of a] offset_rep)

lemma delete_member: "rep s p xs \<Longrightarrow> a \<in> set xs \<Longrightarrow>
  \<exists>s' p' xs'. delete s a = Some (s', p') \<and> rep s' p' xs' \<and> a \<notin> set xs' \<and> set xs' = set xs - {a}"
  using delete_rep [of s p xs a] rep_distinct [of s p xs] by fastforce

end

lemma avl_del_rep:
  assumes r: "avl_rep s p xs" and a: "a \<in> set xs"
  shows "\<exists>s' p'. avl_del s a = Some (s', p') \<and> avl_rep s' p' (remove1 a xs) \<and> same_outside (set xs) s s'"
proof -
  from r obtain t where t: "tree_at s None t" "bal t" "inorder t = xs" "distinct xs" "length xs \<le> avl_max"
    by (auto simp: avl_rep_def)
  obtain l x c where "t = plug (Node l a x) c" using node_path t(3) a by blast
  then show ?thesis
    using avl_del_at [of s l a x c] t
    by (auto simp: avl_rep_def length_remove1 intro!: distinct_remove1)
qed

interpretation avl: rank_list avl_rep avl_del avl_offset
proof unfold_locales
  show "distinct xs" if "avl_rep s p xs" for s p xs
    using that by (simp add: avl_rep_def)
next
  fix s p xs a assume "avl_rep s p xs" "a \<in> set xs"
  then show "\<exists>s' p'. avl_del s a = Some (s', p') \<and> avl_rep s' p' (remove1 a xs)"
    using avl_del_rep by blast
next
  fix s p xs j k assume r: "avl_rep s p xs" and j: "j < length xs"
  then obtain t where t: "tree_at s None t" "inorder t = xs" "distinct xs" "length xs \<le> avl_max"
    by (auto simp: avl_rep_def)
  obtain l x c where c: "t = plug (Node l (xs ! j) x) c" using node_path [of "xs ! j" t] t(2) j by auto
  have "(before c @ inorder l @ y # inorder x @ after c) ! (length (before c) + tsize l) = y" for y
    by (simp add: nth_append)
  moreover have "before c @ inorder l @ xs ! j # inorder x @ after c = xs"
    using t(2) c by (simp add: inorder_plug)
  ultimately have "xs ! (length (before c) + tsize l) = xs ! j" by metis
  moreover have "length (before c) + tsize l < tsize t" unfolding c by (simp add: inorder_plug)
  then have "length (before c) + tsize l < length xs" using t(2) by simp
  ultimately have "j = length (before c) + tsize l"
    using t(3) j by (metis nth_eq_iff_index_eq)
  then show "avl_offset s (xs ! j) k =
      Some (if 0 \<le> int j + k \<and> int j + k < int (length xs) then Some (xs ! nat (int j + k)) else None)"
    using avl_offset_up [of s l "xs ! j" x c "int j" "int j + k"] t c j
    by (simp add: avl_offset_def)
qed

section \<open>Logarithmic height\<close>

text \<open>A balanced tree of height \<open>h\<close> has at least \<open>2 ^ (h div 2)\<close> nodes, less one.\<close>

lemma bal_height: "bal t \<Longrightarrow> 2 ^ (ht t div 2) \<le> tsize t + 1"
proof (induction "ht t" arbitrary: t rule: less_induct)
  case less
  show ?case
  proof (cases "ht t \<le> 1")
    case False
    then obtain l a r where t: "t = Node l a r" by (cases t) auto
    have b: "bal l" "bal r" "ht l < ht t" "ht r < ht t" and h: "ht t \<le> ht l + 2" "ht t \<le> ht r + 2"
      using less.prems t by auto
    have "ht t div 2 \<le> ht l div 2 + 1" "ht t div 2 \<le> ht r div 2 + 1" using h by linarith+
    then have "(2::nat) ^ (ht t div 2) \<le> 2 ^ (ht l div 2 + 1)" "(2::nat) ^ (ht t div 2) \<le> 2 ^ (ht r div 2 + 1)"
      by (intro power_increasing; simp)+
    moreover have "2 ^ (ht l div 2) \<le> tsize l + 1" "2 ^ (ht r div 2) \<le> tsize r + 1"
      using less.hyps b by blast+
    ultimately show ?thesis using t by simp
  next
    case True
    then have "ht t div 2 = 0" by simp
    then show ?thesis by simp
  qed
qed

section \<open>Properties\<close>

definition sample_avl :: astore where
  "sample_avl = (\<lambda>_. None)(
     1 \<mapsto> \<lparr>parent = Some 2, left = None, right = None, height = 1, cnt = 1\<rparr>,
     2 \<mapsto> \<lparr>parent = None, left = Some 1, right = Some 3, height = 3, cnt = 4\<rparr>,
     3 \<mapsto> \<lparr>parent = Some 2, left = None, right = Some 4, height = 2, cnt = 2\<rparr>,
     4 \<mapsto> \<lparr>parent = Some 3, left = None, right = None, height = 1, cnt = 1\<rparr>)"

lemma sample_avl_rep: "avl_rep sample_avl (Some 2) [1, 2, 3, 4]"
proof -
  let ?t = "Node (Node Leaf 1 Leaf) 2 (Node Leaf 3 (Node Leaf 4 Leaf))"
  have "tree_at sample_avl None ?t" by (simp add: sample_avl_def aux_height_def aux_cnt_def)
  then show ?thesis
    unfolding avl_rep_def by (intro conjI exI [of _ ?t]) (simp_all add: avl_max_def)
qed

text \<open>C31. \<open>avl_del\<close> on any node of a represented tree returns; the result is again a balanced tree
  with right parent pointers, heights and counts, its nodes are the old ones without the deleted
  node, in the same order, and no object outside the tree is touched.\<close>

theorem avl_del_correct:
  assumes "avl_rep s p xs" and "a \<in> set xs"
  shows "\<exists>s' p'. avl_del s a = Some (s', p') \<and> avl_rep s' p' (remove1 a xs) \<and> same_outside (set xs) s s'"
  using assms by (rule avl_del_rep)

theorem avl_del_correct_witness:
  "\<exists>s' p'. avl_del sample_avl 1 = Some (s', p') \<and> avl_rep s' p' [2, 3, 4] \<and>
    same_outside {1, 2, 3, 4} sample_avl s'"
  using avl_del_correct [OF sample_avl_rep, of 1] by simp

text \<open>C30. Linking a new leaf into an empty slot of a balanced tree and calling \<open>avl_fix\<close> on it
  (what \<open>tree_insert\<close> does) returns a balanced tree in which the leaf stands exactly at the
  place of the slot in the order. The path \<open>c\<close> leads from the slot to the root.\<close>

theorem avl_fix_insert:
  assumes "tree_at s None (plug Leaf c)" and "bal (plug Leaf c)" and "s' a = Some (avl_init\<lparr>parent := ctx_par c\<rparr>)"
    and "assign_slot (s(a \<mapsto> avl_init\<lparr>parent := ctx_par c\<rparr>)) loc (ctx_slot c) (Some a) = Some (s', loc')"
    and "distinct (before c @ a # after c)" and "length (before c @ a # after c) \<le> avl_max"
  shows "\<exists>s'' p. avl_fix s' a = Some (s'', p) \<and> avl_rep s'' p (before c @ a # after c) \<and>
    same_outside (insert a (set (inorder (plug Leaf c)))) s s''"
proof -
  let ?s = "s(a \<mapsto> avl_init\<lparr>parent := ctx_par c\<rparr>)"
  have a: "a \<notin> ctx_nodes c" and dc: "distinct (before c @ after c)"
    using assms(5) unfolding set_before_after [symmetric] by auto
  have "ctx_at ?s None c" using assms(1) a by (simp add: tree_at_plug)
  from assign_at [OF this dc, of loc "Some a"] assms(4)
  have "ctx_at s' (Some a) c" "same_outside (ctx_nodes c) ?s s'" by auto
  moreover have "set (inorder (plug Leaf c)) = ctx_nodes c"
    by (simp add: inorder_plug set_before_after [symmetric])
  ultimately show ?thesis
    using avl_insert_at [of s' a c] assms(2,3,5,6) by (fastforce simp: same_outside_def)
qed

theorem avl_fix_insert_witness:
  "\<exists>s'' p. avl_fix ((\<lambda>_. None)(7 \<mapsto> avl_init, 9 \<mapsto> avl_init\<lparr>parent := Some 7\<rparr>, 7 \<mapsto> avl_init\<lparr>right := Some 9\<rparr>)) 9
     = Some (s'', p) \<and> avl_rep s'' p [7, 9] \<and> same_outside {7, 9} ((\<lambda>_. None)(7 \<mapsto> avl_init)) s''"
  using avl_fix_insert [of "(\<lambda>_. None)(7 \<mapsto> avl_init)" "[FR Leaf 7]"
      "(\<lambda>_. None)(7 \<mapsto> avl_init, 9 \<mapsto> avl_init\<lparr>parent := Some 7\<rparr>, 7 \<mapsto> avl_init\<lparr>right := Some 9\<rparr>)" 9 None None]
  by (simp add: avl_init_def aux_height_def aux_cnt_def avl_max_def insert_commute)

text \<open>C32. \<open>avl_offset\<close> from the node of rank \<open>j\<close> returns the node of rank \<open>j + k\<close>, or NULL when
  that rank is outside the tree, for every \<open>k\<close>: it always returns, whatever the direction, and its
  64-bit position never overflows.\<close>

theorem avl_offset_correct:
  assumes "avl_rep s p xs" and "j < length xs"
  shows "avl_offset s (xs ! j) k =
    Some (if 0 \<le> int j + k \<and> int j + k < int (length xs) then Some (xs ! nat (int j + k)) else None)"
  using assms by (rule avl.offset_rep)

theorem avl_offset_correct_witness:
  "avl_offset sample_avl 4 (- 2) = Some (Some 2) \<and> avl_offset sample_avl 1 4 = Some None"
  using avl_offset_correct [OF sample_avl_rep, of 3 "- 2"] avl_offset_correct [OF sample_avl_rep, of 0 4]
  by simp

text \<open>The height that the root caches is logarithmic in the number of nodes: a tree of height
  \<open>h\<close> has at least \<open>2 ^ (h div 2) - 1\<close> nodes.\<close>

theorem avl_height_log:
  assumes "avl_rep s p xs"
  shows "\<exists>h. avl_height s p = Some (of_nat h) \<and> 2 ^ (h div 2) \<le> length xs + 1"
  using assms bal_height by (auto simp: avl_rep_def aux_height_def)

theorem avl_height_log_witness:
  "avl_rep sample_avl (Some 2) [1, 2, 3, 4] \<and>
   (\<exists>h. avl_height sample_avl (Some 2) = Some (of_nat h) \<and> 2 ^ (h div 2) \<le> (5::nat))"
  using avl_height_log [OF sample_avl_rep] sample_avl_rep by (simp add: eval_nat_numeral)

end
