(* ===== verification/Zset_Correct.thy ===== *)
theory Zset_Correct
  imports Zset Hashtable_Correct Avl_Correct
begin

text \<open>
  The sorted set keeps its two indexes in step: the same nodes are in the tree, sorted by
  (score, name), and in the hash table, keyed by name. Against that invariant every operation
  implements a finite map from names to scores, and its ordered access is access to the sorted
  list of the pairs of that map.
\<close>

section \<open>The invariant\<close>

definition zname :: "zmem \<Rightarrow> addr \<Rightarrow> bytes" where
  "zname m a = name (the (zdat m a))"

definition zscore :: "zmem \<Rightarrow> addr \<Rightarrow> u64" where
  "zscore m a = score (the (zdat m a))"

definition zkey :: "zmem \<Rightarrow> addr \<Rightarrow> int \<times> bytes" where
  "zkey m a = (dbl_key (zscore m a), zname m a)"

definition name_hash :: "bytes \<Rightarrow> u64" where
  "name_hash nm = str_hash nm (length nm)"

definition znode_ok :: "zmem \<Rightarrow> addr \<Rightarrow> bool" where
  "znode_ok m a \<longleftrightarrow> (\<exists>d. zdat m a = Some d \<and> len d = length (name d) \<and> \<not> isnan (score d))"

text \<open>The set \<open>z\<close> is in memory, and its nodes in order of (score, name) are \<open>xs\<close>.\<close>

definition zset_inv :: "zmem \<Rightarrow> zset \<Rightarrow> addr list \<Rightarrow> bool" where
  "zset_inv m z xs \<longleftrightarrow>
     avl_rep (ztree m) (zroot z) xs \<and>
     hm_inv (zhn m) (zhmap z) (set xs) \<and>
     hm.keyed (zhn m) (set xs) (zname m) name_hash \<and>
     (\<forall>a \<in> set xs. znode_ok m a \<and> a < zbrk m) \<and>
     sorted_wrt (\<lambda>a b. zkey m a < zkey m b) xs"

text \<open>What the set means: its pairs in order, and the map from names to scores.\<close>

definition zpairs :: "zmem \<Rightarrow> addr list \<Rightarrow> (u64 \<times> bytes) list" where
  "zpairs m xs = map (\<lambda>a. (zscore m a, zname m a)) xs"

definition zmap :: "zmem \<Rightarrow> addr list \<Rightarrow> bytes \<rightharpoonup> u64" where
  "zmap m xs = map_of (map (\<lambda>a. (zname m a, zscore m a)) xs)"

lemma zview_simps [simp]:
  "zname (m\<lparr>ztree := s\<rparr>) = zname m" "zname (m\<lparr>zhn := hs\<rparr>) = zname m"
  "zscore (m\<lparr>ztree := s\<rparr>) = zscore m" "zscore (m\<lparr>zhn := hs\<rparr>) = zscore m"
  "zkey (m\<lparr>ztree := s\<rparr>) = zkey m" "zkey (m\<lparr>zhn := hs\<rparr>) = zkey m"
  "znode_ok (m\<lparr>ztree := s\<rparr>) = znode_ok m" "znode_ok (m\<lparr>zhn := hs\<rparr>) = znode_ok m"
  by (auto simp: zname_def zscore_def zkey_def znode_ok_def fun_eq_iff)

text \<open>Two memories agree outside the nodes \<open>A\<close>, and no address was given back.\<close>

definition zmem_frame :: "addr set \<Rightarrow> zmem \<Rightarrow> zmem \<Rightarrow> bool" where
  "zmem_frame A m m' \<longleftrightarrow>
     same_outside A (ztree m) (ztree m') \<and> same_outside A (zhn m) (zhn m') \<and>
     same_outside A (zdat m) (zdat m') \<and> zbrk m \<le> zbrk m'"

lemma zmem_frame_trans:
  "zmem_frame A m m' \<Longrightarrow> zmem_frame A m' m'' \<Longrightarrow> zmem_frame A m m''"
  unfolding zmem_frame_def by (auto intro: same_outside_trans)

lemma zmem_frame_mono: "zmem_frame A m m' \<Longrightarrow> A \<subseteq> B \<Longrightarrow> zmem_frame B m m'"
  unfolding zmem_frame_def by (auto intro: same_outside_mono)

lemma zmem_frame_refl [simp, intro]: "zmem_frame A m m"
  by (simp add: zmem_frame_def)

text \<open>Where the nodes \<open>xs\<close> were allocated now the nodes \<open>ys\<close> are: what is not kept has been freed.\<close>

definition realloc_nodes :: "addr list \<Rightarrow> addr list \<Rightarrow> zmem \<Rightarrow> zmem \<Rightarrow> bool" where
  "realloc_nodes xs ys m m' \<longleftrightarrow> dom (zdat m') = dom (zdat m) - set xs \<union> set ys"

lemma keyed_frame:
  assumes "hm.keyed hs A key h" and "\<And>a. a \<in> A \<Longrightarrow> hs' a = hs a" and "\<And>a. a \<in> A \<Longrightarrow> key' a = key a"
  shows "hm.keyed hs' A key' h"
  using assms unfolding hm.keyed_def by (simp add: inj_on_def)

lemma zset_inv_frame:
  assumes inv: "zset_inv m z xs" and f: "zmem_frame A m m'" and d: "A \<inter> set xs = {}"
  shows "zset_inv m' z xs"
proof -
  have same: "zhn m' a = zhn m a" "zdat m' a = zdat m a" if "a \<in> set xs" for a
    using that f d by (auto simp: zmem_frame_def same_outside_def)
  then have key: "zname m' a = zname m a" "zkey m' a = zkey m a" "znode_ok m' a = znode_ok m a"
    if "a \<in> set xs" for a
    using that by (simp_all add: zname_def zscore_def zkey_def znode_ok_def)
  have "sorted_wrt (\<lambda>a b. zkey m' a < zkey m' b) xs"
    using inv key(2) by (auto simp: zset_inv_def intro: sorted_wrt_mono_rel [rotated])
  moreover have "hm_inv (zhn m') (zhmap z) (set xs)"
    using inv same(1) by (auto simp: zset_inv_def intro: hm.frame_law)
  moreover have "hm.keyed (zhn m') (set xs) (zname m') name_hash"
    using inv same(1) key(1) by (auto simp: zset_inv_def intro: keyed_frame)
  moreover have "avl_rep (ztree m') (zroot z) xs"
    using inv f d by (auto simp: zset_inv_def zmem_frame_def intro: avl_rep_frame)
  ultimately show ?thesis
    using inv key(3) f by (force simp: zset_inv_def zmem_frame_def)
qed

lemma zset_inv_empty [simp]: "zset_inv m zset_empty []"
  by (simp add: zset_inv_def zset_empty_def avl_rep_def hm.keyed_def exI [of _ Leaf])

lemma zset_inv_distinct: "zset_inv m z xs \<Longrightarrow> distinct xs"
  by (simp add: zset_inv_def avl_rep_def)

lemma zset_inv_dom: "zset_inv m z xs \<Longrightarrow> set xs \<subseteq> dom (zdat m)"
  by (auto simp: zset_inv_def znode_ok_def)

lemma realloc_same: "zset_inv m z xs \<Longrightarrow> dom (zdat m') = dom (zdat m) \<Longrightarrow> set ys = set xs \<Longrightarrow> realloc_nodes xs ys m m'"
  using zset_inv_dom [of m z xs] by (auto simp: realloc_nodes_def)

lemma zset_inv_names: "zset_inv m z xs \<Longrightarrow> inj_on (zname m) (set xs)"
  by (simp add: zset_inv_def hm.keyed_def)

lemma zset_root_None: "zset_inv m z xs \<Longrightarrow> zroot z = None \<longleftrightarrow> xs = []"
  unfolding zset_inv_def avl_rep_def
  by (metis root_of_eq_None inorder.simps(1) append_is_Nil_conv inorder.elims list.distinct(1))

lemma zmap_Some: "zset_inv m z xs \<Longrightarrow> zmap m xs nm = Some sc \<longleftrightarrow>
    (\<exists>a \<in> set xs. zname m a = nm \<and> zscore m a = sc)"
proof -
  assume inv: "zset_inv m z xs"
  have "distinct (map fst (map (\<lambda>a. (zname m a, zscore m a)) xs))"
    using zset_inv_distinct [OF inv] zset_inv_names [OF inv] by (simp add: distinct_map comp_def)
  then show ?thesis unfolding zmap_def by (auto simp: map_of_eq_Some_iff)
qed

lemma zmap_None: "zmap m xs nm = None \<longleftrightarrow> nm \<notin> zname m ` set xs"
  unfolding zmap_def by (auto simp: map_of_eq_None_iff image_iff)

lemma zmap_node: "zset_inv m z xs \<Longrightarrow> a \<in> set xs \<Longrightarrow> zmap m xs (zname m a) = Some (zscore m a)"
  by (auto simp: zmap_Some)

section \<open>Comparison\<close>

lemma zless_key:
  assumes "znode_ok m a" and "\<not> isnan sc" and "n = length nm"
  shows "zless m a sc nm n = Some (zkey m a < (dbl_key sc, nm))"
proof -
  obtain d where d: "zdat m a = Some d" "len d = length (name d)" "\<not> isnan (score d)"
    using assms(1) by (auto simp: znode_ok_def)
  have k: "zkey m a = (dbl_key (score d), name d)" using d by (simp add: zkey_def zscore_def zname_def)
  obtain v where "memcmp (name d) nm (min (length (name d)) (length nm)) = Some v"
    "(if v \<noteq> 0 then v < 0 else length (name d) < length nm) = (name d < nm)"
    using memcmp_less by blast
  moreover have "min_size (len d) n = min (length (name d)) (length nm)"
    using d assms(3) by (simp add: min_size_def min_def)
  ultimately show ?thesis
    using d assms(2,3) by (auto simp: zless_def k dbl_eq_def dbl_lt_def less_prod_def)
qed

lemma zless_node_key:
  assumes "znode_ok m a" and "znode_ok m b"
  shows "zless_node m a b = Some (zkey m a < zkey m b)"
proof -
  obtain d where d: "zdat m b = Some d" "len d = length (name d)" "\<not> isnan (score d)"
    using assms(2) by (auto simp: znode_ok_def)
  then show ?thesis
    using zless_key [OF assms(1) d(3,2)] by (simp add: zless_node_def zkey_def [of m b] zscore_def zname_def)
qed

lemma hcmp_name:
  assumes "znode_ok m a" and "n = length nm"
  shows "hcmp m nm n a = Some (zname m a = nm)"
proof -
  obtain d where d: "zdat m a = Some d" "len d = length (name d)"
    using assms(1) by (auto simp: znode_ok_def)
  show ?thesis
  proof (cases "length (name d) = length nm")
    case True
    then show ?thesis using memcmp_eq [OF True refl] d assms(2) by (auto simp: hcmp_def zname_def)
  next
    case False
    then show ?thesis using d assms(2) by (auto simp: hcmp_def zname_def)
  qed
qed

section \<open>Lookup\<close>

lemma rehung_same_outside: "rehung A hs hs' \<Longrightarrow> same_outside A hs hs'"
  by (auto simp: same_outside_def rehung_outside)

lemma zset_inv_hash:
  assumes inv: "zset_inv m z xs" and "hm_inv hs h (set xs)" and "rehung (set xs) (zhn m) hs"
  shows "zset_inv (m\<lparr>zhn := hs\<rparr>) (z\<lparr>zhmap := h\<rparr>) xs"
    and "zmem_frame (set xs) m (m\<lparr>zhn := hs\<rparr>)"
    and "zmap (m\<lparr>zhn := hs\<rparr>) xs = zmap m xs"
proof -
  show "zset_inv (m\<lparr>zhn := hs\<rparr>) (z\<lparr>zhmap := h\<rparr>) xs"
    using assms by (auto simp: zset_inv_def hm.keyed_rehung)
  show "zmem_frame (set xs) m (m\<lparr>zhn := hs\<rparr>)"
    using rehung_same_outside [OF assms(3)] by (simp add: zmem_frame_def)
  show "zmap (m\<lparr>zhn := hs\<rparr>) xs = zmap m xs" by (simp add: zmap_def)
qed

text \<open>The node of a name, or NULL.\<close>

definition is_znode :: "zmem \<Rightarrow> addr list \<Rightarrow> bytes \<Rightarrow> ptr \<Rightarrow> bool" where
  "is_znode m xs nm r \<longleftrightarrow> (case r of None \<Rightarrow> zmap m xs nm = None | Some a \<Rightarrow> a \<in> set xs \<and> zname m a = nm)"

lemma zset_lookup_inv:
  assumes inv: "zset_inv m z xs" and n: "n = length nm"
  shows "\<exists>m' z' r. zset_lookup m z nm n = Some (m', z', r) \<and> zset_inv m' z' xs \<and>
    zmem_frame (set xs) m m' \<and> zdat m' = zdat m \<and> ztree m' = ztree m \<and> zbrk m' = zbrk m \<and>
    zroot z' = zroot z \<and> is_znode m xs nm r"
proof (cases "xs = []")
  case True
  then have "zroot z = None" using zset_root_None [OF inv] by simp
  then show ?thesis using True inv by (simp add: zset_lookup_def is_znode_def zmap_def)
next
  case False
  have eq: "hcmp m nm n a = Some (zname m a = nm)" if "a \<in> set xs" for a
    using hcmp_name [OF _ n] inv that by (simp add: zset_inv_def)
  have "hm_inv (zhn m) (zhmap z) (set xs)" "hm.keyed (zhn m) (set xs) (zname m) name_hash"
    using inv by (auto simp: zset_inv_def)
  from hm.lookup_key [OF this eq] obtain hs h r where
    l: "hm_lookup (zhn m) (zhmap z) (name_hash nm) (hcmp m nm n) = Some (hs, h, r)"
      "hm_inv hs h (set xs)" "rehung (set xs) (zhn m) hs" "hm.node_of (set xs) (zname m) nm r"
    by blast
  have "is_znode m xs nm r"
    using l(4) by (auto simp: is_znode_def hm.node_of_def zmap_None split: option.splits)
  moreover have "zset_lookup m z nm n = Some (m\<lparr>zhn := hs\<rparr>, z\<lparr>zhmap := h\<rparr>, r)"
    using l(1) False zset_root_None [OF inv] n by (auto simp: zset_lookup_def name_hash_def)
  ultimately show ?thesis using zset_inv_hash [OF inv l(2,3)] by auto
qed

section \<open>Ordered access\<close>

lemma seekge_loop_at:
  assumes "tree_at (ztree m) par t" and "sorted_wrt (\<lambda>a b. zkey m a < zkey m b) (inorder t)"
    and "\<forall>a \<in> nodes t. znode_ok m a" and "\<not> isnan sc" and "n = length nm"
  shows "seekge_loop m (root_of t) found sc nm n =
    Some (case find (\<lambda>a. \<not> zkey m a < (dbl_key sc, nm)) (inorder t) of None \<Rightarrow> found | Some a \<Rightarrow> Some a)"
  using assms(1-3)
proof (induction t arbitrary: par found)
  case Leaf
  show ?case by (subst seekge_loop.simps) simp
next
  case (Node l a r)
  let ?P = "\<lambda>a. \<not> zkey m a < (dbl_key sc, nm)"
  have z: "zless m a sc nm n = Some (zkey m a < (dbl_key sc, nm))"
    using zless_key [OF _ assms(4,5)] Node.prems by simp
  have IH: "seekge_loop m (root_of l) f sc nm n = Some (case find ?P (inorder l) of None \<Rightarrow> f | Some a \<Rightarrow> Some a)"
    "seekge_loop m (root_of r) f sc nm n = Some (case find ?P (inorder r) of None \<Rightarrow> f | Some a \<Rightarrow> Some a)" for f
    using Node by (auto simp: sorted_wrt_append)
  show ?case
  proof (cases "zkey m a < (dbl_key sc, nm)")
    case True
    have "\<not> ?P b" if "b \<in> nodes l" for b
      using that True Node.prems(2) by (auto simp: sorted_wrt_append intro: less_trans)
    then have "find ?P (inorder l) = None" unfolding find_None_iff by blast
    then have "find ?P (inorder (Node l a r)) = find ?P (inorder r)"
      using True by (simp add: find_append)
    then show ?thesis using Node.prems True z IH by (subst seekge_loop.simps) auto
  next
    case False
    then show ?thesis using Node.prems z IH
      by (subst seekge_loop.simps) (auto simp: find_append split: option.split)
  qed
qed

lemma zset_seekge_at:
  assumes inv: "zset_inv m z xs" and "\<not> isnan sc" and "n = length nm"
  shows "zset_seekge m z sc nm n = Some (find (\<lambda>a. \<not> zkey m a < (dbl_key sc, nm)) xs)"
proof -
  obtain t where t: "zroot z = root_of t" "tree_at (ztree m) None t" "inorder t = xs"
    using inv by (auto simp: zset_inv_def avl_rep_def)
  then show ?thesis
    using seekge_loop_at [OF t(2) _ _ assms(2,3), of None] inv
    by (auto simp: zset_seekge_def zset_inv_def split: option.split)
qed

section \<open>Insertion into the tree\<close>

text \<open>The search ends at an empty slot that separates the smaller nodes from the larger ones.\<close>

lemma tree_search_at:
  assumes "tree_at (ztree m) (ctx_par c) t" and "ctx_at (ztree m) (root_of t) c"
    and "c = [] \<Longrightarrow> root = root_of t"
    and "sorted_wrt (\<lambda>a b. zkey m a < zkey m b) (before c @ inorder t @ after c)"
    and "\<forall>a \<in> insert x (nodes t). znode_ok m a" and "zkey m x \<notin> zkey m ` nodes t"
    and "\<forall>a \<in> set (before c). zkey m a < zkey m x" and "\<forall>a \<in> set (after c). zkey m x < zkey m a"
  shows "\<exists>d. tree_search m root x (ctx_par c) (ctx_slot c) = Some (ctx_par d, ctx_slot d) \<and>
    plug Leaf d = plug t c \<and> (\<forall>a \<in> set (before d). zkey m a < zkey m x) \<and>
    (\<forall>a \<in> set (after d). zkey m x < zkey m a)"
  using assms
proof (induction t arbitrary: c)
  case Leaf
  have "read_aslot (ztree m) root (ctx_slot c) = Some None"
    using read_ctx_slot [OF Leaf.prems(2)] Leaf.prems(3) by auto
  then show ?case using Leaf.prems by (subst tree_search.simps) auto
next
  case (Node l a r)
  have r: "read_aslot (ztree m) root (ctx_slot c) = Some (Some a)"
    using read_ctx_slot [OF Node.prems(2)] Node.prems(3) by auto
  have z: "zless_node m x a = Some (zkey m x < zkey m a)"
    using zless_node_key Node.prems(5) by simp
  show ?case
  proof (cases "zkey m x < zkey m a")
    case True
    have "\<exists>d. tree_search m root x (ctx_par (FL a r # c)) (ctx_slot (FL a r # c)) = Some (ctx_par d, ctx_slot d) \<and>
      plug Leaf d = plug l (FL a r # c) \<and> (\<forall>b \<in> set (before d). zkey m b < zkey m x) \<and>
      (\<forall>b \<in> set (after d). zkey m x < zkey m b)"
      by (rule Node.IH(1)) (use Node.prems True in \<open>auto simp: sorted_wrt_append intro: less_trans\<close>)
    then show ?thesis using r z True by (subst tree_search.simps) simp
  next
    case False
    then have gt: "zkey m a < zkey m x" using Node.prems(6) by force
    have "\<exists>d. tree_search m root x (ctx_par (FR l a # c)) (ctx_slot (FR l a # c)) = Some (ctx_par d, ctx_slot d) \<and>
      plug Leaf d = plug r (FR l a # c) \<and> (\<forall>b \<in> set (before d). zkey m b < zkey m x) \<and>
      (\<forall>b \<in> set (after d). zkey m x < zkey m b)"
      by (rule Node.IH(2)) (use Node.prems gt in \<open>auto simp: sorted_wrt_append intro: less_trans\<close>)
    then show ?thesis using r z False by (subst tree_search.simps) simp
  qed
qed

lemma tree_insert_at:
  assumes r: "avl_rep (ztree m) (zroot z) xs" and so: "sorted_wrt (\<lambda>a b. zkey m a < zkey m b) xs"
    and ok: "\<forall>a \<in> insert x (set xs). znode_ok m a" and x: "ztree m x = Some avl_init" "x \<notin> set xs"
    and new: "zkey m x \<notin> zkey m ` set xs" and len: "length xs < avl_max"
  shows "\<exists>s root ys. tree_insert m z x = Some (m\<lparr>ztree := s\<rparr>, z\<lparr>zroot := root\<rparr>) \<and>
    avl_rep s root ys \<and> sorted_wrt (\<lambda>a b. zkey m a < zkey m b) ys \<and> set ys = insert x (set xs) \<and>
    same_outside (insert x (set xs)) (ztree m) s"
proof -
  obtain t where t: "zroot z = root_of t" "tree_at (ztree m) None t" "bal t" "inorder t = xs" "distinct xs"
    using r by (auto simp: avl_rep_def)
  obtain d where d: "tree_search m (zroot z) x None Local = Some (ctx_par d, ctx_slot d)"
    "plug Leaf d = t" "\<forall>a \<in> set (before d). zkey m a < zkey m x" "\<forall>a \<in> set (after d). zkey m x < zkey m a"
    using tree_search_at [of m "[]" t "zroot z" x] t so ok new by auto
  have xs: "xs = before d @ after d" using d(2) t(4) inorder_plug [of Leaf d] by simp
  obtain s1 root1 s2 root where s: "assign_slot (ztree m) (zroot z) (ctx_slot d) (Some x) = Some (s1, root1)"
    "s1 x = Some avl_init" "avl_fix (s1(x \<mapsto> avl_init\<lparr>parent := ctx_par d\<rparr>)) x = Some (s2, root)"
    "avl_rep s2 root (before d @ x # after d)" "same_outside (insert x (set xs)) (ztree m) s2"
    using link_leaf_at [OF t(2,3) _ _ d(2) x(1), of "zroot z"] t(4,5) x(2) len by auto
  have "tree_insert m z x = Some (m\<lparr>ztree := s2\<rparr>, z\<lparr>zroot := root\<rparr>)"
    using d(1) s(1-3) by (simp add: tree_insert_def)
  moreover have "sorted_wrt (\<lambda>a b. zkey m a < zkey m b) (before d @ x # after d)"
    using so d(3,4) unfolding xs by (auto simp: sorted_wrt_append)
  ultimately show ?thesis using s(4,5) xs
    by (intro exI [of _ s2] exI [of _ root] exI [of _ "before d @ x # after d"]) auto
qed

section \<open>Update and insertion\<close>

lemma zset_update_inv:
  assumes inv: "zset_inv m z xs" and a: "a \<in> set xs" and sc: "\<not> isnan sc"
  shows "\<exists>m' z' ys. zset_update m z a sc = Some (m', z') \<and> zset_inv m' z' ys \<and> set ys = set xs \<and>
    zmem_frame (set xs) m m' \<and> dom (zdat m') = dom (zdat m) \<and> zbrk m' = zbrk m \<and> zname m' = zname m \<and>
    zscore m' = (if dbl_eq (zscore m a) sc then zscore m else (zscore m)(a := sc))"
proof -
  have ok: "znode_ok m a" using inv a by (simp add: zset_inv_def)
  then obtain d where d: "zdat m a = Some d" "len d = length (name d)" "\<not> isnan (score d)"
    by (auto simp: znode_ok_def)
  have za: "zscore m a = score d" using d(1) by (simp add: zscore_def)
  show ?thesis
  proof (cases "dbl_eq (score d) sc")
    case True
    then show ?thesis using inv d za by (auto simp: zset_update_def)
  next
    case False
    have r: "avl_rep (ztree m) (zroot z) xs" and dx: "distinct xs"
      and so: "sorted_wrt (\<lambda>a b. zkey m a < zkey m b) xs"
      using inv by (auto simp: zset_inv_def avl_rep_def)
    obtain s root where del: "avl_del (ztree m) a = Some (s, root)" "avl_rep s root (remove1 a xs)"
      "same_outside (set xs) (ztree m) s" using avl_del_rep [OF r a] by blast
    obtain n0 where "ztree m a = Some n0"
      using r a node_path [of a] by (fastforce simp: avl_rep_def tree_at_plug)
    then obtain n where n: "s a = Some n" using liveE [OF avl_del_live [OF del(1)]] by blast
    define m1 where "m1 = m\<lparr>ztree := s(a \<mapsto> avl_init), zdat := (zdat m)(a \<mapsto> d\<lparr>score := sc\<rparr>)\<rparr>"
    have nm1: "zname m1 = zname m" using d(1) by (auto simp: zname_def m1_def fun_eq_iff)
    have sc1: "zscore m1 = (zscore m)(a := sc)" by (auto simp: zscore_def m1_def fun_eq_iff)
    have key1: "zkey m1 b = zkey m b" if "b \<noteq> a" for b using that by (simp add: zkey_def nm1 sc1)
    have ok1: "\<forall>b \<in> set xs. znode_ok m1 b"
      using inv d sc by (auto simp: zset_inv_def znode_ok_def m1_def)
    have rest: "set (remove1 a xs) = set xs - {a}" using dx by simp
    obtain s2 root2 ys where ins: "tree_insert m1 (z\<lparr>zroot := root\<rparr>) a =
        Some (m1\<lparr>ztree := s2\<rparr>, z\<lparr>zroot := root2\<rparr>)" "avl_rep s2 root2 ys"
      "sorted_wrt (\<lambda>a b. zkey m1 a < zkey m1 b) ys" "set ys = set xs"
      "same_outside (set xs) (ztree m1) s2"
    proof -
      have "sorted_wrt (\<lambda>a b. zkey m1 a < zkey m1 b) (remove1 a xs)"
        using so rest by (intro sorted_wrt_mono_rel [OF _ sorted_wrt_remove1 [OF so]]) (auto simp: key1)
      moreover have "zkey m1 a \<notin> zkey m1 ` set (remove1 a xs)"
        using zset_inv_names [OF inv] a rest unfolding inj_on_def by (auto simp: zkey_def nm1)
      moreover have "avl_rep (ztree m1) root (remove1 a xs)"
        by (rule avl_rep_frame [of s _ _ "{a}"]) (use del(2) dx in \<open>auto simp: m1_def\<close>)
      moreover have "length (remove1 a xs) < avl_max"
      proof -
        have "length xs \<le> avl_max" using r by (simp add: avl_rep_def)
        moreover have "0 < length xs" by (rule length_pos_if_in_set [OF a])
        ultimately show ?thesis unfolding length_remove1 if_P [OF a] by linarith
      qed
      moreover have "insert a (set xs - {a}) = set xs" using a by blast
      ultimately show ?thesis
        using tree_insert_at [of m1 "z\<lparr>zroot := root\<rparr>" "remove1 a xs" a] ok1 a rest that
        by (auto simp: m1_def)
    qed
    define m2 where "m2 = m1\<lparr>ztree := s2\<rparr>"
    have same: "zname m2 = zname m1" "zscore m2 = zscore m1" "zkey m2 = zkey m1" "znode_ok m2 = znode_ok m1"
      by (simp_all add: m2_def)
    have "zset_update m z a sc = Some (m2, z\<lparr>zroot := root2\<rparr>)"
      using False d n del(1) ins(1) by (simp add: zset_update_def m1_def m2_def)
    moreover have "zhn m2 = zhn m" "zbrk m2 = zbrk m" "ztree m2 = s2" by (simp_all add: m2_def m1_def)
    then have "zset_inv m2 (z\<lparr>zroot := root2\<rparr>) ys"
      using inv ins(2-4) ok1 unfolding zset_inv_def same nm1 by simp
    moreover have "zmem_frame (set xs) m m2"
      using del(3) ins(5) a by (auto simp: zmem_frame_def same_outside_def m2_def m1_def)
    ultimately show ?thesis
      using False za same nm1 sc1 ins(4) d(1)
      by (intro exI [of _ m2] exI [of _ "z\<lparr>zroot := root2\<rparr>"] exI [of _ ys]) (auto simp: m2_def m1_def)
  qed
qed

text \<open>What a call of \<open>zset_insert\<close> does to the map.\<close>

definition zadd_spec :: "(bytes \<rightharpoonup> u64) \<Rightarrow> bytes \<Rightarrow> u64 \<Rightarrow> bytes \<rightharpoonup> u64" where
  "zadd_spec f nm sc = (case f nm of
     Some old \<Rightarrow> if dbl_eq old sc then f else f(nm \<mapsto> sc)
   | None \<Rightarrow> f(nm \<mapsto> sc))"

lemma zadd_spec_other: "nm' \<noteq> nm \<Longrightarrow> zadd_spec f nm sc nm' = f nm'"
  by (auto simp: zadd_spec_def split: option.split)

lemma zadd_spec_same:
  "zadd_spec f nm sc nm = (case f nm of None \<Rightarrow> Some sc | Some old \<Rightarrow> Some (if dbl_eq old sc then old else sc))"
  by (auto simp: zadd_spec_def split: option.split)

lemma znode_new_inv:
  assumes inv: "zset_inv m z xs" and sc: "\<not> isnan sc" and n: "n = length nm"
    and m': "znode_new m nm n sc = (m', a)"
  shows "zset_inv m' z xs" and "zmem_frame {a} m m'" and "a \<notin> set xs" and "a = zbrk m" and "zbrk m' = Suc a"
    and "ztree m' a = Some avl_init" and "zhn m' a = Some \<lparr>hnext = None, hcode = name_hash nm\<rparr>"
    and "znode_ok m' a" and "zname m' a = nm" and "zscore m' a = sc"
    and "zname m' = (zname m)(a := nm)" and "zscore m' = (zscore m)(a := sc)"
proof -
  have eq: "a = zbrk m" "m' = m\<lparr>ztree := (ztree m)(a \<mapsto> avl_init),
         zhn := (zhn m)(a \<mapsto> \<lparr>hnext = None, hcode = str_hash nm n\<rparr>),
         zdat := (zdat m)(a \<mapsto> \<lparr>score = sc, len = n, name = take n nm\<rparr>), zbrk := a + 1\<rparr>"
    using m' by (auto simp: znode_new_def Let_def)
  show "a \<notin> set xs" using inv eq by (auto simp: zset_inv_def)
  show f: "zmem_frame {a} m m'" using eq by (simp add: zmem_frame_def)
  show "zset_inv m' z xs" by (rule zset_inv_frame [OF inv f]) (use \<open>a \<notin> set xs\<close> in simp)
  show "a = zbrk m" "zbrk m' = Suc a" "ztree m' a = Some avl_init"
    "zhn m' a = Some \<lparr>hnext = None, hcode = name_hash nm\<rparr>"
    "zname m' a = nm" "zscore m' a = sc" "znode_ok m' a"
    using eq n sc by (simp_all add: name_hash_def zname_def zscore_def znode_ok_def)
  show "zname m' = (zname m)(a := nm)" "zscore m' = (zscore m)(a := sc)"
    using eq n by (simp_all add: zname_def zscore_def fun_eq_iff)
qed

lemma zset_insert_new:
  assumes inv: "zset_inv m z xs" and sc: "\<not> isnan sc" and n: "n = length nm"
    and new: "nm \<notin> zname m ` set xs" and len: "length xs < avl_max"
    and m1: "znode_new m nm n sc = (m1, a)"
  shows "\<exists>hs h m' z' ys. hm_insert (zhn m1) (zhmap z) a = Some (hs, h) \<and>
    tree_insert (m1\<lparr>zhn := hs\<rparr>) (z\<lparr>zhmap := h\<rparr>) a = Some (m', z') \<and> zset_inv m' z' ys \<and>
    set ys = insert a (set xs) \<and> zmem_frame (insert a (set xs)) m m' \<and>
    dom (zdat m') = insert a (dom (zdat m)) \<and> zbrk m' = Suc (zbrk m) \<and> zname m' = (zname m)(a := nm) \<and> zscore m' = (zscore m)(a := sc)"
proof -
  note new' = znode_new_inv [OF inv sc n m1]
  have nm: "zname m1 b = zname m b" if "b \<in> set xs" for b using that new'(3,11) by auto
  have "hm_inv (zhn m1) (zhmap z) (set xs)" "hm.keyed (zhn m1) (set xs) (zname m1) name_hash"
    using new'(1) by (auto simp: zset_inv_def)
  from hm.insert_key [OF this new'(3) new'(7)] obtain hs h where
    h: "hm_insert (zhn m1) (zhmap z) a = Some (hs, h)" "hm_inv hs h (insert a (set xs))"
      "hm.keyed hs (insert a (set xs)) (zname m1) name_hash" "rehung (insert a (set xs)) (zhn m1) hs"
    using new'(9) new nm by auto
  define m2 where "m2 = m1\<lparr>zhn := hs\<rparr>"
  have same: "zname m2 = zname m1" "zscore m2 = zscore m1" "zkey m2 = zkey m1" "znode_ok m2 = znode_ok m1"
    by (simp_all add: m2_def)
  have ok: "\<forall>b \<in> insert a (set xs). znode_ok m2 b"
    using new'(1,8) by (auto simp: same zset_inv_def)
  obtain s root ys where ins: "tree_insert m2 (z\<lparr>zhmap := h\<rparr>) a = Some (m2\<lparr>ztree := s\<rparr>, z\<lparr>zhmap := h, zroot := root\<rparr>)"
    "avl_rep s root ys" "sorted_wrt (\<lambda>a b. zkey m2 a < zkey m2 b) ys" "set ys = insert a (set xs)"
    "same_outside (insert a (set xs)) (ztree m2) s"
  proof -
    have "zkey m2 a \<notin> zkey m2 ` set xs" using new new'(9) nm by (auto simp: same zkey_def)
    then show ?thesis
      using tree_insert_at [of m2 "z\<lparr>zhmap := h\<rparr>" xs a] new'(1,3,6) ok len that
      by (auto simp: zset_inv_def m2_def)
  qed
  define m3 where "m3 = m2\<lparr>ztree := s\<rparr>"
  have same3: "zname m3 = zname m1" "zscore m3 = zscore m1" "zkey m3 = zkey m1" "znode_ok m3 = znode_ok m1"
    by (simp_all add: m3_def m2_def)
  have "\<forall>b \<in> insert a (set xs). b < zbrk m3"
    using new'(1,4,5) inv by (auto simp: zset_inv_def m3_def m2_def)
  moreover have "avl_rep (ztree m3) root ys" "zhn m3 = hs" using ins(2) by (simp_all add: m3_def m2_def)
  ultimately have "zset_inv m3 (z\<lparr>zhmap := h, zroot := root\<rparr>) ys"
    using ins(3,4) h(2,3) ok unfolding zset_inv_def same3 same by simp
  moreover have "zmem_frame (insert a (set xs)) m m3"
    using new'(2,4,5) ins(5) rehung_same_outside [OF h(4)]
    by (auto simp: zmem_frame_def same_outside_def m3_def m2_def)
  moreover have "zbrk m3 = Suc (zbrk m)" using new'(4,5) by (simp add: m3_def m2_def)
  moreover have "dom (zdat m3) = insert a (dom (zdat m))"
    using m1 by (auto simp: znode_new_def Let_def m3_def m2_def)
  ultimately show ?thesis
    using h(1) ins(1,4) new'(11,12) same3
    by (intro exI [of _ hs] exI [of _ h] exI [of _ m3] exI [of _ "z\<lparr>zhmap := h, zroot := root\<rparr>"] exI [of _ ys])
      (simp add: m3_def m2_def)
qed

lemma zmap_eqI:
  assumes "zset_inv m z xs" and "\<And>nm sc. f nm = Some sc \<longleftrightarrow> (\<exists>a \<in> set xs. zname m a = nm \<and> zscore m a = sc)"
  shows "zmap m xs = f"
proof (rule ext)
  fix nm
  have "zmap m xs nm = Some sc \<longleftrightarrow> f nm = Some sc" for sc using zmap_Some [OF assms(1)] assms(2) by simp
  then show "zmap m xs nm = f nm" by (metis not_None_eq)
qed

lemma zset_insert_inv:
  assumes inv: "zset_inv m z xs" and sc: "\<not> isnan sc" and n: "n = length nm" and len: "length xs < avl_max"
  shows "\<exists>m' z' b ys. zset_insert m z nm n sc = Some (m', z', b) \<and> zset_inv m' z' ys \<and>
    zmap m' ys = zadd_spec (zmap m xs) nm sc \<and> b = (zmap m xs nm = None) \<and>
    set ys \<subseteq> insert (zbrk m) (set xs) \<and> length ys \<le> Suc (length xs) \<and>
    zmem_frame (insert (zbrk m) (set xs)) m m' \<and> ys \<noteq> [] \<and> realloc_nodes xs ys m m' \<and>
    zbrk m' = (if zmap m xs nm = None then Suc (zbrk m) else zbrk m)"
proof -
  obtain m1 z1 r where l: "zset_lookup m z nm n = Some (m1, z1, r)" "zset_inv m1 z1 xs"
    "zmem_frame (set xs) m m1" "zdat m1 = zdat m" "zbrk m1 = zbrk m" "is_znode m xs nm r"
    using zset_lookup_inv [OF inv n] by blast
  have view: "zname m1 = zname m" "zscore m1 = zscore m"
    using l(4) by (simp_all add: zname_def zscore_def fun_eq_iff)
  have map1: "zmap m1 xs = zmap m xs" by (simp add: zmap_def view)
  show ?thesis
  proof (cases r)
    case (Some a)
    then have a: "a \<in> set xs" "zname m a = nm" using l(6) by (auto simp: is_znode_def)
    have old: "zmap m xs nm = Some (zscore m a)" using zmap_node [OF inv a(1)] a(2) by simp
    obtain m2 z2 ys where u: "zset_update m1 z1 a sc = Some (m2, z2)" "zset_inv m2 z2 ys" "set ys = set xs"
      "zmem_frame (set xs) m1 m2" "zname m2 = zname m" "zbrk m2 = zbrk m"
      "zscore m2 = (if dbl_eq (zscore m a) sc then zscore m else (zscore m)(a := sc))" "dom (zdat m2) = dom (zdat m)"
      using zset_update_inv [OF l(2) a(1) sc] view l(4,5) by auto
    have inj: "zname m b = nm \<Longrightarrow> b \<in> set xs \<Longrightarrow> b = a" for b
      using zset_inv_names [OF inv] a by (auto dest: inj_onD)
    have "zmap m2 ys = zadd_spec (zmap m xs) nm sc"
    proof (rule zmap_eqI [OF u(2)])
      fix nm' sc'
      show "zadd_spec (zmap m xs) nm sc nm' = Some sc' \<longleftrightarrow>
          (\<exists>b \<in> set ys. zname m2 b = nm' \<and> zscore m2 b = sc')"
      proof (cases "nm' = nm")
        case True
        have "zadd_spec (zmap m xs) nm sc nm' = Some (zscore m2 a)"
          unfolding True zadd_spec_same old u(7) by simp
        moreover have "(\<exists>b \<in> set xs. zname m b = nm \<and> zscore m2 b = sc') \<longleftrightarrow> zscore m2 a = sc'"
          using a inj by metis
        ultimately show ?thesis unfolding u(3,5) True by simp
      next
        case False
        have "zadd_spec (zmap m xs) nm sc nm' = Some sc' \<longleftrightarrow>
            (\<exists>b \<in> set xs. zname m b = nm' \<and> zscore m b = sc')"
          using False by (simp add: zadd_spec_other zmap_Some [OF inv])
        then show ?thesis using a False unfolding u(3,5,7) by auto
      qed
    qed
    moreover have "length ys = length xs"
      using u(3) zset_inv_distinct [OF inv] zset_inv_distinct [OF u(2)] by (metis distinct_card)
    moreover have "zset_insert m z nm n sc = Some (m2, z2, False)"
      using l(1) u(1) Some by (simp add: zset_insert_def)
    moreover have "ys \<noteq> []" using u(3) a by auto
    moreover have "zmem_frame (insert (zbrk m) (set xs)) m m2"
      using zmem_frame_trans [OF l(3) u(4)] by (rule zmem_frame_mono) blast
    moreover have "set ys \<subseteq> insert (zbrk m) (set xs)" using u(3) by blast
    moreover have "False = (zmap m xs nm = None)" using old by simp
    moreover have "realloc_nodes xs ys m m2" using realloc_same [OF inv u(8,3)] .
    moreover have "zbrk m2 = (if zmap m xs nm = None then Suc (zbrk m) else zbrk m)" using old u(6) by simp
    ultimately show ?thesis using u(2)
      by (intro exI [of _ m2] exI [of _ z2] exI [of _ False] exI [of _ ys]) ((intro conjI)?; (assumption | simp))
  next
    case None
    then have new: "nm \<notin> zname m ` set xs" using l(6) by (simp add: is_znode_def zmap_None)
    obtain m2 a where m2: "znode_new m1 nm n sc = (m2, a)" by fastforce
    have a: "a = zbrk m" using znode_new_inv(4) [OF l(2) sc n m2] l(5) by simp
    have a': "a \<notin> set xs" by (rule znode_new_inv(3) [OF l(2) sc n m2])
    obtain hs h m3 z3 ys where i: "hm_insert (zhn m2) (zhmap z1) a = Some (hs, h)"
      "tree_insert (m2\<lparr>zhn := hs\<rparr>) (z1\<lparr>zhmap := h\<rparr>) a = Some (m3, z3)" "zset_inv m3 z3 ys"
      "set ys = insert a (set xs)" "zmem_frame (insert a (set xs)) m1 m3"
      "zname m3 = (zname m)(a := nm)" "zscore m3 = (zscore m)(a := sc)" "zbrk m3 = Suc (zbrk m)"
      "dom (zdat m3) = insert a (dom (zdat m))"
      using zset_insert_new [OF l(2) sc n _ len m2] new view l(4,5) by auto
    have "zmap m3 ys = zadd_spec (zmap m xs) nm sc"
    proof (rule zmap_eqI [OF i(3)])
      fix nm' sc'
      have none: "zmap m xs nm = None" using new by (simp add: zmap_None)
      show "zadd_spec (zmap m xs) nm sc nm' = Some sc' \<longleftrightarrow>
          (\<exists>b \<in> set ys. zname m3 b = nm' \<and> zscore m3 b = sc')"
      proof (cases "nm' = nm")
        case True
        then show ?thesis using a' new unfolding i(4,6,7) by (auto simp: zadd_spec_same none image_iff)
      next
        case False
        have "zadd_spec (zmap m xs) nm sc nm' = Some sc' \<longleftrightarrow>
            (\<exists>b \<in> set xs. zname m b = nm' \<and> zscore m b = sc')"
          using False by (simp add: zadd_spec_other zmap_Some [OF inv])
        then show ?thesis using a' False unfolding i(4,6,7) by auto
      qed
    qed
    moreover have "length ys = Suc (length xs)"
      using i(4) a' zset_inv_distinct [OF inv] zset_inv_distinct [OF i(3)]
      by (metis card_insert_disjoint distinct_card finite_set)
    moreover have "zset_insert m z nm n sc = Some (m3, z3, True)"
      using l(1) None m2 i(1,2) by (simp add: zset_insert_def)
    moreover have "zmem_frame (insert (zbrk m) (set xs)) m m3"
      using zmem_frame_trans [OF zmem_frame_mono [OF l(3)] i(5)] a by blast
    moreover have "ys \<noteq> []" using i(4) by auto
    moreover have "True = (zmap m xs nm = None)" using new by (simp add: zmap_None)
    moreover have "realloc_nodes xs ys m m3"
      using i(4,9) zset_inv_dom [OF inv] unfolding realloc_nodes_def by blast
    moreover have "zbrk m3 = (if zmap m xs nm = None then Suc (zbrk m) else zbrk m)"
      using i(8) new by (simp add: zmap_None)
    moreover have "set ys \<subseteq> insert (zbrk m) (set xs)" using i(4) a by blast
    ultimately show ?thesis using i(3)
      by (intro exI [of _ m3] exI [of _ z3] exI [of _ True] exI [of _ ys]) ((intro conjI)?; (assumption | simp))
  qed
qed

section \<open>Deletion\<close>

lemma zset_delete_inv:
  assumes inv: "zset_inv m z xs" and a: "a \<in> set xs"
  shows "\<exists>m' z'. zset_delete m z a = Some (m', z') \<and> zset_inv m' z' (remove1 a xs) \<and>
    zmap m' (remove1 a xs) = (zmap m xs)(zname m a := None) \<and> zmem_frame (set xs) m m' \<and>
    realloc_nodes xs (remove1 a xs) m m'"
proof -
  have ok: "znode_ok m a" using inv a by (simp add: zset_inv_def)
  then obtain d where d: "zdat m a = Some d" "len d = length (name d)" by (auto simp: znode_ok_def)
  have nm: "zname m a = name d" using d by (simp add: zname_def)
  have hi: "hm_inv (zhn m) (zhmap z) (set xs)" "hm.keyed (zhn m) (set xs) (zname m) name_hash"
    and dx: "distinct xs" and r: "avl_rep (ztree m) (zroot z) xs"
    and so: "sorted_wrt (\<lambda>a b. zkey m a < zkey m b) xs"
    using inv by (auto simp: zset_inv_def avl_rep_def)
  then obtain n where n: "zhn m a = Some n" "hcode n = name_hash (name d)"
    using a nm unfolding hm.keyed_def by auto
  have eq: "hcmp m (name d) (len d) b = Some (zname m b = name d)" if "b \<in> set xs" for b
    using hcmp_name [OF _ d(2)] inv that by (simp add: zset_inv_def)
  from hm.delete_key [OF hi eq] obtain hs h q where
    h: "hm_delete (zhn m) (zhmap z) (name_hash (name d)) (hcmp m (name d) (len d)) = Some (hs, h, q)"
      "hm_inv hs h (set xs - set_option q)" "hm.keyed hs (set xs - set_option q) (zname m) name_hash"
      "rehung (set xs) (zhn m) hs" "hm.node_of (set xs) (zname m) (name d) q" by blast
  have "name d \<in> zname m ` set xs" using a nm [symmetric] by (rule rev_image_eqI)
  moreover have "b = a" if "b \<in> set xs" "zname m b = name d" for b
    using zset_inv_names [OF inv] a nm that by (metis inj_onD)
  ultimately have q: "q = Some a" using h(5) by (auto simp: hm.node_of_def split: option.splits)
  obtain s root where del: "avl_del (ztree m) a = Some (s, root)" "avl_rep s root (remove1 a xs)"
    "same_outside (set xs) (ztree m) s" using avl_del_rep [OF r a] by blast
  define m' where "m' = znode_del (m\<lparr>zhn := hs, ztree := s\<rparr>) a"
  have rest: "set (remove1 a xs) = set xs - {a}" using dx by simp
  have view: "zname m' b = zname m b" "zscore m' b = zscore m b" "zkey m' b = zkey m b" "znode_ok m' b = znode_ok m b"
    if "b \<noteq> a" for b
    using that by (simp_all add: m'_def znode_del_def zname_def zscore_def zkey_def znode_ok_def)
  have "hm_inv (zhn m') h (set xs - {a})"
    by (rule hm.frame_law [of hs]) (use h(2) q in \<open>auto simp: m'_def znode_del_def\<close>)
  moreover have "hm.keyed (zhn m') (set xs - {a}) (zname m') name_hash"
    by (rule keyed_frame [of hs _ "zname m"]) (use h(3) q view in \<open>auto simp: m'_def znode_del_def\<close>)
  moreover have "avl_rep (ztree m') root (remove1 a xs)"
    by (rule avl_rep_frame [OF del(2), of "{a}"]) (use rest in \<open>auto simp: m'_def znode_del_def\<close>)
  moreover have "sorted_wrt (\<lambda>a b. zkey m' a < zkey m' b) (remove1 a xs)"
    by (rule sorted_wrt_mono_rel [OF _ sorted_wrt_remove1 [OF so]]) (use rest in \<open>auto simp: view\<close>)
  moreover have "\<forall>b \<in> set xs - {a}. znode_ok m' b \<and> b < zbrk m'"
    using inv by (auto simp: zset_inv_def view) (simp add: m'_def znode_del_def)
  ultimately have inv': "zset_inv m' \<lparr>zroot = root, zhmap = h\<rparr> (remove1 a xs)"
    unfolding zset_inv_def rest by simp
  have "zmap m' (remove1 a xs) = (zmap m xs)(zname m a := None)"
  proof (rule zmap_eqI [OF inv'])
    fix nm' sc'
    have inj: "zname m b = zname m a \<Longrightarrow> b \<in> set xs \<Longrightarrow> b = a" for b
      using zset_inv_names [OF inv] a by (auto dest: inj_onD)
    have "((zmap m xs)(zname m a := None)) nm' = Some sc' \<longleftrightarrow>
        nm' \<noteq> zname m a \<and> (\<exists>b \<in> set xs. zname m b = nm' \<and> zscore m b = sc')"
      by (simp add: zmap_Some [OF inv])
    also have "\<dots> \<longleftrightarrow> (\<exists>b \<in> set xs - {a}. zname m' b = nm' \<and> zscore m' b = sc')"
      using inj by (auto simp: view)
    finally show "((zmap m xs)(zname m a := None)) nm' = Some sc' \<longleftrightarrow>
        (\<exists>b \<in> set (remove1 a xs). zname m' b = nm' \<and> zscore m' b = sc')" unfolding rest .
  qed
  moreover have "zset_delete m z a = Some (m', \<lparr>zroot = root, zhmap = h\<rparr>)"
    using d n h(1) q del(1) by (simp add: zset_delete_def m'_def)
  moreover have "zmem_frame (set xs) m m'"
    using del(3) rehung_same_outside [OF h(4)] a
    by (auto simp: zmem_frame_def same_outside_def m'_def znode_del_def)
  moreover have "dom (zdat m') = dom (zdat m) - {a}" by (auto simp: m'_def znode_del_def)
  then have "realloc_nodes xs (remove1 a xs) m m'"
    using a zset_inv_dom [OF inv] unfolding realloc_nodes_def rest by auto
  ultimately show ?thesis using inv' by blast
qed

section \<open>Destruction\<close>

definition free_nodes :: "zmem \<Rightarrow> addr set \<Rightarrow> zmem" where
  "free_nodes m A = m\<lparr>ztree := ztree m |` (- A), zhn := zhn m |` (- A), zdat := zdat m |` (- A)\<rparr>"

lemma free_nodes_simps [simp]:
  "ztree (free_nodes m A) = ztree m |` (- A)" "zhn (free_nodes m A) = zhn m |` (- A)"
  "zdat (free_nodes m A) = zdat m |` (- A)" "zbrk (free_nodes m A) = zbrk m"
  "free_nodes (free_nodes m A) B = free_nodes m (A \<union> B)" "free_nodes m {} = m"
  by (simp_all add: free_nodes_def Int_commute) (simp add: restrict_map_def)

lemma znode_del_free: "znode_del m a = free_nodes m {a}"
  by (auto simp: znode_del_def free_nodes_def restrict_map_def fun_eq_iff)

lemma free_nodes_frame: "zmem_frame A m (free_nodes m A)"
  by (auto simp: zmem_frame_def same_outside_def restrict_map_def)

lemma tree_dispose_at:
  "tree_at (ztree m) par t \<Longrightarrow> distinct (inorder t) \<Longrightarrow>
   tree_dispose m (root_of t) = Some (free_nodes m (nodes t))"
proof (induction t arbitrary: m par)
  case Leaf
  show ?case by (subst tree_dispose.simps) simp
next
  case (Node l a r)
  have t: "tree_at (ztree m) (Some a) l" "tree_at (ztree m) (Some a) r" using Node.prems by auto
  define m1 where "m1 = free_nodes m (nodes l)"
  define m2 where "m2 = free_nodes m (nodes l \<union> nodes r)"
  have d1: "tree_dispose m (root_of l) = Some m1"
    using Node.IH(1) [OF t(1)] Node.prems(2) by (simp add: m1_def)
  have "same_outside (nodes l) (ztree m) (ztree m1)"
    using free_nodes_frame [of "nodes l" m] by (simp add: zmem_frame_def m1_def)
  then have "tree_at (ztree m1) (Some a) r" by (rule tree_at_frame [OF t(2)]) (use Node.prems(2) in auto)
  then have d2: "tree_dispose m1 (root_of r) = Some m2"
    using Node.IH(2) Node.prems(2) by (simp add: m1_def m2_def)
  have s: "ztree m1 a = ztree m a" "ztree m2 a = ztree m a"
    using Node.prems(2) by (auto simp: m1_def m2_def restrict_map_def)
  have "free_nodes m (nodes (Node l a r)) = znode_del m2 a"
    by (simp add: znode_del_free m2_def insert_commute Un_commute)
  then show ?case
    using Node.prems s d1 d2 by (subst tree_dispose.simps) simp
qed

lemma zset_clear_inv:
  assumes "zset_inv m z xs"
  shows "zset_clear m z = Some (free_nodes m (set xs), zset_empty)"
proof -
  obtain t where "zroot z = root_of t" "tree_at (ztree m) None t" "inorder t = xs" "distinct xs"
    using assms by (auto simp: zset_inv_def avl_rep_def)
  then show ?thesis
    using tree_dispose_at [of m None t] by (simp add: zset_clear_def zset_empty_def hm_clear_def)
qed

section \<open>Range queries\<close>

text \<open>
  The number of pairs before a key: \<open>zset_seekge\<close> finds the pair of that rank, and
  \<open>znode_offset\<close> moves from it by rank.
\<close>

definition zrank :: "zmem \<Rightarrow> addr list \<Rightarrow> u64 \<Rightarrow> bytes \<Rightarrow> nat" where
  "zrank m xs sc nm = length (filter (\<lambda>a. zkey m a < (dbl_key sc, nm)) xs)"

lemma find_sorted:
  assumes "sorted_wrt (\<lambda>a b. (f a :: 'b :: linorder) < f b) xs"
  shows "find (\<lambda>a. \<not> f a < k) xs =
    (let i = length (filter (\<lambda>a. f a < k) xs) in if i < length xs then Some (xs ! i) else None)"
  using assms
proof (induction xs)
  case (Cons x xs)
  show ?case
  proof (cases "f x < k")
    case False
    then have "\<not> f y < k" if "y \<in> set xs" for y
      using that Cons.prems by (auto dest: less_trans)
    then have "filter (\<lambda>a. f a < k) xs = []" by (simp add: filter_empty_conv)
    then show ?thesis using False by simp
  qed (use Cons in \<open>simp add: Let_def\<close>)
qed simp

definition nth_ptr :: "addr list \<Rightarrow> int \<Rightarrow> ptr" where
  "nth_ptr xs i = (if 0 \<le> i \<and> i < int (length xs) then Some (xs ! nat i) else None)"

lemma zset_query_at:
  assumes inv: "zset_inv m z xs" and "\<not> isnan sc" and "n = length nm"
  shows "zset_seekge m z sc nm n = Some (nth_ptr xs (int (zrank m xs sc nm)))"
    and "zset_seekge m z sc nm n = Some p \<Longrightarrow>
      znode_offset m p k = Some (if p = None then None else nth_ptr xs (int (zrank m xs sc nm) + k))"
proof -
  have so: "sorted_wrt (\<lambda>a b. zkey m a < zkey m b) xs" and r: "avl_rep (ztree m) (zroot z) xs"
    using inv by (auto simp: zset_inv_def)
  show 1: "zset_seekge m z sc nm n = Some (nth_ptr xs (int (zrank m xs sc nm)))"
    unfolding zset_seekge_at [OF assms] find_sorted [OF so] by (simp add: Let_def zrank_def nth_ptr_def)
  show "znode_offset m p k = Some (if p = None then None else nth_ptr xs (int (zrank m xs sc nm) + k))"
    if "zset_seekge m z sc nm n = Some p"
    using that 1 avl.offset_rep [OF r, of "zrank m xs sc nm" k]
    by (auto simp: znode_offset_def nth_ptr_def split: if_splits)
qed

text \<open>Stepping by one from any node, as the reply loop of a query does.\<close>

lemma znode_offset_next:
  assumes "zset_inv m z xs" and "j < length xs"
  shows "znode_offset m (Some (xs ! j)) 1 = Some (nth_ptr xs (int j + 1))"
  using avl.offset_rep [of "ztree m" "zroot z" xs j 1] assms by (simp add: znode_offset_def zset_inv_def nth_ptr_def)

section \<open>Properties\<close>

text \<open>A set with two pairs: (2.0, a) is added first, then (1.0, b).\<close>

definition sample_zm0 :: zmem where
  "sample_zm0 = \<lparr>ztree = (\<lambda>_. None), zhn = (\<lambda>_. None), zdat = (\<lambda>_. None), zbrk = 0\<rparr>"

definition sample_z1 :: "zmem \<times> zset \<times> bool" where
  "sample_z1 = the (zset_insert sample_zm0 zset_empty [97] 1 0x4000000000000000)"

definition sample_z2 :: "zmem \<times> zset \<times> bool" where
  "sample_z2 = the (zset_insert (fst sample_z1) (fst (snd sample_z1)) [98] 1 0x3FF0000000000000)"

lemma sample_numbers: "\<not> isnan 0x4000000000000000" "\<not> isnan 0x3FF0000000000000"
  "dbl_key 0x4000000000000000 = 0x4000000000000000" "dbl_key 0x3FF0000000000000 = 0x3FF0000000000000"
  by (simp_all add: isnan_def dbl_mag_def dbl_key_def)

lemma sample_zset1:
  "zset_inv (fst sample_z1) (fst (snd sample_z1)) [0] \<and> zbrk (fst sample_z1) = 1 \<and>
   zmap (fst sample_z1) [0] = [[97] \<mapsto> 0x4000000000000000]"
proof -
  have "zset_inv sample_zm0 zset_empty []" by simp
  from zset_insert_inv [OF this sample_numbers(1), of 1 "[97]"] obtain m z b ys where
    i: "zset_insert sample_zm0 zset_empty [97] 1 0x4000000000000000 = Some (m, z, b)" "zset_inv m z ys"
      "set ys \<subseteq> {0}" "ys \<noteq> []" "zbrk m = 1" "zmap m ys = [[97] \<mapsto> 0x4000000000000000]"
    by (auto simp: avl_max_def sample_zm0_def zmap_def zadd_spec_def)
  have "ys = [0]" using i(3,4) zset_inv_distinct [OF i(2)] by (cases ys rule: remdups_adj.cases) auto
  then show ?thesis using i by (simp add: sample_z1_def)
qed

definition sample_m :: zmem where "sample_m = fst sample_z2"
definition sample_z :: zset where "sample_z = fst (snd sample_z2)"

lemma sample_nodes:
  "zdat sample_m 0 = Some \<lparr>score = 0x4000000000000000, len = 1, name = [97]\<rparr>"
  "zdat sample_m 1 = Some \<lparr>score = 0x3FF0000000000000, len = 1, name = [98]\<rparr>"
  by code_simp+

lemma sample_views [simp]:
  "zname sample_m 0 = [97]" "zname sample_m (Suc 0) = [98]"
  "zscore sample_m 0 = 0x4000000000000000" "zscore sample_m (Suc 0) = 0x3FF0000000000000"
  using sample_nodes by (simp_all add: zname_def zscore_def)

lemma sample_zset2: "zset_inv sample_m sample_z [1, 0]"
proof -
  let ?f = "[[97] \<mapsto> 0x4000000000000000, [98] \<mapsto> 0x3FF0000000000000] :: bytes \<rightharpoonup> u64"
  note s1 = sample_zset1
  from zset_insert_inv [OF conjunct1 [OF s1] sample_numbers(2), of 1 "[98]"] obtain m z b ys where
    i: "sample_z2 = (m, z, b)" "zset_inv m z ys" "set ys \<subseteq> {0, 1}" "zmap m ys = ?f"
    using s1 by (auto simp: avl_max_def sample_z2_def zadd_spec_def insert_commute)
  have m: "m = sample_m" "z = sample_z" unfolding sample_m_def sample_z_def i(1) by simp_all
  have "\<exists>a \<in> set ys. zname m a = [97]" "\<exists>a \<in> set ys. zname m a = [98]"
    using zmap_Some [OF i(2), of "[97]" "0x4000000000000000"] zmap_Some [OF i(2), of "[98]" "0x3FF0000000000000"] i(4) by auto
  then have s: "set ys = {0, 1}" using i(3) m(1) by force
  have "length ys = 2" using s zset_inv_distinct [OF i(2)] distinct_card [of ys] by simp
  then obtain a b where ys: "ys = [a, b]" by (auto simp: length_Suc_conv numeral_2_eq_2)
  have "zkey m a < zkey m b" using i(2) ys by (simp add: zset_inv_def)
  then have "a = 1 \<and> b = 0"
    using s ys m(1) by (auto simp: doubleton_eq_iff zkey_def sample_numbers less_prod_def)
  then show ?thesis using i(2) ys m by simp
qed

text \<open>C33. \<open>zset_insert\<close> returns; it binds the name to the score in the map of the set (an equal
  score leaves the stored one), says whether the name was new, keeps both indexes in step and
  sorted, and touches no node of another set.\<close>

theorem zset_insert_correct:
  assumes "zset_inv m z xs" and "\<not> isnan sc" and "n = length nm" and "length xs < avl_max"
  shows "\<exists>m' z' b ys. zset_insert m z nm n sc = Some (m', z', b) \<and> zset_inv m' z' ys \<and>
    zmap m' ys = zadd_spec (zmap m xs) nm sc \<and> (b \<longleftrightarrow> zmap m xs nm = None) \<and>
    zmem_frame (insert (zbrk m) (set xs)) m m'"
  using zset_insert_inv [OF assms] by blast

theorem zset_insert_correct_witness:
  "\<exists>m' z' b ys. zset_insert sample_m sample_z [98] 1 0x4010000000000000 = Some (m', z', b) \<and>
    zset_inv m' z' ys \<and> zmap m' ys [98] = Some 0x4010000000000000 \<and> \<not> b"
proof -
  have "\<not> isnan 0x4010000000000000" by (simp add: isnan_def dbl_mag_def)
  from zset_insert_correct [OF sample_zset2 this, of 1 "[98]"] show ?thesis
    by (fastforce simp: avl_max_def zadd_spec_same zmap_def dbl_eq_def isnan_def dbl_key_def dbl_mag_def)
qed

text \<open>\<open>zset_lookup\<close> returns the node of the name, or NULL when the name is not in the set.\<close>

theorem zset_lookup_correct:
  assumes "zset_inv m z xs" and "n = length nm"
  shows "\<exists>m' z' r. zset_lookup m z nm n = Some (m', z', r) \<and> zset_inv m' z' xs \<and>
    zmem_frame (set xs) m m' \<and> zmap m' xs = zmap m xs \<and>
    (case r of None \<Rightarrow> zmap m xs nm = None
     | Some a \<Rightarrow> a \<in> set xs \<and> zname m' a = nm \<and> zmap m xs nm = Some (zscore m' a))"
proof -
  obtain m' z' r where l: "zset_lookup m z nm n = Some (m', z', r)" "zset_inv m' z' xs"
    "zmem_frame (set xs) m m'" "zdat m' = zdat m" "is_znode m xs nm r"
    using zset_lookup_inv [OF assms] by blast
  have "zname m' = zname m" "zscore m' = zscore m"
    using l(4) by (simp_all add: zname_def zscore_def fun_eq_iff)
  then show ?thesis using l zmap_node [OF assms(1)] by (fastforce simp: is_znode_def zmap_def split: option.splits)
qed

theorem zset_lookup_correct_witness:
  "\<exists>m' z'. zset_lookup sample_m sample_z [98] 1 = Some (m', z', Some 1) \<and> zset_inv m' z' [1, 0]"
proof -
  obtain m' z' r where "zset_lookup sample_m sample_z [98] 1 = Some (m', z', r)" "zset_inv m' z' [1, 0]"
    using zset_lookup_correct [OF sample_zset2, of 1 "[98]"] by auto
  moreover have "zset_lookup sample_m sample_z [98] 1 \<bind> (\<lambda>(m, z, r). Some r) = Some (Some 1)" by code_simp
  ultimately show ?thesis by simp
qed

text \<open>C34. \<open>zset_delete\<close> on a node of the set removes its pair and nothing else, from both indexes;
  its \<open>assert(found)\<close> cannot fail, and it does not touch the nodes of other sets.\<close>

theorem zset_delete_correct:
  assumes "zset_inv m z xs" and "a \<in> set xs"
  shows "\<exists>m' z'. zset_delete m z a = Some (m', z') \<and> zset_inv m' z' (remove1 a xs) \<and>
    zmap m' (remove1 a xs) = (zmap m xs)(zname m a := None) \<and> zmem_frame (set xs) m m'"
  using zset_delete_inv [OF assms] by blast

theorem zset_delete_correct_witness:
  "\<exists>m' z'. zset_delete sample_m sample_z 1 = Some (m', z') \<and> zset_inv m' z' [0] \<and> zmap m' [0] [98] = None"
  using zset_delete_correct [OF sample_zset2, of 1] by auto

text \<open>C35. Range queries: in the list of the pairs sorted by (score, name), \<open>zset_seekge\<close> returns the
  first that is not before the given (score, name), and \<open>znode_offset\<close> moves from it to any rank, or
  to NULL outside the list.\<close>

theorem zset_query_correct:
  assumes "zset_inv m z xs" and "\<not> isnan sc" and "n = length nm"
  shows "sorted_wrt (\<lambda>a b. (dbl_key (zscore m a), zname m a) < (dbl_key (zscore m b), zname m b)) xs \<and>
    (\<exists>p. zset_seekge m z sc nm n = Some p \<and> p = nth_ptr xs (int (zrank m xs sc nm)) \<and>
      znode_offset m p k = Some (if p = None then None else nth_ptr xs (int (zrank m xs sc nm) + k)))"
proof -
  have "sorted_wrt (\<lambda>a b. (dbl_key (zscore m a), zname m a) < (dbl_key (zscore m b), zname m b)) xs"
    using assms(1) by (simp add: zset_inv_def zkey_def)
  then show ?thesis using zset_query_at [OF assms] by blast
qed

theorem zset_query_correct_witness:
  "\<exists>p. zset_seekge sample_m sample_z 0x3FF0000000000000 [98] 1 = Some p \<and> p = Some 1 \<and>
    znode_offset sample_m p 1 = Some (Some 0)"
  using zset_query_correct [OF sample_zset2 sample_numbers(2), of 1 "[98]" 1]
  by (auto simp: zrank_def nth_ptr_def zkey_def sample_numbers less_prod_def)

text \<open>The two indexes agree: the hash table counts as many nodes as the tree, a name occurs
  once, and the pairs listed in order are exactly the pairs of the map.\<close>

theorem zset_indexes_agree:
  assumes "zset_inv m z xs"
  shows "hm_size (zhmap z) = length xs \<and> distinct (map snd (zpairs m xs)) \<and>
    (\<forall>sc nm. (sc, nm) \<in> set (zpairs m xs) \<longleftrightarrow> zmap m xs nm = Some sc)"
proof -
  have "hm_size (zhmap z) = card (set xs)"
    using assms by (intro hm_size_card [of "zhn m"]) (simp add: zset_inv_def)
  moreover have "distinct (map snd (zpairs m xs))"
    using zset_inv_names [OF assms] zset_inv_distinct [OF assms]
    by (simp add: zpairs_def comp_def distinct_map)
  ultimately show ?thesis
    using zset_inv_distinct [OF assms] by (auto simp: zpairs_def distinct_card zmap_Some [OF assms] zmap_node [OF assms])
qed

theorem zset_indexes_agree_witness:
  "hm_size (zhmap sample_z) = 2 \<and> (\<forall>sc nm. (sc, nm) \<in> set (zpairs sample_m [1, 0]) \<longleftrightarrow> zmap sample_m [1, 0] nm = Some sc)"
  using zset_indexes_agree [OF sample_zset2] by simp

text \<open>\<open>zset_clear\<close> returns, frees every node of the set, and nothing else.\<close>

theorem zset_clear_correct:
  assumes "zset_inv m z xs"
  shows "\<exists>m'. zset_clear m z = Some (m', zset_empty) \<and> zmem_frame (set xs) m m' \<and>
    (\<forall>a \<in> set xs. ztree m' a = None \<and> zhn m' a = None \<and> zdat m' a = None)"
  using zset_clear_inv [OF assms] free_nodes_frame [of "set xs" m] by (simp add: restrict_map_def)

theorem zset_clear_correct_witness:
  "\<exists>m'. zset_clear sample_m sample_z = Some (m', zset_empty) \<and> zdat m' 0 = None \<and> zdat m' 1 = None"
  using zset_clear_correct [OF sample_zset2] by auto

end
