(* ===== verification/Timer_Heap_Correct.thy ===== *)
theory Timer_Heap_Correct
  imports Timer_Heap
begin

text \<open>
  The heap is a priority queue of timers: a finite map from entries to expiry times whose
  earliest time is at index 0, and every entry with a timer knows its index. The proofs are
  about the array with the moving item put back at its hole; the order is broken at most
  around the hole.
\<close>

section \<open>The order\<close>

abbreviation value_at :: "heap \<Rightarrow> nat \<Rightarrow> u64" where
  "value_at a i \<equiv> hval (a ! i)"

text \<open>Every item but the excepted ones is not before its parent.\<close>

definition ordered :: "(nat \<Rightarrow> u64) \<Rightarrow> nat \<Rightarrow> (nat \<Rightarrow> bool) \<Rightarrow> bool" where
  "ordered v n ex \<longleftrightarrow> (\<forall>i. 0 < i \<longrightarrow> i < n \<longrightarrow> \<not> ex i \<longrightarrow> v (heap_parent i) \<le> v i)"

text \<open>The kids of \<open>p\<close> are not before the parent of \<open>p\<close>.\<close>

definition bridged :: "(nat \<Rightarrow> u64) \<Rightarrow> nat \<Rightarrow> nat \<Rightarrow> bool" where
  "bridged v n p \<longleftrightarrow> (\<forall>i. 0 < p \<longrightarrow> 0 < i \<longrightarrow> i < n \<longrightarrow> heap_parent i = p \<longrightarrow> v (heap_parent p) \<le> v i)"

lemma ordered_root: "ordered v n (\<lambda>_. False) \<Longrightarrow> i < n \<Longrightarrow> v 0 \<le> v i"
proof (induction i rule: less_induct)
  case (less i)
  show ?case
  proof (cases "i = 0")
    case False
    then have "v 0 \<le> v (heap_parent i)" using less heap_parent_less [of i] by simp
    also have "\<dots> \<le> v i" using less.prems False by (simp add: ordered_def)
    finally show ?thesis .
  qed simp
qed

lemma parent_kids: "0 < i \<Longrightarrow> heap_parent i = p \<longleftrightarrow> i = heap_left p \<or> i = heap_right p"
  by (auto simp: heap_parent_def heap_left_def heap_right_def)

lemma up_step:
  assumes o: "ordered v n (\<lambda>i. i = p)" and b: "bridged v n p" and p: "0 < p" "p < n"
    and lt: "v p < v (heap_parent p)" and v': "v' = v(p := v (heap_parent p), heap_parent p := v p)"
  shows "ordered v' n (\<lambda>i. i = heap_parent p)" and "bridged v' n (heap_parent p)"
proof -
  let ?q = "heap_parent p"
  have q: "?q < p" using p heap_parent_less by simp
  have le: "0 < i \<Longrightarrow> i < n \<Longrightarrow> i \<noteq> p \<Longrightarrow> v (heap_parent i) \<le> v i" for i
    using o by (simp add: ordered_def)
  show "ordered v' n (\<lambda>i. i = ?q)"
    unfolding ordered_def v'
  proof (intro allI impI)
    fix i assume i: "0 < i" "i < n" "i \<noteq> ?q"
    then have pi: "heap_parent i < i" by (simp add: heap_parent_less)
    consider "i = p" | "i \<noteq> p" "heap_parent i = p" | "i \<noteq> p" "heap_parent i = ?q" | "i \<noteq> p" "heap_parent i \<noteq> p" "heap_parent i \<noteq> ?q"
      by blast
    then show "(v(p := v ?q, ?q := v p)) (heap_parent i) \<le> (v(p := v ?q, ?q := v p)) i"
    proof cases
      case 1
      then show ?thesis using q lt by simp
    next
      case 2
      then show ?thesis using b i q p by (simp add: bridged_def)
    next
      case 3
      then show ?thesis using le [of i] i q lt by simp
    next
      case 4
      then show ?thesis using le [of i] i by simp
    qed
  qed
  show "bridged v' n ?q"
    unfolding bridged_def v'
  proof (intro allI impI)
    fix i assume i: "0 < ?q" "0 < i" "i < n" "heap_parent i = ?q"
    have qq: "heap_parent ?q < ?q" using i(1) by (rule heap_parent_less)
    have 1: "v (heap_parent ?q) \<le> v ?q" using le [of ?q] i(1) q p by simp
    have "i \<noteq> p \<Longrightarrow> v ?q \<le> v i" using le [of i] i by simp
    then show "(v(p := v ?q, ?q := v p)) (heap_parent ?q) \<le> (v(p := v ?q, ?q := v p)) i"
      using 1 qq q i heap_parent_less [OF i(2)] by auto
  qed
qed

lemma down_step:
  assumes o: "ordered v n (\<lambda>i. heap_parent i = p)" and b: "bridged v n p"
    and m: "0 < m" "m < n" "heap_parent m = p"
    and le: "v m < v p" "\<And>i. 0 < i \<Longrightarrow> i < n \<Longrightarrow> heap_parent i = p \<Longrightarrow> v m \<le> v i"
    and v': "v' = v(p := v m, m := v p)"
  shows "ordered v' n (\<lambda>i. heap_parent i = m)" and "bridged v' n m"
proof -
  have pm: "p < m" using m heap_parent_less [of m] by simp
  have ok: "0 < i \<Longrightarrow> i < n \<Longrightarrow> heap_parent i \<noteq> p \<Longrightarrow> v (heap_parent i) \<le> v i" for i
    using o by (simp add: ordered_def)
  show "ordered v' n (\<lambda>i. heap_parent i = m)"
    unfolding ordered_def v'
  proof (intro allI impI)
    fix i assume i: "0 < i" "i < n" "heap_parent i \<noteq> m"
    consider "i = p" | "i = m" | "i \<noteq> m" "i \<noteq> p" "heap_parent i = p" | "i \<noteq> m" "i \<noteq> p" "heap_parent i \<noteq> p"
      by blast
    then show "(v(p := v m, m := v p)) (heap_parent i) \<le> (v(p := v m, m := v p)) i"
    proof cases
      case 1
      then show ?thesis using b m i pm heap_parent_less [OF i(1)] by (auto simp: bridged_def)
    next
      case 2
      then show ?thesis using m pm le by simp
    next
      case 3
      then show ?thesis using le(2) [of i] i pm by simp
    next
      case 4
      then show ?thesis using ok [of i] i by simp
    qed
  qed
  show "bridged v' n m"
    unfolding bridged_def v'
  proof (intro allI impI)
    fix i assume i: "0 < m" "0 < i" "i < n" "heap_parent i = m"
    then have "m < i" using heap_parent_less [of i] by simp
    moreover have "v m \<le> v i" using ok [of i] i pm by simp
    ultimately show "(v(p := v m, m := v p)) (heap_parent m) \<le> (v(p := v m, m := v p)) i"
      using m pm by simp
  qed
qed

section \<open>The array and the positions the entries know\<close>

text \<open>Every item but the one at the hole has told its entry where it is.\<close>

definition refs_ok :: "heap \<Rightarrow> rstore \<Rightarrow> (nat \<Rightarrow> bool) \<Rightarrow> bool" where
  "refs_ok a rs ex \<longleftrightarrow> distinct (map href a) \<and> (\<forall>i < length a. rs (href (a ! i)) \<noteq> None) \<and>
     (\<forall>i < length a. \<not> ex i \<longrightarrow> rs (href (a ! i)) = Some i)"

text \<open>The virtual array: item \<open>t\<close> in the hole \<open>pos\<close> of \<open>a\<close>.\<close>

lemma refs_ok_move:
  assumes r: "refs_ok (a[pos := t]) rs (\<lambda>i. i = pos)" and l: "pos < length a" "q < length a" "q \<noteq> pos"
  shows "refs_ok (a[pos := a ! q, q := t]) (rs(href (a ! q) \<mapsto> pos)) (\<lambda>i. i = q)"
    and "mset (a[pos := a ! q, q := t]) = mset (a[pos := t])"
    and "modify rs (href (a ! q)) (\<lambda>_. pos) = Some (rs(href (a ! q) \<mapsto> pos))"
proof -
  let ?b = "a[pos := t]" and ?b' = "a[pos := a ! q, q := t]"
  have b': "?b' = ?b[pos := ?b ! q, q := ?b ! pos]" using l by (simp add: list_update_swap)
  show m: "mset ?b' = mset ?b" unfolding b' by (rule mset_swap) (use l in auto)
  have d: "distinct (map href ?b')"
  proof -
    have "mset (map href ?b') = mset (map href ?b)" using m by (metis mset_map)
    then show ?thesis using r mset_eq_imp_distinct_iff unfolding refs_ok_def by blast
  qed
  have s: "rs (href (a ! q)) \<noteq> None" using r l by (auto simp: refs_ok_def dest: spec [of _ q])
  then show "modify rs (href (a ! q)) (\<lambda>_. pos) = Some (rs(href (a ! q) \<mapsto> pos))" by auto
  have inj: "href (?b' ! i) = href (?b' ! j) \<Longrightarrow> i = j" if "i < length a" "j < length a" for i j
    using d that by (auto simp: distinct_map nth_eq_iff_index_eq inj_on_def dest!: bspec)
      (metis d distinct_conv_nth length_list_update length_map nth_map)?
  show "refs_ok ?b' (rs(href (a ! q) \<mapsto> pos)) (\<lambda>i. i = q)"
    unfolding refs_ok_def
  proof (intro conjI allI impI d)
    fix i assume i: "i < length ?b'"
    show "(rs(href (a ! q) \<mapsto> pos)) (href (?b' ! i)) \<noteq> None"
      using r i l by (auto simp: refs_ok_def nth_list_update)
    assume iq: "i \<noteq> q"
    show "(rs(href (a ! q) \<mapsto> pos)) (href (?b' ! i)) = Some i"
    proof (cases "i = pos")
      case False
      then have "href (?b' ! i) \<noteq> href (?b' ! pos)" using inj [of i pos] i l by auto
      moreover have "?b' ! pos = a ! q" using l by simp
      moreover have "?b' ! i = ?b ! i" using iq False by simp
      ultimately show ?thesis using r i False by (auto simp: refs_ok_def)
    qed (use l in simp)
  qed
qed

lemma refs_ok_set:
  assumes "refs_ok (a[pos := t]) rs (\<lambda>i. i = pos)" and "pos < length a"
  shows "refs_ok (a[pos := t]) (rs(href t \<mapsto> pos)) (\<lambda>_. False)"
    and "modify rs (href t) (\<lambda>_. pos) = Some (rs(href t \<mapsto> pos))"
proof -
  let ?b = "a[pos := t]"
  have "rs (href t) \<noteq> None" using assms by (auto simp: refs_ok_def dest: spec [of _ pos])
  then show "modify rs (href t) (\<lambda>_. pos) = Some (rs(href t \<mapsto> pos))" by auto
  have d: "distinct (map href ?b)" using assms(1) by (simp add: refs_ok_def)
  have inj: "href (?b ! i) \<noteq> href t" if "i < length a" "i \<noteq> pos" for i
    using d that assms(2) nth_eq_iff_index_eq [OF d, of i pos] by simp
  show "refs_ok ?b (rs(href t \<mapsto> pos)) (\<lambda>_. False)"
    using assms inj unfolding refs_ok_def by (auto simp: nth_list_update)
qed

lemma mset_set_href: "mset a = mset b \<Longrightarrow> href ` set a = href ` set b"
  by (metis set_mset_mset)

lemma hole_update: "pos < length a \<Longrightarrow> q < length a \<Longrightarrow> q \<noteq> pos \<Longrightarrow> i < length a \<Longrightarrow>
    value_at (a[pos := a ! q, q := t]) i =
    ((value_at (a[pos := t]))(pos := value_at (a[pos := t]) q, q := value_at (a[pos := t]) pos)) i"
  by (auto simp: nth_list_update)

lemma ordered_cong: "(\<And>i. i < n \<Longrightarrow> v i = v' i) \<Longrightarrow> ordered v n ex = ordered v' n ex"
  by (auto simp: ordered_def dest: heap_parent_less less_trans) (metis heap_parent_less less_trans)+

lemma bridged_cong: "(\<And>i. i < n \<Longrightarrow> v i = v' i) \<Longrightarrow> p < n \<Longrightarrow> bridged v n p = bridged v' n p"
  by (auto simp: bridged_def) (metis heap_parent_less less_trans)+

text \<open>What both loops give: the array with \<open>t\<close> in the final hole is a heap with the same items.\<close>

definition settled :: "heap \<Rightarrow> rstore \<Rightarrow> heap_item \<Rightarrow> nat \<Rightarrow> heap \<times> rstore \<times> nat \<Rightarrow> bool" where
  "settled a rs t pos res \<longleftrightarrow> (case res of (a', rs', pos') \<Rightarrow>
     pos' < length a \<and> length a' = length a \<and> mset (a'[pos' := t]) = mset (a[pos := t]) \<and>
     ordered (value_at (a'[pos' := t])) (length a) (\<lambda>_. False) \<and>
     refs_ok (a'[pos' := t]) rs' (\<lambda>i. i = pos') \<and>
     same_outside (href ` set (a[pos := t])) rs rs')"

lemma settled_step:
  assumes r: "refs_ok (a[pos := t]) rs (\<lambda>i. i = pos)" and l: "pos < length a" "q < length a" "q \<noteq> pos"
    and s: "settled (a[pos := a ! q]) (rs(href (a ! q) \<mapsto> pos)) t q res"
  shows "settled a rs t pos res"
proof -
  have m: "mset (a[pos := a ! q, q := t]) = mset (a[pos := t])" by (rule refs_ok_move(2) [OF r l])
  have "a ! q \<in> set (a[pos := t])" using l by (metis length_list_update nth_list_update_neq nth_mem)
  then have "same_outside (href ` set (a[pos := t])) rs (rs(href (a ! q) \<mapsto> pos))" by simp
  then show ?thesis
    using s mset_set_href [OF m] m by (auto simp: settled_def intro: same_outside_trans)
qed

lemma heap_up_loop_at:
  assumes "pos < length a" and "ordered (value_at (a[pos := t])) (length a) (\<lambda>i. i = pos)"
    and "bridged (value_at (a[pos := t])) (length a) pos" and "refs_ok (a[pos := t]) rs (\<lambda>i. i = pos)"
  shows "\<exists>res. heap_up_loop a rs t pos = Some res \<and> settled a rs t pos res"
  using assms
proof (induction pos arbitrary: a rs rule: less_induct)
  case (less pos)
  let ?b = "a[pos := t]" and ?q = "heap_parent pos"
  have stop: "settled a rs t pos (a, rs, pos)" if "pos = 0 \<or> value_at ?b ?q \<le> hval t"
  proof -
    have "value_at ?b (heap_parent i) \<le> value_at ?b i" if "0 < i" "i < length a" for i
      using that \<open>pos = 0 \<or> value_at ?b ?q \<le> hval t\<close> less.prems(1,2) by (cases "i = pos") (auto simp: ordered_def)
    then show ?thesis using less.prems by (auto simp: settled_def ordered_def)
  qed
  show ?case
  proof (cases "pos > 0 \<and> hval (a ! ?q) > hval t")
    case False
    then show ?thesis
      using less.prems(1) stop heap_parent_less [of pos]
      by (subst heap_up_loop.simps) auto
  next
    case True
    then have q: "?q < pos" "?q < length a" "?q \<noteq> pos" using heap_parent_less [of pos] less.prems(1) by auto
    define v where "v = value_at ?b"
    define v' where "v' = v(pos := v ?q, ?q := v pos)"
    have same: "value_at (a[pos := a ! ?q, ?q := t]) i = v' i" if "i < length a" for i
      using hole_update [OF less.prems(1) q(2,3) that] by (simp add: v_def v'_def)
    have "v pos < v ?q" using True q less.prems(1) by (simp add: v_def)
    from up_step [OF less.prems(2,3) [folded v_def] _ less.prems(1) this v'_def]
    have o: "ordered v' (length a) (\<lambda>i. i = ?q)" "bridged v' (length a) ?q" using True by auto
    note mv = refs_ok_move [OF less.prems(4,1) q(2,3)]
    let ?a' = "a[pos := a ! ?q]" and ?rs' = "rs(href (a ! ?q) \<mapsto> pos)"
    have "ordered (value_at (?a'[?q := t])) (length ?a') (\<lambda>i. i = ?q)"
      unfolding length_list_update by (rule iffD2 [OF ordered_cong [OF same] o(1)])
    moreover have "bridged (value_at (?a'[?q := t])) (length ?a') ?q"
      unfolding length_list_update by (rule iffD2 [OF bridged_cong [OF same q(2)] o(2)])
    moreover have "?q < length ?a'" using q by simp
    ultimately obtain res where res: "heap_up_loop ?a' ?rs' t ?q = Some res" "settled ?a' ?rs' t ?q res"
      using less.IH [OF q(1) _ _ _ mv(1)] by blast
    have "heap_up_loop a rs t pos = Some res"
      using True q less.prems(1) mv(3) res(1) by (subst heap_up_loop.simps) simp
    then show ?thesis using settled_step [OF less.prems(4,1) q(2,3) res(2)] by blast
  qed
qed

lemma heap_min_pos_at:
  assumes "pos < length a"
  shows "\<exists>q. heap_min_pos a t (length a) pos = Some q \<and>
    (q = pos \<and> (\<forall>i. 0 < i \<longrightarrow> i < length a \<longrightarrow> heap_parent i = pos \<longrightarrow> hval t \<le> value_at a i) \<or>
     0 < q \<and> q < length a \<and> heap_parent q = pos \<and> value_at a q < hval t \<and>
     (\<forall>i. 0 < i \<longrightarrow> i < length a \<longrightarrow> heap_parent i = pos \<longrightarrow> value_at a q \<le> value_at a i))"
proof -
  let ?l = "heap_left pos" and ?r = "heap_right pos"
  have par: "heap_parent ?l = pos" "heap_parent ?r = pos" "0 < ?l" "0 < ?r" "?l < ?r"
    by (auto simp: heap_parent_def heap_left_def heap_right_def)
  have kids: "(\<forall>i. 0 < i \<longrightarrow> i < length a \<longrightarrow> heap_parent i = pos \<longrightarrow> P i) \<longleftrightarrow>
      (?l < length a \<longrightarrow> P ?l) \<and> (?r < length a \<longrightarrow> P ?r)" for P
    using par parent_kids by metis
  show ?thesis
    unfolding kids using par by (auto simp: heap_min_pos_def Let_def)
qed

lemma heap_down_loop_at:
  assumes "pos < length a" and "ordered (value_at (a[pos := t])) (length a) (\<lambda>i. heap_parent i = pos)"
    and "bridged (value_at (a[pos := t])) (length a) pos" and "refs_ok (a[pos := t]) rs (\<lambda>i. i = pos)"
  shows "\<exists>res. heap_down_loop a rs t (length a) pos = Some res \<and> settled a rs t pos res"
  using assms
proof (induction "length a - pos" arbitrary: a rs pos rule: less_induct)
  case less
  let ?b = "a[pos := t]" and ?n = "length a"
  have other: "?b ! i = a ! i" if "0 < i" "heap_parent i = pos" for i
    using that heap_parent_less [of i] by simp
  obtain q where q: "heap_min_pos a t ?n pos = Some q"
    "q = pos \<and> (\<forall>i. 0 < i \<longrightarrow> i < ?n \<longrightarrow> heap_parent i = pos \<longrightarrow> hval t \<le> value_at a i) \<or>
     0 < q \<and> q < ?n \<and> heap_parent q = pos \<and> value_at a q < hval t \<and>
     (\<forall>i. 0 < i \<longrightarrow> i < ?n \<longrightarrow> heap_parent i = pos \<longrightarrow> value_at a q \<le> value_at a i)"
    using heap_min_pos_at [OF less.prems(1)] by blast
  show ?case
  proof (cases "q = pos")
    case True
    then have le: "hval t \<le> value_at a i" if "0 < i" "i < ?n" "heap_parent i = pos" for i
      using q(2) that heap_parent_less [of q] by auto
    have "value_at ?b (heap_parent i) \<le> value_at ?b i" if "0 < i" "i < ?n" for i
      using that le other less.prems(1,2) by (cases "heap_parent i = pos") (auto simp: ordered_def)
    then have "settled a rs t pos (a, rs, pos)" using less.prems by (auto simp: settled_def ordered_def)
    then show ?thesis using q(1) True by (subst heap_down_loop.simps) simp
  next
    case False
    then have m: "0 < q" "q < ?n" "heap_parent q = pos" and lt: "value_at a q < hval t"
      and least: "\<And>i. 0 < i \<Longrightarrow> i < ?n \<Longrightarrow> heap_parent i = pos \<Longrightarrow> value_at a q \<le> value_at a i"
      using q(2) by auto
    have pq: "pos < q" using m heap_parent_less [of q] by simp
    define v where "v = value_at ?b"
    define v' where "v' = v(pos := v q, q := v pos)"
    have same: "value_at (a[pos := a ! q, q := t]) i = v' i" if "i < ?n" for i
      using hole_update [OF less.prems(1) m(2) False that] by (simp add: v_def v'_def)
    have lt': "v q < v pos" using lt pq less.prems(1) by (simp add: v_def)
    have le': "v q \<le> v i" if "0 < i" "i < ?n" "heap_parent i = pos" for i
      using least [OF that] other [OF that(1,3)] other [OF m(1,3)] by (simp add: v_def)
    note o = down_step [OF less.prems(2,3) [folded v_def] m lt' le' v'_def]
    note mv = refs_ok_move [OF less.prems(4,1) m(2) False]
    let ?a' = "a[pos := a ! q]" and ?rs' = "rs(href (a ! q) \<mapsto> pos)"
    have "ordered (value_at (?a'[q := t])) (length ?a') (\<lambda>i. heap_parent i = q)"
      unfolding length_list_update by (rule iffD2 [OF ordered_cong [OF same] o(1)])
    moreover have "bridged (value_at (?a'[q := t])) (length ?a') q"
      unfolding length_list_update by (rule iffD2 [OF bridged_cong [OF same m(2)] o(2)])
    moreover have "length ?a' - q < ?n - pos" "q < length ?a'" using m pq by auto
    ultimately obtain res where res: "heap_down_loop ?a' ?rs' t (length ?a') q = Some res" "settled ?a' ?rs' t q res"
      using less.hyps [OF _ _ _ _ mv(1)] by blast
    have "heap_down_loop a rs t ?n pos = Some res"
      using False q(1) m less.prems(1) mv(3) res(1) by (subst heap_down_loop.simps) simp
    then show ?thesis using settled_step [OF less.prems(4,1) m(2) False res(2)] by blast
  qed
qed

section \<open>Update, insertion, removal\<close>

text \<open>A heap, except that the item at \<open>pos\<close> may have any value and its entry any index.\<close>

definition heap_but :: "heap \<Rightarrow> rstore \<Rightarrow> nat \<Rightarrow> bool" where
  "heap_but a rs pos \<longleftrightarrow>
     ordered (value_at a) (length a) (\<lambda>i. i = pos \<or> heap_parent i = pos) \<and>
     bridged (value_at a) (length a) pos \<and> refs_ok a rs (\<lambda>i. i = pos)"

definition is_heap :: "heap \<Rightarrow> rstore \<Rightarrow> bool" where
  "is_heap a rs \<longleftrightarrow> ordered (value_at a) (length a) (\<lambda>_. False) \<and> refs_ok a rs (\<lambda>_. False)"

lemma settled_heap:
  assumes s: "settled a rs (a ! pos) pos (a', rs', pos')" and pos: "pos < length a"
  shows "\<exists>a2 rs2. upd_nth a' pos' (a ! pos) = Some a2 \<and> modify rs' (href (a ! pos)) (\<lambda>_. pos') = Some rs2 \<and>
    is_heap a2 rs2 \<and> mset a2 = mset a \<and> same_outside (href ` set a) rs rs2"
proof -
  have s': "pos' < length a" "length a' = length a" "mset (a'[pos' := a ! pos]) = mset a"
    "ordered (value_at (a'[pos' := a ! pos])) (length a) (\<lambda>_. False)"
    "refs_ok (a'[pos' := a ! pos]) rs' (\<lambda>i. i = pos')" "same_outside (href ` set a) rs rs'"
    using s by (auto simp: settled_def)
  have "same_outside (href ` set a) rs (rs'(href (a ! pos) \<mapsto> pos'))"
    using s'(6) pos by (intro same_outside_upd) auto
  then show ?thesis
    using s' refs_ok_set [OF s'(5)] by (auto simp: is_heap_def)
qed

lemma heap_update_at:
  assumes h: "heap_but a rs pos" and pos: "pos < length a"
  shows "\<exists>a' rs'. heap_update a rs pos (length a) = Some (a', rs') \<and> is_heap a' rs' \<and>
    mset a' = mset a \<and> same_outside (href ` set a) rs rs'"
proof -
  let ?q = "heap_parent pos" and ?t = "a ! pos" and ?n = "length a"
  have o: "ordered (value_at a) ?n (\<lambda>i. i = pos \<or> heap_parent i = pos)" and b: "bridged (value_at a) ?n pos"
    and r: "refs_ok a rs (\<lambda>i. i = pos)" using h by (auto simp: heap_but_def)
  have u: "a[pos := ?t] = a" by simp
  show ?thesis
  proof (cases "pos > 0 \<and> value_at a ?q > value_at a pos")
    case True
    have kids: "value_at a (heap_parent i) \<le> value_at a i" if "0 < i" "i < ?n" "i \<noteq> pos" for i
    proof (cases "heap_parent i = pos")
      case True
      have "value_at a pos \<le> value_at a ?q" using \<open>pos > 0 \<and> _\<close> by (blast intro: less_imp_le)
      also have "\<dots> \<le> value_at a i" using b that True \<open>pos > 0 \<and> _\<close> by (simp add: bridged_def)
      finally show ?thesis using True by simp
    next
      case False
      then show ?thesis using o that unfolding ordered_def by blast
    qed
    then have "ordered (value_at a) ?n (\<lambda>i. i = pos)" by (simp add: ordered_def)
    then obtain a1 rs1 p1 where l: "heap_up_loop a rs ?t pos = Some (a1, rs1, p1)" "settled a rs ?t pos (a1, rs1, p1)"
      using heap_up_loop_at [of pos a ?t rs] b r pos by auto
    obtain a2 rs2 where s: "upd_nth a1 p1 ?t = Some a2" "modify rs1 (href ?t) (\<lambda>_. p1) = Some rs2"
      "is_heap a2 rs2" "mset a2 = mset a" "same_outside (href ` set a) rs rs2"
      using settled_heap [OF l(2) pos] by blast
    have "heap_update a rs pos ?n = Some (a2, rs2)"
      using l(1) s(1,2) True pos heap_parent_less [of pos] by (simp add: heap_update_def heap_up_def)
    then show ?thesis using s by blast
  next
    case False
    have "value_at a (heap_parent i) \<le> value_at a i" if "0 < i" "i < ?n" "heap_parent i \<noteq> pos" for i
    proof (cases "i = pos")
      case True
      then show ?thesis using False that by simp
    next
      case neq: False
      then show ?thesis using o that unfolding ordered_def by blast
    qed
    then have "ordered (value_at a) ?n (\<lambda>i. heap_parent i = pos)" by (simp add: ordered_def)
    then obtain a1 rs1 p1 where l: "heap_down_loop a rs ?t ?n pos = Some (a1, rs1, p1)" "settled a rs ?t pos (a1, rs1, p1)"
      using heap_down_loop_at [of pos a ?t rs] b r pos by auto
    obtain a2 rs2 where s: "upd_nth a1 p1 ?t = Some a2" "modify rs1 (href ?t) (\<lambda>_. p1) = Some rs2"
      "is_heap a2 rs2" "mset a2 = mset a" "same_outside (href ` set a) rs rs2"
      using settled_heap [OF l(2) pos] by blast
    have "heap_update a rs pos ?n = Some (a2, rs2)"
      using l(1) s(1,2) False pos heap_parent_less [of pos] by (auto simp: heap_update_def heap_down_def)
    then show ?thesis using s by blast
  qed
qed

text \<open>The heap writes the indexes of entries; it never creates or removes one.\<close>

lemma heap_up_loop_live: "heap_up_loop a rs t pos = Some (a', rs', pos') \<Longrightarrow> live rs' = live rs"
proof (induction a rs t pos rule: heap_up_loop.induct)
  case (1 a rs t pos)
  from "1.prems" show ?case
    by (subst (asm) heap_up_loop.simps)
      (auto simp: bind_eq_Some_conv split: if_splits, metis modify_live "1.IH")
qed

lemma heap_down_loop_live: "heap_down_loop a rs t len pos = Some (a', rs', pos') \<Longrightarrow> live rs' = live rs"
proof (induction a rs t len pos rule: heap_down_loop.induct)
  case (1 a rs t len pos)
  from "1.prems" show ?case
    by (subst (asm) heap_down_loop.simps)
      (auto simp: bind_eq_Some_conv split: if_splits, metis modify_live "1.IH")
qed

lemma heap_update_live: "heap_update a rs pos len = Some (a', rs') \<Longrightarrow> live rs' = live rs"
  by (auto simp: heap_update_def heap_up_def heap_down_def bind_eq_Some_conv
      dest!: modify_live heap_up_loop_live heap_down_loop_live split: if_splits)

lemma heap_delete_live: "heap_delete a rs pos = Some (a', rs') \<Longrightarrow> live rs' = live rs"
  by (auto simp: heap_delete_def Let_def bind_eq_Some_conv dest!: heap_update_live split: if_splits)

lemma heap_upsert_live: "heap_upsert a rs pos t = Some (a', rs') \<Longrightarrow> live rs' = live rs"
  by (auto simp: heap_upsert_def Let_def dest!: heap_update_live split: if_splits)

section \<open>The map of timers\<close>

definition timers :: "heap \<Rightarrow> addr \<rightharpoonup> u64" where
  "timers a = map_of (map (\<lambda>x. (href x, hval x)) a)"

definition heap_rep :: "heap \<Rightarrow> rstore \<Rightarrow> (addr \<rightharpoonup> u64) \<Rightarrow> bool" where
  "heap_rep a rs T \<longleftrightarrow> is_heap a rs \<and> timers a = T \<and> length a < no_timer \<and>
     (\<forall>e i. rs e = Some i \<longrightarrow> T e = None \<longrightarrow> i = no_timer)"

lemma timers_Some:
  "distinct (map href a) \<Longrightarrow> timers a e = Some v \<longleftrightarrow> (\<exists>x \<in> set a. href x = e \<and> hval x = v)"
  unfolding timers_def by (subst map_of_eq_Some_iff) (auto simp: comp_def)

lemma timers_None: "timers a e = None \<longleftrightarrow> e \<notin> href ` set a"
  unfolding timers_def by (auto simp: map_of_eq_None_iff image_iff)

lemma dom_timers: "dom (timers a) = href ` set a"
  by (simp add: timers_def dom_map_of_conv_image_fst image_image)

lemma is_heap_distinct: "is_heap a rs \<Longrightarrow> distinct (map href a)"
  by (simp add: is_heap_def refs_ok_def)

lemma timers_eqI:
  assumes "distinct (map href a)" and "\<And>e v. f e = Some v \<longleftrightarrow> (\<exists>x \<in> set a. href x = e \<and> hval x = v)"
  shows "timers a = f"
proof (rule ext)
  fix e
  have "timers a e = Some v \<longleftrightarrow> f e = Some v" for v using timers_Some [OF assms(1)] assms(2) by simp
  then show "timers a e = f e" by (metis not_None_eq)
qed

lemma timers_mset:
  assumes "mset a = mset b" and "distinct (map href b)"
  shows "timers a = timers b"
proof -
  have s: "set a = set b" using assms(1) by (metis set_mset_mset)
  have "mset (map href a) = mset (map href b)" using assms(1) by simp
  then have "distinct (map href a)" using assms(2) mset_eq_imp_distinct_iff by blast
  then show ?thesis by (rule timers_eqI) (simp add: s timers_Some [OF assms(2)])
qed

lemma timer_pos:
  assumes "heap_rep a rs T" and "T e \<noteq> None"
  obtains i where "i < length a" "href (a ! i) = e" "rs e = Some i" "T e = Some (value_at a i)"
proof -
  have h: "is_heap a rs" "timers a = T" using assms(1) by (auto simp: heap_rep_def)
  obtain v where v: "T e = Some v" using assms(2) by blast
  then obtain x where x: "x \<in> set a" "href x = e" "hval x = v"
    using timers_Some [OF is_heap_distinct [OF h(1)], of e v] h(2) by auto
  then obtain i where "i < length a" "a ! i = x" by (auto simp: in_set_conv_nth)
  then show ?thesis using that h(1) x v by (auto simp: is_heap_def refs_ok_def)
qed

lemma heap_but_put:
  assumes h: "is_heap a rs" and i: "i < length a"
    and t: "distinct (map href (a[i := t]))" "rs (href t) \<noteq> None"
  shows "heap_but (a[i := t]) rs i"
proof -
  have o: "value_at a (heap_parent j) \<le> value_at a j" if "0 < j" "j < length a" for j
    using h that by (simp add: is_heap_def ordered_def)
  have "value_at a (heap_parent i) \<le> value_at a j" if "0 < i" "0 < j" "j < length a" "heap_parent j = i" for j
    using o [of i] o [of j] that i by simp
  then have "bridged (value_at (a[i := t])) (length a) i"
    using heap_parent_less [of i] by (auto simp: bridged_def nth_list_update dest: heap_parent_less)
  moreover have "refs_ok (a[i := t]) rs (\<lambda>j. j = i)"
    using h i t by (auto simp: is_heap_def refs_ok_def nth_list_update)
  ultimately show ?thesis using o by (auto simp: heap_but_def ordered_def)
qed

lemma heap_but_push:
  assumes h: "is_heap a rs" and t: "href t \<notin> href ` set a" "rs (href t) \<noteq> None"
  shows "heap_but (a @ [t]) rs (length a)"
proof -
  have "value_at (a @ [t]) (heap_parent j) \<le> value_at (a @ [t]) j" if "0 < j" "j < length a" for j
    using h that heap_parent_less [of j] by (simp add: is_heap_def ordered_def nth_append)
  moreover have "bridged (value_at (a @ [t])) (Suc (length a)) (length a)"
    by (auto simp: bridged_def parent_kids heap_left_def heap_right_def)
  moreover have "refs_ok (a @ [t]) rs (\<lambda>j. j = length a)"
    using h t by (auto simp: is_heap_def refs_ok_def nth_append)
  ultimately show ?thesis by (auto simp: heap_but_def ordered_def less_Suc_eq)
qed

lemma heap_rep_finish:
  assumes r: "heap_rep a rs T" and b: "distinct (map href b)" "length b < no_timer"
    and h: "is_heap a' rs'" "mset a' = mset b" "same_outside (href ` set b) rs rs'"
    and T': "timers b = T'" and D: "href ` set b = insert e (dom T)"
  shows "heap_rep a' rs' T'"
proof -
  have l: "length a' = length b" using h(2) by (metis size_mset)
  have "dom T' = insert e (dom T)" using D T' dom_timers by blast
  then have "i = no_timer" if "rs' x = Some i" "T' x = None" for x i
  proof -
    have x: "x \<notin> insert e (dom T)" using that(2) \<open>dom T' = insert e (dom T)\<close> by blast
    then have "rs x = Some i" using same_outsideD [OF h(3), of x] D that(1) by simp
    then show ?thesis using r x by (simp add: heap_rep_def domIff)
  qed
  then show ?thesis
    using h(1) timers_mset [OF h(2) b(1)] T' l b(2) by (simp add: heap_rep_def)
qed

lemma heap_upsert_at:
  assumes r: "heap_rep a rs T" and e: "rs e = Some pos" and len: "length a + 1 < no_timer"
  shows "\<exists>a' rs'. heap_upsert a rs pos \<lparr>hval = v, href = e\<rparr> = Some (a', rs') \<and>
    heap_rep a' rs' (T(e \<mapsto> v)) \<and> same_outside (insert e (dom T)) rs rs' \<and> length a' \<le> Suc (length a)"
proof -
  let ?t = "\<lparr>hval = v, href = e\<rparr>"
  have h: "is_heap a rs" and T: "timers a = T" and d: "distinct (map href a)"
    using r is_heap_distinct by (auto simp: heap_rep_def)
  have D: "dom T = href ` set a" using T dom_timers by blast
  show ?thesis
  proof (cases "T e = None")
    case True
    have "pos = no_timer" using r e True by (auto simp: heap_rep_def)
    then have pos: "\<not> pos < length a" using r by (simp add: heap_rep_def)
    let ?b = "a @ [?t]"
    have ne: "e \<notin> href ` set a" using True T timers_None by blast
    then obtain a' rs' where u: "heap_update ?b rs (length a) (length ?b) = Some (a', rs')"
      "is_heap a' rs'" "mset a' = mset ?b" "same_outside (href ` set ?b) rs rs'"
      using heap_update_at [OF heap_but_push [OF h, of ?t]] e by auto
    have db: "distinct (map href ?b)" using d ne by simp
    have tb: "timers ?b = T(e \<mapsto> v)"
      by (rule timers_eqI [OF db]) (use ne in \<open>auto simp: T [symmetric] timers_Some [OF d]\<close>)
    have "heap_rep a' rs' (T(e \<mapsto> v))"
      by (rule heap_rep_finish [OF r db _ u(2,3,4) tb]) (use len D in auto)
    moreover have "heap_upsert a rs pos ?t = Some (a', rs')" using pos u(1) by (simp add: heap_upsert_def Let_def)
    moreover have "same_outside (insert e (dom T)) rs rs'" using u(4) D by simp
    moreover have "length a' = Suc (length a)" using u(3) by (metis size_mset length_append_singleton)
    ultimately show ?thesis by auto
  next
    case False
    then obtain i where i: "i < length a" "href (a ! i) = e" "rs e = Some i" using timer_pos [OF r] by metis
    let ?b = "a[pos := ?t]"
    have pos: "pos < length a" "href (a ! pos) = e" using i e by auto
    have same: "map href ?b = map href a" using pos by (simp add: map_update list_update_same_conv)
    then have hs: "href ` set ?b = href ` set a" by (metis list.set_map)
    obtain a' rs' where u: "heap_update ?b rs pos (length ?b) = Some (a', rs')"
      "is_heap a' rs'" "mset a' = mset ?b" "same_outside (href ` set ?b) rs rs'"
      using heap_update_at [OF heap_but_put [OF h pos(1), of ?t]] pos same d e by auto
    have db: "distinct (map href ?b)" using d same by simp
    have tb: "timers ?b = T(e \<mapsto> v)"
    proof (rule timers_eqI [OF db])
      fix e' v'
      have ex: "(\<exists>x \<in> set xs. href x = e' \<and> hval x = v') \<longleftrightarrow> (\<exists>j < length xs. href (xs ! j) = e' \<and> value_at xs j = v')" for xs
        by (metis in_set_conv_nth)
      have inj: "href (a ! j) = e \<longleftrightarrow> j = pos" if "j < length a" for j
        using that pos nth_eq_iff_index_eq [OF d, of j pos] by auto
      have "(T(e \<mapsto> v)) e' = Some v' \<longleftrightarrow> (if e' = e then v' = v else \<exists>j < length a. href (a ! j) = e' \<and> value_at a j = v')"
        using timers_Some [OF d, of e' v'] unfolding T ex by auto
      also have "\<dots> \<longleftrightarrow> (\<exists>j < length ?b. href (?b ! j) = e' \<and> value_at ?b j = v')"
      proof (cases "e' = e")
        case True
        then show ?thesis using pos inj by (auto simp: nth_list_update)
      next
        case False
        have "href (?b ! j) = e' \<and> value_at ?b j = v' \<longleftrightarrow> href (a ! j) = e' \<and> value_at a j = v'" for j
          using False pos by (cases "j = pos") auto
        then show ?thesis using False by simp
      qed
      finally show "(T(e \<mapsto> v)) e' = Some v' \<longleftrightarrow> (\<exists>x \<in> set ?b. href x = e' \<and> hval x = v')" unfolding ex .
    qed
    have "heap_rep a' rs' (T(e \<mapsto> v))"
      by (rule heap_rep_finish [OF r db _ u(2,3,4) tb, of e]) (use len D hs False in auto)
    moreover have "heap_upsert a rs pos ?t = Some (a', rs')" using pos u(1) by (simp add: heap_upsert_def Let_def)
    moreover have "same_outside (insert e (dom T)) rs rs'"
      by (rule same_outside_mono [OF u(4)]) (use D hs in auto)
    moreover have "length a' = length a" using u(3) by (metis size_mset length_list_update)
    ultimately show ?thesis by auto
  qed
qed

lemma ordered_take: "ordered v n ex \<Longrightarrow> m \<le> n \<Longrightarrow> ordered v m ex"
  by (simp add: ordered_def)

lemma is_heap_butlast:
  assumes "is_heap a rs"
  shows "is_heap (butlast a) rs"
proof -
  have nth: "butlast a ! i = a ! i" if "i < length a - 1" for i using that by (simp add: nth_butlast)
  have "ordered (value_at (butlast a)) (length (butlast a)) (\<lambda>_. False)"
    using assms nth unfolding is_heap_def ordered_def
    by (auto dest: heap_parent_less)
  moreover have "refs_ok (butlast a) rs (\<lambda>_. False)"
    using assms nth by (auto simp: is_heap_def refs_ok_def map_butlast distinct_butlast)
  ultimately show ?thesis by (simp add: is_heap_def)
qed

lemma mset_swap_out:
  assumes "pos < length a"
  shows "mset (butlast (a[pos := last a])) = mset a - {#a ! pos#}"
proof -
  let ?b = "a[pos := last a]"
  have "a \<noteq> []" using assms by auto
  then have ne: "?b \<noteq> []" "last ?b = last a" by (simp_all add: last_list_update)
  have "mset ?b = add_mset (last a) (mset a - {#a ! pos#})" using assms by (simp add: mset_update)
  moreover have "mset ?b = add_mset (last a) (mset (butlast ?b))"
    using append_butlast_last_id [OF ne(1)] ne(2) by (metis add_mset_add_single mset.simps(1,2) mset_append)
  ultimately show ?thesis by simp
qed

lemma heap_delete_at:
  assumes r: "heap_rep a rs T" and e: "T e \<noteq> None" "rs e = Some pos"
  shows "\<exists>a' rs'. heap_delete a rs pos = Some (a', rs') \<and>
    heap_rep a' (rs'(e \<mapsto> no_timer)) (T(e := None)) \<and> same_outside (dom T) rs rs' \<and> length a' < length a"
proof -
  obtain i where "i < length a" "href (a ! i) = e" "rs e = Some i" using timer_pos [OF r e(1)] by metis
  then have pos: "pos < length a" "href (a ! pos) = e" using e by auto
  have h: "is_heap a rs" and T: "timers a = T" and d: "distinct (map href a)" and len: "length a < no_timer"
    using r is_heap_distinct by (auto simp: heap_rep_def)
  have D: "dom T = href ` set a" using T dom_timers by blast
  let ?b = "butlast (a[pos := last a])"
  have mb: "mset ?b = mset a - {#a ! pos#}" by (rule mset_swap_out [OF pos(1)])
  have ma: "mset a = add_mset (a ! pos) (mset ?b)" using mb pos(1) by simp
  then have sa: "set a = insert (a ! pos) (set ?b)" by (metis set_mset_add_mset_insert set_mset_mset)
  have da: "distinct (map href (a ! pos # ?b))"
  proof -
    have "mset (map href (a ! pos # ?b)) = mset (map href a)" using ma by simp
    then show ?thesis using d mset_eq_imp_distinct_iff by blast
  qed
  have tb: "timers ?b = T(e := None)"
  proof (rule timers_eqI)
    show "distinct (map href ?b)" using da by simp
    fix e' v'
    have "href x \<noteq> e" if "x \<in> set ?b" for x using da pos(2) that by (metis distinct.simps(2) image_eqI list.set_map list.simps(9))
    then show "(T(e := None)) e' = Some v' \<longleftrightarrow> (\<exists>x \<in> set ?b. href x = e' \<and> hval x = v')"
      using pos(2) timers_Some [OF d, of e' v'] unfolding T sa by auto
  qed
  have run: "\<exists>a' rs'. heap_delete a rs pos = Some (a', rs') \<and> is_heap a' rs' \<and> mset a' = mset ?b \<and>
    same_outside (href ` set a) rs rs'"
  proof (cases "pos < length a - 1")
    case True
    have b: "?b = (butlast a)[pos := last a]" using True by (simp add: butlast_list_update)
    have ha: "is_heap (butlast a) rs" by (rule is_heap_butlast [OF h])
    have l: "pos < length (butlast a)" "a \<noteq> []" using True by auto
    have "last a \<in> set a" using l(2) by simp
    then have "rs (href (last a)) \<noteq> None" using h by (auto simp: is_heap_def refs_ok_def in_set_conv_nth)
    moreover have "distinct (map href ?b)" using da by simp
    ultimately have "heap_but ?b rs pos" unfolding b by (intro heap_but_put [OF ha l(1)]) auto
    moreover have "pos < length ?b" using True by simp
    ultimately obtain a' rs' where u: "heap_update ?b rs pos (length ?b) = Some (a', rs')" "is_heap a' rs'"
      "mset a' = mset ?b" "same_outside (href ` set ?b) rs rs'"
      using heap_update_at by blast
    have "same_outside (href ` set a) rs rs'" by (rule same_outside_mono [OF u(4)]) (use sa in auto)
    moreover have "heap_delete a rs pos = Some (a', rs')"
      using u(1) pos l by (simp add: heap_delete_def Let_def)
    ultimately show ?thesis using u(2,3) by blast
  next
    case False
    then have "pos = length a - 1" using pos by simp
    then have "?b = butlast a" using pos by (metis butlast_list_update)
    moreover have "a \<noteq> []" using pos by auto
    ultimately show ?thesis using is_heap_butlast [OF h] pos False by (auto simp: heap_delete_def Let_def)
  qed
  then obtain a' rs' where u: "heap_delete a rs pos = Some (a', rs')" "is_heap a' rs'" "mset a' = mset ?b"
    "same_outside (href ` set a) rs rs'" by blast
  have la: "length a' = length a - 1" using u(3) by (metis length_butlast length_list_update size_mset)
  have ta: "timers a' = T(e := None)" using timers_mset [OF u(3)] da tb by simp
  have "e \<notin> href ` set a'"
    using ta timers_None [of a' e] by simp
  then have "is_heap a' (rs'(e \<mapsto> no_timer))"
    using u(2) unfolding is_heap_def refs_ok_def by (auto simp: image_iff)
  moreover have "i = no_timer" if "(rs'(e \<mapsto> no_timer)) x = Some i" "(T(e := None)) x = None" for x i
  proof (cases "x = e")
    case False
    then have "x \<notin> dom T" using that(2) by (simp add: domIff)
    then have "rs x = Some i" using same_outsideD [OF u(4), of x] D that(1) False by simp
    then show ?thesis using r \<open>x \<notin> dom T\<close> by (simp add: heap_rep_def domIff)
  qed (use that in simp)
  ultimately have "heap_rep a' (rs'(e \<mapsto> no_timer)) (T(e := None))"
    using ta la len by (auto simp: heap_rep_def)
  moreover have "length a' < length a" using la pos by simp
  ultimately show ?thesis using u(1,4) D by auto
qed

section \<open>The interface\<close>

text \<open>
  What the server asks of its timers: to set the timer of an entry, to remove it, and to see the
  earliest one. \<open>rs\<close> is the index every entry holds; the law of removal stores \<open>no_timer\<close> there,
  as its callers do.
\<close>

definition heap_top :: "heap \<Rightarrow> heap_item option" where
  "heap_top a = (case a of [] \<Rightarrow> None | x # _ \<Rightarrow> Some x)"

locale timer_queue =
  fixes rep :: "'h \<Rightarrow> rstore \<Rightarrow> (addr \<rightharpoonup> u64) \<Rightarrow> bool"
    and upsert :: "'h \<Rightarrow> rstore \<Rightarrow> nat \<Rightarrow> heap_item \<Rightarrow> ('h \<times> rstore) option"
    and delete :: "'h \<Rightarrow> rstore \<Rightarrow> nat \<Rightarrow> ('h \<times> rstore) option"
    and top :: "'h \<Rightarrow> heap_item option"
  assumes upsert_law: "rep a rs T \<Longrightarrow> rs e = Some pos \<Longrightarrow> card (dom T) + 1 < no_timer \<Longrightarrow>
      \<exists>a' rs'. upsert a rs pos \<lparr>hval = v, href = e\<rparr> = Some (a', rs') \<and> rep a' rs' (T(e \<mapsto> v)) \<and>
        same_outside (insert e (dom T)) rs rs'"
    and delete_law: "rep a rs T \<Longrightarrow> T e \<noteq> None \<Longrightarrow> rs e = Some pos \<Longrightarrow>
      \<exists>a' rs'. delete a rs pos = Some (a', rs') \<and> rep a' (rs'(e \<mapsto> no_timer)) (T(e := None)) \<and>
        same_outside (dom T) rs rs'"
    and top_law: "rep a rs T \<Longrightarrow> (case top a of None \<Rightarrow> T = Map.empty
      | Some x \<Rightarrow> T (href x) = Some (hval x) \<and> (\<forall>e v. T e = Some v \<longrightarrow> hval x \<le> v))"
    and index_law: "rep a rs T \<Longrightarrow> rs e = Some i \<Longrightarrow> i = no_timer \<longleftrightarrow> T e = None"
    and alloc_law: "rep a rs T \<Longrightarrow> T e \<noteq> None \<Longrightarrow> rs e \<noteq> None"
    and fresh_law: "rep a rs T \<Longrightarrow> rs e = None \<Longrightarrow> rep a (rs(e \<mapsto> no_timer)) T"
    and free_law: "rep a rs T \<Longrightarrow> T e = None \<Longrightarrow> rep a (rs(e := None)) T"
begin

lemma none_due: "rep a rs T \<Longrightarrow> top a = Some x \<Longrightarrow> \<not> hval x \<le> now \<Longrightarrow> T e = Some v \<Longrightarrow> \<not> v \<le> now"
  using top_law [of a rs T] by (auto dest: order_trans)

lemma top_timer: "rep a rs T \<Longrightarrow> top a = Some x \<Longrightarrow>
  T (href x) = Some (hval x) \<and> (\<exists>i. rs (href x) = Some i \<and> i \<noteq> no_timer)"
  using top_law [of a rs T] alloc_law [of a rs T "href x"] index_law [of a rs T "href x"] by auto

lemma top_None: "rep a rs T \<Longrightarrow> top a = None \<longleftrightarrow> T = Map.empty"
  using top_law [of a rs T] by (auto split: option.splits)

text \<open>Taking the earliest timer out leaves the later ones.\<close>

lemma delete_top:
  assumes "rep a rs T" and "top a = Some x" and "rs (href x) = Some pos"
  shows "\<exists>a' rs'. delete a rs pos = Some (a', rs') \<and> rep a' (rs'(href x \<mapsto> no_timer)) (T(href x := None)) \<and>
    same_outside (dom T) rs rs'"
  using delete_law [OF assms(1) _ assms(3)] top_timer [OF assms(1,2)] by simp

lemma card_delete: "finite (dom T) \<Longrightarrow> T e \<noteq> None \<Longrightarrow> card (dom (T(e := None))) < card (dom T)"
  unfolding dom_fun_upd by (auto intro: psubset_card_mono)

end

lemma heap_rep_card:
  assumes "heap_rep a rs T"
  shows "card (dom T) = length a"
proof -
  have d: "distinct (map href a)" and T: "timers a = T"
    using assms is_heap_distinct by (auto simp: heap_rep_def)
  have "card (dom T) = card (set (map href a))" using T dom_timers [of a] by simp
  also have "\<dots> = length a" using distinct_card [OF d] by simp
  finally show ?thesis .
qed

lemma heap_rep_top:
  assumes "heap_rep a rs T"
  shows "case heap_top a of None \<Rightarrow> T = Map.empty
    | Some x \<Rightarrow> T (href x) = Some (hval x) \<and> (\<forall>e v. T e = Some v \<longrightarrow> hval x \<le> v)"
proof (cases a)
  case Nil
  then show ?thesis using assms by (simp add: heap_top_def heap_rep_def timers_def)
next
  case (Cons x xs)
  have h: "is_heap a rs" and T: "timers a = T" using assms by (auto simp: heap_rep_def)
  note some = timers_Some [OF is_heap_distinct [OF h]]
  have "T (href x) = Some (hval x)" using some [of "href x" "hval x"] Cons T by auto
  moreover have "hval x \<le> v" if "T e = Some v" for e v
  proof -
    have "timers a e = Some v" using that T by simp
    then obtain y where "y \<in> set a" "hval y = v" unfolding some by blast
    then obtain i where "i < length a" "value_at a i = v" by (auto simp: in_set_conv_nth)
    then show ?thesis using ordered_root [of "value_at a" "length a" i] h Cons by (auto simp: is_heap_def)
  qed
  ultimately show ?thesis using Cons by (simp add: heap_top_def)
qed

lemma heap_rep_index:
  assumes "heap_rep a rs T" and "rs e = Some i"
  shows "i = no_timer \<longleftrightarrow> T e = None"
proof
  assume "i = no_timer"
  show "T e = None"
  proof (rule ccontr)
    assume "T e \<noteq> None"
    then obtain j where "j < length a" "rs e = Some j" using timer_pos [OF assms(1)] by metis
    then show False using assms \<open>i = no_timer\<close> by (simp add: heap_rep_def)
  qed
qed (use assms in \<open>simp add: heap_rep_def\<close>)

interpretation timer: timer_queue heap_rep heap_upsert heap_delete heap_top
proof unfold_locales
  fix a rs T e pos v assume r: "heap_rep a rs T" "rs e = Some pos" "card (dom T) + 1 < no_timer"
  then show "\<exists>a' rs'. heap_upsert a rs pos \<lparr>hval = v, href = e\<rparr> = Some (a', rs') \<and> heap_rep a' rs' (T(e \<mapsto> v)) \<and>
      same_outside (insert e (dom T)) rs rs'"
    using heap_upsert_at [OF r(1,2)] heap_rep_card [OF r(1)] by simp blast
next
  fix a rs T e pos assume "heap_rep a rs T" "T e \<noteq> None" "rs e = Some pos"
  then show "\<exists>a' rs'. heap_delete a rs pos = Some (a', rs') \<and> heap_rep a' (rs'(e \<mapsto> no_timer)) (T(e := None)) \<and>
      same_outside (dom T) rs rs'"
    using heap_delete_at by blast
next
  fix a rs T assume "heap_rep a rs T"
  then show "case heap_top a of None \<Rightarrow> T = Map.empty
    | Some x \<Rightarrow> T (href x) = Some (hval x) \<and> (\<forall>e v. T e = Some v \<longrightarrow> hval x \<le> v)"
    by (rule heap_rep_top)
next
  fix a rs T e i assume "heap_rep a rs T" "rs e = Some i"
  then show "i = no_timer \<longleftrightarrow> T e = None" by (rule heap_rep_index)
next
  fix a rs T e assume "heap_rep a rs T" "T e \<noteq> None"
  then show "rs e \<noteq> None" by (metis timer_pos option.distinct(1))
next
  fix a rs T e assume r: "heap_rep a rs T" and e: "rs e = None"
  then have "T e = None" by (metis timer_pos option.distinct(1))
  then have "e \<notin> href ` set a" using r timers_None [of a e] by (simp add: heap_rep_def)
  then have "is_heap a (rs(e \<mapsto> no_timer))"
    using r unfolding heap_rep_def is_heap_def refs_ok_def by (auto simp: image_iff)
  then show "heap_rep a (rs(e \<mapsto> no_timer)) T" using r by (auto simp: heap_rep_def)
next
  fix a rs T e assume r: "heap_rep a rs T" and e: "T e = None"
  then have "e \<notin> href ` set a" using timers_None [of a e] by (simp add: heap_rep_def)
  then have "is_heap a (rs(e := None))"
    using r unfolding heap_rep_def is_heap_def refs_ok_def by (auto simp: image_iff)
  then show "heap_rep a (rs(e := None)) T" using r by (auto simp: heap_rep_def)
qed

section \<open>Properties\<close>

text \<open>Three entries with timers, and entry 9 without one.\<close>

definition sample_heap :: heap where
  "sample_heap = [\<lparr>hval = 10, href = 1\<rparr>, \<lparr>hval = 30, href = 2\<rparr>, \<lparr>hval = 20, href = 3\<rparr>]"

definition sample_rs :: rstore where
  "sample_rs = [1 \<mapsto> 0, 2 \<mapsto> 1, 3 \<mapsto> 2, 9 \<mapsto> no_timer]"

definition sample_T :: "addr \<rightharpoonup> u64" where
  "sample_T = [1 \<mapsto> 10, 2 \<mapsto> 30, 3 \<mapsto> 20]"

lemma sample_heap_rep: "heap_rep sample_heap sample_rs sample_T"
proof -
  have three: "i = 0 \<or> i = 1 \<or> i = 2" if "i < 3" for i :: nat using that by linarith
  have "ordered (value_at sample_heap) 3 (\<lambda>_. False)"
    unfolding ordered_def by (auto dest!: three simp: sample_heap_def heap_parent_def)
  moreover have "refs_ok sample_heap sample_rs (\<lambda>_. False)"
    unfolding refs_ok_def by (auto dest!: three simp: sample_heap_def sample_rs_def eval_nat_numeral less_Suc_eq)
  moreover have "length sample_heap = 3" by (simp add: sample_heap_def)
  moreover have "timers sample_heap = sample_T" "\<forall>e i. sample_rs e = Some i \<longrightarrow> sample_T e = None \<longrightarrow> i = no_timer"
    by (auto simp: timers_def sample_heap_def sample_rs_def sample_T_def split: if_splits)
  ultimately show ?thesis by (simp add: heap_rep_def is_heap_def no_timer_def)
qed

text \<open>C36. \<open>heap_upsert\<close> sets the timer of an entry, adding it or moving it: the heap order holds
  again, every entry with a timer knows the index of its item, and all other timers and the indexes
  of entries without one are unchanged.\<close>

theorem heap_upsert_correct:
  assumes "heap_rep a rs T" and "rs e = Some pos" and "card (dom T) + 1 < no_timer"
  shows "\<exists>a' rs'. heap_upsert a rs pos \<lparr>hval = v, href = e\<rparr> = Some (a', rs') \<and> heap_rep a' rs' (T(e \<mapsto> v)) \<and>
    same_outside (insert e (dom T)) rs rs'"
  using assms by (rule timer.upsert_law)

theorem heap_upsert_correct_witness:
  "\<exists>a' rs'. heap_upsert sample_heap sample_rs 1 \<lparr>hval = 5, href = 2\<rparr> = Some (a', rs') \<and>
    heap_rep a' rs' (sample_T(2 \<mapsto> 5))"
proof -
  have "sample_rs 2 = Some 1" "card (dom sample_T) + 1 < no_timer"
    by (simp_all add: sample_rs_def sample_T_def no_timer_def)
  from heap_upsert_correct [OF sample_heap_rep this, of 5] show ?thesis by blast
qed

text \<open>C37. \<open>heap_delete\<close> removes the timer of the entry at that index and no other; after the caller
  resets the index of the entry, the heap is again a heap that every entry knows its place in.\<close>

theorem heap_delete_correct:
  assumes "heap_rep a rs T" and "T e \<noteq> None" and "rs e = Some pos"
  shows "\<exists>a' rs'. heap_delete a rs pos = Some (a', rs') \<and> heap_rep a' (rs'(e \<mapsto> no_timer)) (T(e := None)) \<and>
    same_outside (dom T) rs rs'"
  using assms by (rule timer.delete_law)

theorem heap_delete_correct_witness:
  "\<exists>a' rs'. heap_delete sample_heap sample_rs 0 = Some (a', rs') \<and>
    heap_rep a' (rs'(1 \<mapsto> no_timer)) (sample_T(1 := None))"
proof -
  have "sample_T 1 \<noteq> None" "sample_rs 1 = Some 0" by (simp_all add: sample_T_def sample_rs_def)
  from heap_delete_correct [OF sample_heap_rep this] show ?thesis by blast
qed

text \<open>Item 0 is the earliest timer, for an empty and for a non-empty heap.\<close>

theorem heap_top_correct:
  assumes "heap_rep a rs T"
  shows "case heap_top a of None \<Rightarrow> T = Map.empty
    | Some x \<Rightarrow> T (href x) = Some (hval x) \<and> (\<forall>e v. T e = Some v \<longrightarrow> hval x \<le> v)"
  using assms by (rule timer.top_law)

theorem heap_top_correct_witness:
  "\<exists>x. heap_top sample_heap = Some x \<and> sample_T (href x) = Some (hval x) \<and> hval x \<le> 30 \<and> hval x \<le> 20"
proof -
  have t: "heap_top sample_heap = Some \<lparr>hval = 10, href = 1\<rparr>" by (simp add: heap_top_def sample_heap_def)
  have "sample_T 2 = Some 30" "sample_T 3 = Some 20" by (simp_all add: sample_T_def)
  then show ?thesis using heap_top_correct [OF sample_heap_rep] unfolding t option.case by fastforce
qed

end
