(* ===== verification/Server_Correct.thy ===== *)
theory Server_Correct
  imports Server Zset_Correct Timer_Heap_Correct Protocol_Correct
begin

text \<open>
  The database implements a finite map: every command computes, on a map from keys to a string or
  a map from names to scores, with an optional expiry time, the new map and the reply that the
  abstract specification gives, and it writes the encoding of that reply.
\<close>

section \<open>The abstract database\<close>

datatype avalue = AStr bytes | AZset "bytes \<rightharpoonup> u64"

type_synonym adb = "bytes \<rightharpoonup> avalue \<times> u64 option"

section \<open>The invariant\<close>

text \<open>
  The entries are at the addresses \<open>A\<close>; \<open>Z a\<close> lists the nodes of the set of entry \<open>a\<close>, and \<open>T\<close> are
  the timers. The hash index is apart from the rest, because deletion takes an entry out of it first.
\<close>

definition ent :: "gdata \<Rightarrow> addr \<Rightarrow> entry" where
  "ent g a = the (ents g a)"

definition ename :: "gdata \<Rightarrow> addr \<Rightarrow> bytes" where
  "ename g a = ekey (ent g a)"

definition index_ok :: "gdata \<Rightarrow> addr set \<Rightarrow> bool" where
  "index_ok g A \<longleftrightarrow> hm_inv (db_nodes g) (db g) A \<and> hm.keyed (db_nodes g) A (ename g) name_hash"

text \<open>The nodes that are allocated are those of the sets, and an entry with a string has no set.\<close>

definition nodes_ok :: "gdata \<Rightarrow> addr set \<Rightarrow> (addr \<Rightarrow> addr list) \<Rightarrow> bool" where
  "nodes_ok g A Z \<longleftrightarrow> dom (zdat (zm g)) = (\<Union>a \<in> A. set (Z a)) \<and> (\<forall>a \<in> A. etype (ent g a) = T_STR \<longrightarrow> Z a = [])"

definition core_ok :: "gdata \<Rightarrow> addr set \<Rightarrow> (addr \<Rightarrow> addr list) \<Rightarrow> (addr \<rightharpoonup> u64) \<Rightarrow> bool" where
  "core_ok g A Z T \<longleftrightarrow>
     dom (ents g) = A \<and> dom (idx g) = A \<and> (\<forall>a \<in> A. a < ebrk g) \<and>
     heap_rep (theap g) (idx g) T \<and>
     (\<forall>a \<in> A. (etype (ent g a) = T_STR \<or> etype (ent g a) = T_ZSET) \<and> zset_inv (zm g) (ezset (ent g a)) (Z a)) \<and>
     (\<forall>a \<in> A. \<forall>b \<in> A. a \<noteq> b \<longrightarrow> set (Z a) \<inter> set (Z b) = {}) \<and> nodes_ok g A Z"

definition aval :: "gdata \<Rightarrow> (addr \<Rightarrow> addr list) \<Rightarrow> addr \<Rightarrow> avalue" where
  "aval g Z a = (if etype (ent g a) = T_STR then AStr (estr (ent g a)) else AZset (zmap (zm g) (Z a)))"

definition srv_rel :: "gdata \<Rightarrow> addr set \<Rightarrow> (addr \<Rightarrow> addr list) \<Rightarrow> (addr \<rightharpoonup> u64) \<Rightarrow> adb \<Rightarrow> bool" where
  "srv_rel g A Z T s \<longleftrightarrow> index_ok g A \<and> core_ok g A Z T \<and>
     (\<forall>a \<in> A. s (ename g a) = Some (aval g Z a, T a)) \<and> dom s = ename g ` A"

text \<open>The concrete database \<open>g\<close> implements the abstract one.\<close>

definition implements :: "gdata \<Rightarrow> adb \<Rightarrow> bool" where
  "implements g s \<longleftrightarrow> (\<exists>A Z T. srv_rel g A Z T s)"

lemma implementsI: "srv_rel g A Z T s \<Longrightarrow> implements g s"
  by (auto simp: implements_def)

lemma srv_rel_key:
  assumes "srv_rel g A Z T s"
  shows "s key = None \<longleftrightarrow> key \<notin> ename g ` A" and "inj_on (ename g) A"
    and "a \<in> A \<Longrightarrow> s (ename g a) = Some (aval g Z a, T a)"
  using assms by (auto simp: srv_rel_def index_ok_def hm.keyed_def domIff)

lemma srv_rel_ent: "srv_rel g A Z T s \<Longrightarrow> a \<in> A \<Longrightarrow> ents g a = Some (ent g a)"
  by (auto simp: srv_rel_def core_ok_def ent_def)

text \<open>Steps of the hash index change the hash nodes and the table only.\<close>

lemma ent_simps [simp]:
  "ent (g\<lparr>db_nodes := hs\<rparr>) = ent g" "ent (g\<lparr>db := h\<rparr>) = ent g" "ent (g\<lparr>idx := rs\<rparr>) = ent g"
  "ent (g\<lparr>theap := hp\<rparr>) = ent g" "ent (g\<lparr>zm := m\<rparr>) = ent g"
  by (auto simp: ent_def fun_eq_iff)

lemma ename_simps [simp]:
  "ename (g\<lparr>db_nodes := hs\<rparr>) = ename g" "ename (g\<lparr>db := h\<rparr>) = ename g" "ename (g\<lparr>idx := rs\<rparr>) = ename g"
  "ename (g\<lparr>theap := hp\<rparr>) = ename g" "ename (g\<lparr>zm := m\<rparr>) = ename g"
  by (auto simp: ename_def fun_eq_iff)

lemma aval_simps [simp]:
  "aval (g\<lparr>db_nodes := hs\<rparr>) = aval g" "aval (g\<lparr>db := h\<rparr>) = aval g" "aval (g\<lparr>idx := rs\<rparr>) = aval g"
  "aval (g\<lparr>theap := hp\<rparr>) = aval g"
  by (auto simp: aval_def fun_eq_iff)

lemma nodes_simps [simp]:
  "nodes_ok (g\<lparr>db_nodes := hs\<rparr>) = nodes_ok g" "nodes_ok (g\<lparr>db := h\<rparr>) = nodes_ok g" "nodes_ok (g\<lparr>idx := rs\<rparr>) = nodes_ok g"
  "nodes_ok (g\<lparr>theap := hp\<rparr>) = nodes_ok g"
  by (auto simp: nodes_ok_def fun_eq_iff)

lemma core_simps [simp]:
  "core_ok (g\<lparr>db_nodes := hs\<rparr>) A Z T = core_ok g A Z T" "core_ok (g\<lparr>db := h\<rparr>) A Z T = core_ok g A Z T"
  by (auto simp: core_ok_def)

lemma index_simps [simp]:
  "index_ok (g\<lparr>idx := rs\<rparr>) A = index_ok g A" "index_ok (g\<lparr>theap := hp\<rparr>) A = index_ok g A"
  "index_ok (g\<lparr>zm := m\<rparr>) A = index_ok g A"
  by (auto simp: index_ok_def)

section \<open>Looking an entry up\<close>

definition found :: "gdata \<Rightarrow> addr set \<Rightarrow> bytes \<Rightarrow> ptr \<Rightarrow> bool" where
  "found g A key r \<longleftrightarrow> (case r of None \<Rightarrow> key \<notin> ename g ` A | Some a \<Rightarrow> a \<in> A \<and> ename g a = key)"

lemma entry_eq_key: "core_ok g A Z T \<Longrightarrow> a \<in> A \<Longrightarrow> entry_eq g key a = Some (ename g a = key)"
  by (auto simp: entry_eq_def core_ok_def ename_def ent_def)

lemma lookup_entry_rel:
  assumes r: "srv_rel g A Z T s"
  shows "\<exists>hs h p. lookup_entry g key = Some (g\<lparr>db_nodes := hs, db := h\<rparr>, p) \<and>
    srv_rel (g\<lparr>db_nodes := hs, db := h\<rparr>) A Z T s \<and> found g A key p"
proof -
  have c: "core_ok g A Z T" and i: "hm_inv (db_nodes g) (db g) A" "hm.keyed (db_nodes g) A (ename g) name_hash"
    using r by (auto simp: srv_rel_def index_ok_def)
  obtain hs h p where l: "hm_lookup (db_nodes g) (db g) (name_hash key) (entry_eq g key) = Some (hs, h, p)"
    "hm_inv hs h A" "hm.keyed hs A (ename g) name_hash" "hm.node_of A (ename g) key p"
    using hm.lookup_key [OF i entry_eq_key [OF c]] by blast
  have "lookup_entry g key = Some (g\<lparr>db_nodes := hs, db := h\<rparr>, p)"
    using l(1) by (simp add: lookup_entry_def name_hash_def)
  moreover have "srv_rel (g\<lparr>db_nodes := hs, db := h\<rparr>) A Z T s"
    using r l(2,3) by (simp add: srv_rel_def index_ok_def)
  moreover have "found g A key p" using l(4) by (auto simp: found_def hm.node_of_def split: option.splits)
  ultimately show ?thesis by blast
qed

lemma lookup_cases:
  assumes r: "srv_rel g A Z T s"
  obtains (absent) g1 where "lookup_entry g key = Some (g1, None)" "srv_rel g1 A Z T s" "s key = None"
  | (present) g1 a where "lookup_entry g key = Some (g1, Some a)" "srv_rel g1 A Z T s" "a \<in> A"
      "ename g1 a = key" "ents g1 a = Some (ent g1 a)" "s key = Some (aval g1 Z a, T a)"
proof -
  obtain hs h p where l: "lookup_entry g key = Some (g\<lparr>db_nodes := hs, db := h\<rparr>, p)"
    "srv_rel (g\<lparr>db_nodes := hs, db := h\<rparr>) A Z T s" "found g A key p" using lookup_entry_rel [OF r] by blast
  show thesis
  proof (cases p)
    case None
    then show ?thesis using absent l srv_rel_key(1) [OF r] by (simp add: found_def)
  next
    case (Some a)
    then have a: "a \<in> A" "ename g a = key" using l(3) by (auto simp: found_def)
    show ?thesis
      using present [OF l(1) [unfolded Some] l(2) a(1)] srv_rel_key(3) [OF l(2) a(1)]
        srv_rel_ent [OF l(2) a(1)] a(2) by simp
  qed
qed

section \<open>\<open>get\<close>\<close>

definition get_reply :: "adb \<Rightarrow> bytes \<Rightarrow> reply" where
  "get_reply s key = (case s key of
     None \<Rightarrow> RNil
   | Some (AStr v, _) \<Rightarrow> RStr v
   | Some (AZset _, _) \<Rightarrow> RErr ERR_BAD_TYP (ascii ''not a string value''))"

lemma do_get_rel:
  assumes r: "srv_rel g A Z T s" and c: "length cmd = 2"
  shows "\<exists>g'. do_get g cmd out = Some (g', out @ enc (get_reply s (cmd ! 1))) \<and> srv_rel g' A Z T s"
proof (cases rule: lookup_cases [OF r, of "cmd ! 1", case_names absent present])
  case (absent g1)
  then show ?thesis using c by (simp add: do_get_def get_reply_def out_enc)
next
  case (present g1 a)
  then show ?thesis using c by (auto simp: do_get_def get_reply_def out_enc aval_def)
qed

section \<open>Changing the value of an entry\<close>

text \<open>The strings of an entry.\<close>

lemma set_str_rel:
  assumes r: "srv_rel g A Z T s" and a: "a \<in> A" and t: "etype (ent g a) = T_STR"
  shows "srv_rel (g\<lparr>ents := (ents g)(a \<mapsto> (ent g a)\<lparr>estr := v\<rparr>)\<rparr>) A Z T (s(ename g a \<mapsto> (AStr v, T a)))"
proof -
  let ?g = "g\<lparr>ents := (ents g)(a \<mapsto> (ent g a)\<lparr>estr := v\<rparr>)\<rparr>"
  have e: "ent ?g b = (if b = a then (ent g a)\<lparr>estr := v\<rparr> else ent g b)" for b by (simp add: ent_def)
  then have n: "ename ?g = ename g" by (auto simp: ename_def fun_eq_iff)
  have "nodes_ok ?g A Z" if "nodes_ok g A Z" using that by (simp add: nodes_ok_def e)
  then have "core_ok ?g A Z T" using r a by (auto simp: srv_rel_def core_ok_def e)
  moreover have "index_ok ?g A" using r by (simp add: srv_rel_def index_ok_def n)
  moreover have "aval ?g Z b = (if b = a then AStr v else aval g Z b)" for b
    using t by (simp add: aval_def e)
  moreover have "ename g b \<noteq> ename g a" if "b \<in> A" "b \<noteq> a" for b
    using srv_rel_key(2) [OF r] a that by (auto dest: inj_onD)
  moreover have "dom (s(ename g a \<mapsto> (AStr v, T a))) = ename g ` A" using r a by (auto simp: srv_rel_def)
  ultimately show ?thesis using r by (auto simp: srv_rel_def n)
qed

text \<open>The sorted set of an entry; other sets are elsewhere in memory.\<close>

lemma zmap_frame: "zmem_frame F m m' \<Longrightarrow> F \<inter> set xs = {} \<Longrightarrow> zmap m' xs = zmap m xs"
  unfolding zmap_def by (rule arg_cong [of _ _ map_of], rule map_cong)
    (auto simp: zname_def zscore_def zmem_frame_def same_outside_def)

lemma set_zset_rel:
  assumes r: "srv_rel g A Z T s" and a: "a \<in> A" and t: "etype (ent g a) = T_ZSET"
    and z: "zset_inv m z ys" and f: "zmem_frame (insert (zbrk (zm g)) (set (Z a))) (zm g) m"
    and ys: "set ys \<subseteq> insert (zbrk (zm g)) (set (Z a))" and re: "realloc_nodes (Z a) ys (zm g) m"
  shows "srv_rel (g\<lparr>zm := m, ents := (ents g)(a \<mapsto> (ent g a)\<lparr>ezset := z\<rparr>)\<rparr>) A (Z(a := ys)) T
    (s(ename g a \<mapsto> (AZset (zmap m ys), T a)))"
proof -
  let ?g = "g\<lparr>zm := m, ents := (ents g)(a \<mapsto> (ent g a)\<lparr>ezset := z\<rparr>)\<rparr>"
  have c: "core_ok g A Z T" using r by (simp add: srv_rel_def)
  have e: "ent ?g b = (if b = a then (ent g a)\<lparr>ezset := z\<rparr> else ent g b)" for b by (simp add: ent_def)
  then have n: "ename ?g = ename g" by (auto simp: ename_def fun_eq_iff)
  have zb: "zset_inv (zm g) (ezset (ent g b)) (Z b)" if "b \<in> A" for b using c that by (simp add: core_ok_def)
  have sep: "insert (zbrk (zm g)) (set (Z a)) \<inter> set (Z b) = {}" if "b \<in> A" "b \<noteq> a" for b
    using c a that zb [OF that(1)] by (fastforce simp: core_ok_def zset_inv_def)
  have "zset_inv m (ezset (ent g b)) (Z b)" if "b \<in> A" "b \<noteq> a" for b
    by (rule zset_inv_frame [OF zb [OF that(1)] f sep [OF that]])
  moreover have "nodes_ok ?g A (Z(a := ys))"
  proof -
    have "x \<notin> set (Z b)" if "x \<in> set (Z a)" "b \<in> A" "b \<noteq> a" for x b using sep [OF that(2,3)] that(1) by blast
    then have "(\<Union>b \<in> A. set ((Z(a := ys)) b)) = (\<Union>b \<in> A. set (Z b)) - set (Z a) \<union> set ys"
      using a by (auto split: if_splits)
    then show ?thesis using c re t by (simp add: core_ok_def nodes_ok_def realloc_nodes_def e type_defs)
  qed
  ultimately have "core_ok ?g A (Z(a := ys)) T"
    using c a z ys sep t unfolding core_ok_def e by (auto simp: Int_commute) blast+
  moreover have "index_ok ?g A" using r by (simp add: srv_rel_def index_ok_def n)
  moreover have "aval ?g (Z(a := ys)) b = (if b = a then AZset (zmap m ys) else aval g Z b)" if "b \<in> A" for b
    using t zmap_frame [OF f sep [OF that]] by (simp add: aval_def e type_defs)
  moreover have "ename g b \<noteq> ename g a" if "b \<in> A" "b \<noteq> a" for b
    using srv_rel_key(2) [OF r] a that by (auto dest: inj_onD)
  moreover have "dom (s(ename g a \<mapsto> (AZset (zmap m ys), T a))) = ename g ` A" using r a by (auto simp: srv_rel_def)
  ultimately show ?thesis using r by (auto simp: srv_rel_def n)
qed

section \<open>New entries\<close>

lemma add_entry_rel:
  assumes r: "srv_rel g A Z T s" and k: "s key = None" and t: "ty = T_STR \<or> ty = T_ZSET"
    and new: "entry_new g ty = (g1, a)"
  shows "\<exists>g2. insert_entry (g1\<lparr>ents := (ents g1)(a \<mapsto> (ent g1 a)\<lparr>estr := v\<rparr>)\<rparr>) a key = Some g2 \<and>
    srv_rel g2 (insert a A) (Z(a := [])) T
      (s(key \<mapsto> (if ty = T_STR then AStr v else AZset Map.empty, None))) \<and>
    a \<notin> A \<and> ename g2 a = key \<and> etype (ent g2 a) = ty"
proof -
  have c: "core_ok g A Z T" and i: "hm_inv (db_nodes g) (db g) A" "hm.keyed (db_nodes g) A (ename g) name_hash"
    using r by (auto simp: srv_rel_def index_ok_def)
  let ?e = "\<lparr>ekey = key, etype = ty, estr = v, ezset = zset_empty\<rparr>"
  let ?n = "\<lparr>hnext = None, hcode = name_hash key\<rparr>"
  have g1: "a = ebrk g" "g1 = g\<lparr>ents := (ents g)(a \<mapsto> \<lparr>ekey = [], etype = ty, estr = [], ezset = zset_empty\<rparr>),
        db_nodes := (db_nodes g)(a \<mapsto> \<lparr>hnext = None, hcode = 0\<rparr>), idx := (idx g)(a \<mapsto> no_timer), ebrk := a + 1\<rparr>"
    using new by (auto simp: entry_new_def Let_def)
  have a: "a \<notin> A" using c g1(1) by (auto simp: core_ok_def)
  have Ta: "T a = None" "idx g a = None"
    using a c timer.alloc_law [of "theap g" "idx g" T a] by (auto simp: core_ok_def dom_def)
  let ?key = "(ename g)(a := key)"
  have "hm_inv ((db_nodes g)(a \<mapsto> ?n)) (db g) A" using a by (intro hm.frame_law [OF i(1)]) auto
  moreover have "hm.keyed ((db_nodes g)(a \<mapsto> ?n)) A ?key name_hash" using a by (intro keyed_frame [OF i(2)]) auto
  moreover have "?key a \<notin> ?key ` A" using a srv_rel_key(1) [OF r] k by auto
  ultimately obtain hs h where h: "hm_insert ((db_nodes g)(a \<mapsto> ?n)) (db g) a = Some (hs, h)"
    "hm_inv hs h (insert a A)" "hm.keyed hs (insert a A) ?key name_hash"
    using hm.insert_key [of "(db_nodes g)(a \<mapsto> ?n)" "db g" A ?key name_hash a ?n] a by auto
  define g2 where "g2 = g\<lparr>ents := (ents g)(a \<mapsto> ?e), db_nodes := hs, idx := (idx g)(a \<mapsto> no_timer),
      ebrk := a + 1, db := h\<rparr>"
  have e2: "ent g2 b = (if b = a then ?e else ent g b)" for b by (simp add: g2_def ent_def)
  have n2: "ename g2 = ?key" by (auto simp: ename_def e2 fun_eq_iff)
  have ins: "insert_entry (g1\<lparr>ents := (ents g1)(a \<mapsto> (ent g1 a)\<lparr>estr := v\<rparr>)\<rparr>) a key = Some g2"
    using h(1) by (simp add: insert_entry_def g1(2) ent_def name_hash_def g2_def)
  have "heap_rep (theap g) ((idx g)(a \<mapsto> no_timer)) T"
    using c Ta by (intro timer.fresh_law) (auto simp: core_ok_def)
  moreover have "dom (ents g2) = insert a A" "dom (idx g2) = insert a A"
    using c by (simp_all add: core_ok_def g2_def)
  moreover have "b < ebrk g" if "b \<in> A" for b using c that by (simp add: core_ok_def)
  then have "\<forall>b \<in> insert a A. b < ebrk g2" using g1(1) by (auto simp: g2_def less_Suc_eq)
  moreover have "\<forall>b \<in> A. b \<noteq> a" using a by blast
  moreover have "nodes_ok g2 (insert a A) (Z(a := []))"
  proof -
    have "(\<Union>b \<in> insert a A. set ((Z(a := [])) b)) = (\<Union>b \<in> A. set (Z b))" using a by (auto split: if_splits)
    then show ?thesis using c a unfolding nodes_ok_def e2 by (simp add: core_ok_def nodes_ok_def g2_def)
  qed
  ultimately have "core_ok g2 (insert a A) (Z(a := [])) T"
    using c t unfolding core_ok_def e2 by (simp add: g2_def)
  moreover have "index_ok g2 (insert a A)" using h by (simp add: index_ok_def g2_def [symmetric] n2) (simp add: g2_def)
  moreover have "aval g2 (Z(a := [])) b = (if b = a then if ty = T_STR then AStr v else AZset Map.empty else aval g Z b)"
    if "b \<in> insert a A" for b
  proof -
    have "zm g2 = zm g" by (simp add: g2_def)
    then show ?thesis using a that unfolding aval_def e2 by (simp add: zmap_def)
  qed
  moreover have "ename g b \<noteq> key" if "b \<in> A" for b using srv_rel_key(1) [OF r] k that by auto
  ultimately have "srv_rel g2 (insert a A) (Z(a := [])) T
      (s(key \<mapsto> (if ty = T_STR then AStr v else AZset Map.empty, None)))"
    using r a Ta by (auto simp: srv_rel_def n2)
  then show ?thesis using ins a n2 e2 by auto
qed

section \<open>\<open>set\<close>\<close>

definition set_spec :: "adb \<Rightarrow> bytes \<Rightarrow> bytes \<Rightarrow> adb \<times> reply" where
  "set_spec s key v = (case s key of
     None \<Rightarrow> (s(key \<mapsto> (AStr v, None)), RNil)
   | Some (AStr _, t) \<Rightarrow> (s(key \<mapsto> (AStr v, t)), RNil)
   | Some (AZset _, _) \<Rightarrow> (s, RErr ERR_BAD_TYP (ascii ''a non-string value exists'')))"

lemma do_set_rel:
  assumes r: "srv_rel g A Z T s" and c: "length cmd = 3"
  shows "\<exists>g'. do_set g cmd out = Some (g', out @ enc (snd (set_spec s (cmd ! 1) (cmd ! 2)))) \<and>
    implements g' (fst (set_spec s (cmd ! 1) (cmd ! 2)))"
proof (cases rule: lookup_cases [OF r, of "cmd ! 1", case_names absent present])
  case (absent g1)
  obtain g2 a where new: "entry_new g1 T_STR = (g2, a)" by fastforce
  have e: "ents g2 a = Some (ent g2 a)" "idx g2 a = Some no_timer"
    using new by (auto simp: entry_new_def Let_def ent_def)
  have u: "g2\<lparr>ents := es, idx := (idx g2)(a \<mapsto> no_timer)\<rparr> = g2\<lparr>ents := es\<rparr>" for es
  proof -
    have "(idx g2)(a \<mapsto> no_timer) = idx g2" using e(2) by auto
    then show ?thesis by simp
  qed
  from add_entry_rel [OF absent(2,3) _ new, of "cmd ! 2"] obtain g3 where
    "insert_entry (g2\<lparr>ents := (ents g2)(a \<mapsto> (ent g2 a)\<lparr>estr := cmd ! 2\<rparr>)\<rparr>) a (cmd ! 1) = Some g3"
    "srv_rel g3 (insert a A) (Z(a := [])) T (s(cmd ! 1 \<mapsto> (AStr (cmd ! 2), None)))" by auto
  then show ?thesis
    using absent(1,3) c new e u by (auto simp: do_set_def set_spec_def out_enc implements_def)
next
  case (present g1 a)
  show ?thesis
  proof (cases "etype (ent g1 a) = T_STR")
    case True
    then have "s (cmd ! 1) = Some (AStr (estr (ent g1 a)), T a)" using present(6) by (simp add: aval_def)
    then show ?thesis
      using present(1-5) c True set_str_rel [OF present(2,3) True, of "cmd ! 2"]
      by (auto simp: do_set_def set_spec_def out_enc implements_def)
  next
    case False
    then have "s (cmd ! 1) = Some (AZset (zmap (zm g1) (Z a)), T a)" using present(6) by (simp add: aval_def)
    then show ?thesis
      using present(1-5) c False by (auto simp: do_set_def set_spec_def out_enc implements_def)
  qed
qed

section \<open>Removing entries\<close>

lemma live_dom: "live s' = live s \<Longrightarrow> dom s' = dom s"
  by (auto simp: live_def fun_eq_iff dom_def)

text \<open>The first step of \<open>entry_del\<close> and of removing a timer: take the entry out of the heap.\<close>

lemma drop_timer:
  assumes c: "core_ok g A Z T" and a: "a \<in> A" "idx g a = Some i" "i \<noteq> no_timer"
  shows "\<exists>h rs rs2. heap_delete (theap g) (idx g) i = Some (h, rs) \<and> modify rs a (\<lambda>_. no_timer) = Some rs2 \<and>
    heap_rep h rs2 (T(a := None)) \<and> dom rs2 = A"
proof -
  have hr: "heap_rep (theap g) (idx g) T" and d: "dom (idx g) = A" using c by (auto simp: core_ok_def)
  have Ta: "T a \<noteq> None" using timer.index_law [OF hr a(2)] a(3) by simp
  obtain h rs where del: "heap_delete (theap g) (idx g) i = Some (h, rs)"
    "heap_rep h (rs(a \<mapsto> no_timer)) (T(a := None))"
    using timer.delete_law [OF hr Ta a(2)] by blast
  have dr: "dom rs = A" using live_dom [OF heap_delete_live [OF del(1)]] d by simp
  then obtain j where "rs a = Some j" using a(1) by blast
  then show ?thesis using del dr a(1) by (intro exI [of _ h] exI [of _ rs] exI [of _ "rs(a \<mapsto> no_timer)"]) auto
qed

lemma set_timer_rel:
  assumes r: "srv_rel g A Z T s" and a: "a \<in> A" and h: "heap_rep h rs (T(a := t))" and d: "dom rs = A"
  shows "srv_rel (g\<lparr>theap := h, idx := rs\<rparr>) A Z (T(a := t)) (s(ename g a \<mapsto> (aval g Z a, t)))"
proof -
  have "core_ok (g\<lparr>theap := h, idx := rs\<rparr>) A Z (T(a := t))" using r h d by (simp add: srv_rel_def core_ok_def)
  moreover have "ename g b \<noteq> ename g a" if "b \<in> A" "b \<noteq> a" for b
    using srv_rel_key(2) [OF r] a that by (auto dest: inj_onD)
  moreover have "dom (s(ename g a \<mapsto> (aval g Z a, t))) = ename g ` A" using r a by (auto simp: srv_rel_def)
  ultimately show ?thesis using r by (auto simp: srv_rel_def)
qed

text \<open>An entry that the index does not hold any more is deleted with its timer and its set.\<close>

lemma entry_del_rel:
  assumes c: "core_ok g A Z T" and i: "index_ok g (A - {a})" and a: "a \<in> A"
  shows "\<exists>g'. entry_del g a = Some g' \<and> core_ok g' (A - {a}) Z (T(a := None)) \<and> index_ok g' (A - {a}) \<and>
    (\<forall>b \<in> A - {a}. ent g' b = ent g b \<and> aval g' Z b = aval g Z b)"
proof -
  have "a \<in> dom (idx g)" using c a by (simp add: core_ok_def)
  then obtain j where j: "idx g a = Some j" by blast
  have ea: "ents g a = Some (ent g a)" using c a by (auto simp: core_ok_def ent_def)
  have z: "zset_inv (zm g) (ezset (ent g b)) (Z b)" if "b \<in> A" for b using c that by (simp add: core_ok_def)
  obtain h rs where step1: "(if j \<noteq> no_timer then do {
            (h, rs) \<leftarrow> heap_delete (theap g) (idx g) j;
            rs \<leftarrow> modify rs a (\<lambda>_. no_timer);
            Some (g\<lparr>theap := h, idx := rs\<rparr>) }
          else Some g) = Some (g\<lparr>theap := h, idx := rs\<rparr>)" "heap_rep h rs (T(a := None))" "dom rs = A"
  proof (cases "j = no_timer")
    case True
    have hr: "heap_rep (theap g) (idx g) T" "dom (idx g) = A" using c by (auto simp: core_ok_def)
    then have "T a = None" using timer.index_law [OF hr(1) j] True by simp
    then have "T(a := None) = T" by auto
    then show ?thesis using that [of "idx g" "theap g"] True hr by simp
  next
    case False
    then show ?thesis using drop_timer [OF c a j False] that by force
  qed
  obtain m where step2: "(if etype (ent g a) = T_ZSET then do { (m, z) \<leftarrow> zset_clear (zm g) (ezset (ent g a));
            Some (g\<lparr>theap := h, idx := rs, zm := m\<rparr>) } else Some (g\<lparr>theap := h, idx := rs\<rparr>)) =
          Some (g\<lparr>theap := h, idx := rs, zm := m\<rparr>)" "zmem_frame (set (Z a)) (zm g) m"
      "dom (zdat m) = dom (zdat (zm g)) - set (Z a)"
  proof (cases "etype (ent g a) = T_ZSET")
    case True
    have "dom (zdat (free_nodes (zm g) (set (Z a)))) = dom (zdat (zm g)) - set (Z a)" by auto
    then show ?thesis using that zset_clear_inv [OF z [OF a]] free_nodes_frame True by auto
  next
    case False
    then have "etype (ent g a) = T_STR" using c a unfolding core_ok_def by blast
    then have "Z a = []" using c a unfolding core_ok_def nodes_ok_def by blast
    then show ?thesis using that [of "zm g"] False by simp
  qed
  define g' where "g' = g\<lparr>theap := h, idx := rs(a := None), zm := m, ents := (ents g)(a := None),
      db_nodes := (db_nodes g)(a := None)\<rparr>"
  have run: "entry_del g a = Some g'"
    using j ea step1(1) step2(1) by (simp add: entry_del_def g'_def cong: if_cong)
  have e: "ent g' b = ent g b" if "b \<noteq> a" for b using that by (simp add: g'_def ent_def)
  then have n: "ename g' b = ename g b" if "b \<noteq> a" for b using that by (simp add: ename_def)
  have sep: "set (Z a) \<inter> set (Z b) = {}" if "b \<in> A - {a}" for b using c a that by (auto simp: core_ok_def)
  have "heap_rep h (rs(a := None)) (T(a := None))" by (rule timer.free_law [OF step1(2)]) simp
  moreover have "zset_inv m (ezset (ent g b)) (Z b)" if "b \<in> A - {a}" for b
    using zset_inv_frame [OF z step2(2) sep] that by blast
  moreover have "dom (ents g') = A - {a}" "dom (idx g') = A - {a}"
    using c step1(3) by (auto simp: core_ok_def g'_def)
  moreover have "nodes_ok g' (A - {a}) Z"
  proof -
    have "(\<Union>b \<in> A. set (Z b)) - set (Z a) = (\<Union>b \<in> A - {a}. set (Z b))" using sep by blast
    then show ?thesis using c step2(3) e by (simp add: core_ok_def nodes_ok_def) (simp add: g'_def)
  qed
  ultimately have "core_ok g' (A - {a}) Z (T(a := None))"
    using c by (auto simp: core_ok_def e) (auto simp: g'_def)
  moreover have "index_ok g' (A - {a})"
    using i hm.frame_law [of "db_nodes g" "db g" "A - {a}" "(db_nodes g)(a := None)"]
      keyed_frame [of "db_nodes g" "A - {a}" "ename g" name_hash "(db_nodes g)(a := None)" "ename g'"]
    by (auto simp: index_ok_def n) (auto simp: g'_def)
  moreover have "aval g' Z b = aval g Z b" if "b \<in> A - {a}" for b
    using e [of b] that zmap_frame [OF step2(2) sep [OF that]] by (auto simp: aval_def) (simp_all add: g'_def)
  ultimately show ?thesis using run e by blast
qed

lemma remove_entry_rel:
  assumes r: "srv_rel g A Z T s" and a: "a \<in> A" and hi: "hm_inv hs h (A - {a})"
    and hk: "hm.keyed hs (A - {a}) (ename g) name_hash"
  shows "\<exists>g'. entry_del (g\<lparr>db_nodes := hs, db := h\<rparr>) a = Some g' \<and>
    srv_rel g' (A - {a}) Z (T(a := None)) (s(ename g a := None))"
proof -
  let ?g = "g\<lparr>db_nodes := hs, db := h\<rparr>"
  have c: "core_ok ?g A Z T" using r by (simp add: srv_rel_def)
  have "index_ok ?g (A - {a})" using hi hk by (simp add: index_ok_def)
  then obtain g' where g': "entry_del ?g a = Some g'" "core_ok g' (A - {a}) Z (T(a := None))"
    "index_ok g' (A - {a})" "\<forall>b \<in> A - {a}. ent g' b = ent g b \<and> aval g' Z b = aval g Z b"
    using entry_del_rel [OF c _ a] by auto
  have n: "ename g' b = ename g b" if "b \<in> A - {a}" for b using g'(4) that by (simp add: ename_def)
  have neq: "ename g b \<noteq> ename g a" if "b \<in> A - {a}" for b
    using srv_rel_key(2) [OF r] a that by (metis DiffE inj_onD insertI1)
  have "ename g' ` (A - {a}) = ename g ` A - {ename g a}" using n neq by (auto simp: image_iff)
  then have "srv_rel g' (A - {a}) Z (T(a := None)) (s(ename g a := None))"
    using r g'(2-4) n neq by (auto simp: srv_rel_def)
  then show ?thesis using g'(1) by blast
qed

definition del_spec :: "adb \<Rightarrow> bytes \<Rightarrow> adb \<times> reply" where
  "del_spec s key = (s(key := None), RInt (if s key = None then 0 else 1))"

lemma do_del_rel:
  assumes r: "srv_rel g A Z T s" and cmd: "length cmd = 2"
  shows "\<exists>g'. do_del g cmd out = Some (g', out @ enc (snd (del_spec s (cmd ! 1)))) \<and>
    implements g' (fst (del_spec s (cmd ! 1)))"
proof -
  let ?key = "cmd ! 1"
  have c: "core_ok g A Z T" and i: "hm_inv (db_nodes g) (db g) A" "hm.keyed (db_nodes g) A (ename g) name_hash"
    using r by (auto simp: srv_rel_def index_ok_def)
  obtain hs h p where d: "hm_delete (db_nodes g) (db g) (name_hash ?key) (entry_eq g ?key) = Some (hs, h, p)"
    "hm_inv hs h (A - set_option p)" "hm.keyed hs (A - set_option p) (ename g) name_hash"
    "hm.node_of A (ename g) ?key p"
    using hm.delete_key [OF i entry_eq_key [OF c]] by blast
  let ?g = "g\<lparr>db_nodes := hs, db := h\<rparr>"
  show ?thesis
  proof (cases p)
    case None
    then have k: "s ?key = None" using d(4) srv_rel_key(1) [OF r] by (simp add: hm.node_of_def)
    then have "s(?key := None) = s" by auto
    moreover have "srv_rel ?g A Z T s" using r d(2,3) None by (simp add: srv_rel_def index_ok_def)
    ultimately show ?thesis using d(1) None k cmd
      by (auto simp: do_del_def name_hash_def del_spec_def out_enc implements_def)
  next
    case (Some a)
    then have a: "a \<in> A" "ename g a = ?key" using d(4) by (auto simp: hm.node_of_def)
    obtain g' where "entry_del ?g a = Some g'" "srv_rel g' (A - {a}) Z (T(a := None)) (s(?key := None))"
      using remove_entry_rel [OF r a(1)] d(2,3) Some a(2) by auto
    moreover have "s ?key \<noteq> None" using srv_rel_key(3) [OF r a(1)] a(2) by simp
    ultimately show ?thesis using d(1) Some cmd
      by (auto simp: do_del_def name_hash_def del_spec_def out_enc implements_def)
  qed
qed

section \<open>\<open>keys\<close>\<close>

definition is_keys_reply :: "adb \<Rightarrow> reply \<Rightarrow> bool" where
  "is_keys_reply s r \<longleftrightarrow> (\<exists>ks. distinct ks \<and> set ks = dom s \<and> r = RArr (map RStr ks))"

lemma do_keys_rel:
  assumes r: "srv_rel g A Z T s"
  shows "\<exists>rep. do_keys g out = Some (g, out @ enc rep) \<and> is_keys_reply s rep"
proof -
  have c: "core_ok g A Z T" and i: "hm_inv (db_nodes g) (db g) A" using r by (auto simp: srv_rel_def index_ok_def)
  obtain xs where xs: "distinct xs" "set xs = A"
    "\<And>f (arg :: bytes). hm_foreach (db_nodes g) (db g) f arg = map_option fst (foreach_list f xs arg)"
    using hm_foreach_inv [OF i] by blast
  have "foreach_list (cb_keys g) ys o1 = Some (o1 @ concat (map (\<lambda>a. enc (RStr (ename g a))) ys), True)"
    if "set ys \<subseteq> A" for ys o1
    using that
  proof (induction ys arbitrary: o1)
    case (Cons a ys)
    have "cb_keys g a o1 = Some (o1 @ enc (RStr (ename g a)), True)"
      using srv_rel_ent [OF r, of a] Cons.prems by (simp add: cb_keys_def out_enc ename_def)
    then show ?case using Cons by simp
  qed simp
  then have "hm_foreach (db_nodes g) (db g) (cb_keys g) o1 =
      Some (o1 @ concat (map enc (map RStr (map (ename g) xs))))" for o1
    using xs by (simp add: comp_def)
  moreover have "hm_size (db g) = length (map RStr (map (ename g) xs))"
    using hm_size_card [OF i] xs(1,2) distinct_card [OF xs(1)] by simp
  ultimately have "do_keys g out = Some (g, out @ enc (RArr (map RStr (map (ename g) xs))))"
    using out_arr_enc [of out "map RStr (map (ename g) xs)"] by (simp add: do_keys_def)
  moreover have "distinct (map (ename g) xs)" "set (map (ename g) xs) = dom s"
    using xs srv_rel_key(2) [OF r] r by (auto simp: distinct_map srv_rel_def)
  ultimately show ?thesis unfolding is_keys_reply_def by blast
qed

section \<open>\<open>pexpire\<close> and \<open>pttl\<close>\<close>

definition expire_spec :: "adb \<Rightarrow> u64 \<Rightarrow> bytes \<Rightarrow> bytes \<Rightarrow> adb \<times> reply" where
  "expire_spec s now key arg = (case str2int arg of
     None \<Rightarrow> (s, RErr ERR_BAD_ARG (ascii ''expect int64''))
   | Some ttl \<Rightarrow> (case s key of
       None \<Rightarrow> (s, RInt 0)
     | Some (v, _) \<Rightarrow> (s(key \<mapsto> (v, if ttl < 0 then None else Some (now + of_int ttl))), RInt 1)))"

lemma timers_dom: "core_ok g A Z T \<Longrightarrow> dom T \<subseteq> A"
  using timer.alloc_law [of "theap g" "idx g" T] by (auto simp: core_ok_def)

lemma card_dom_srv:
  assumes "srv_rel g A Z T s"
  shows "card (dom T) \<le> card (dom s)"
proof -
  have f: "finite A" using assms hm_inv_finite by (auto simp: srv_rel_def index_ok_def)
  have "dom T \<subseteq> A" using assms by (intro timers_dom [of g A Z T]) (simp add: srv_rel_def)
  then have "card (dom T) \<le> card A" using f by (rule card_mono [rotated])
  also have "card A = card (ename g ` A)" using srv_rel_key(2) [OF assms] by (simp add: card_image)
  finally show ?thesis using assms by (simp add: srv_rel_def)
qed

lemma entry_set_ttl_rel:
  assumes r: "srv_rel g A Z T s" and a: "a \<in> A" and room: "card (dom s) + 1 < no_timer"
  shows "\<exists>g' T'. entry_set_ttl g a ttl now = Some g' \<and>
    srv_rel g' A Z T' (s(ename g a \<mapsto> (aval g Z a, if ttl < 0 then None else Some (now + of_int ttl))))"
proof -
  have c: "core_ok g A Z T" using r by (simp add: srv_rel_def)
  then have hr: "heap_rep (theap g) (idx g) T" "dom (idx g) = A" by (auto simp: core_ok_def)
  then obtain j where j: "idx g a = Some j" using a by blast
  consider "ttl < 0" "j \<noteq> no_timer" | "ttl < 0" "j = no_timer" | "ttl \<ge> 0" by linarith
  then show ?thesis
  proof cases
    case 1
    then show ?thesis
      using drop_timer [OF c a j 1(2)] set_timer_rel [OF r a, of _ _ None] j
      by (fastforce simp: entry_set_ttl_def)
  next
    case 2
    then have "T a = None" using timer.index_law [OF hr(1) j] by simp
    then have "s(ename g a \<mapsto> (aval g Z a, None)) = s" using srv_rel_key(3) [OF r a] by auto
    then show ?thesis using 2 j r by (auto simp: entry_set_ttl_def)
  next
    case 3
    have "card (dom T) + 1 < no_timer" using card_dom_srv [OF r] room by simp
    from timer.upsert_law [OF hr(1) j this, of "now + of_int ttl"] obtain h rs where
      u: "heap_upsert (theap g) (idx g) j \<lparr>hval = now + of_int ttl, href = a\<rparr> = Some (h, rs)"
        "heap_rep h rs (T(a \<mapsto> now + of_int ttl))" by blast
    have "dom rs = A" using live_dom [OF heap_upsert_live [OF u(1)]] hr(2) by simp
    from set_timer_rel [OF r a u(2) this] show ?thesis
      using 3 j u(1) by (auto simp: entry_set_ttl_def)
  qed
qed

lemma do_expire_rel:
  assumes r: "srv_rel g A Z T s" and cmd: "length cmd = 3" and room: "card (dom s) + 1 < no_timer"
  shows "\<exists>g'. do_expire g now cmd out = Some (g', out @ enc (snd (expire_spec s now (cmd ! 1) (cmd ! 2)))) \<and>
    implements g' (fst (expire_spec s now (cmd ! 1) (cmd ! 2)))"
proof (cases "str2int (cmd ! 2)")
  case None
  then show ?thesis using r cmd by (auto simp: do_expire_def expire_spec_def out_enc implements_def)
next
  case ttl: (Some ttl)
  show ?thesis
  proof (cases rule: lookup_cases [OF r, of "cmd ! 1", case_names absent present])
    case (absent g1)
    then show ?thesis using ttl cmd by (auto simp: do_expire_def expire_spec_def out_enc implements_def)
  next
    case (present g1 a)
    obtain g' where "entry_set_ttl g1 a ttl now = Some g'"
      "implements g' (s(cmd ! 1 \<mapsto> (aval g1 Z a, if ttl < 0 then None else Some (now + of_int ttl))))"
      using entry_set_ttl_rel [OF present(2,3) room, of ttl now] implementsI unfolding present(4) by blast
    then show ?thesis
      using present(1,6) ttl cmd by (auto simp: do_expire_def expire_spec_def out_enc)
  qed
qed

definition ttl_reply :: "adb \<Rightarrow> u64 \<Rightarrow> bytes \<Rightarrow> reply" where
  "ttl_reply s now key = (case s key of
     None \<Rightarrow> RInt (- 2)
   | Some (_, None) \<Rightarrow> RInt (- 1)
   | Some (_, Some expire_at) \<Rightarrow> RInt (if expire_at > now then sint (expire_at - now) else 0))"

lemma do_ttl_rel:
  assumes r: "srv_rel g A Z T s" and cmd: "length cmd = 2"
  shows "\<exists>g'. do_ttl g now cmd out = Some (g', out @ enc (ttl_reply s now (cmd ! 1))) \<and> srv_rel g' A Z T s"
proof (cases rule: lookup_cases [OF r, of "cmd ! 1", case_names absent present])
  case (absent g1)
  then show ?thesis using cmd by (simp add: do_ttl_def ttl_reply_def out_enc)
next
  case (present g1 a)
  have hr: "heap_rep (theap g1) (idx g1) T" "dom (idx g1) = A"
    using present(2) by (auto simp: srv_rel_def core_ok_def)
  then obtain j where j: "idx g1 a = Some j" using present(3) by blast
  show ?thesis
  proof (cases "T a")
    case None
    then have "j = no_timer" using timer.index_law [OF hr(1) j] by simp
    then show ?thesis using present(1,2,6) j None cmd by (simp add: do_ttl_def ttl_reply_def out_enc)
  next
    case (Some e)
    obtain i where "i < length (theap g1)" "idx g1 a = Some i" "T a = Some (value_at (theap g1) i)"
      using timer_pos [OF hr(1), of a] Some by (metis option.distinct(1))
    moreover have "j \<noteq> no_timer" using timer.index_law [OF hr(1) j] Some by simp
    ultimately show ?thesis using present(1,2,6) j Some cmd by (simp add: do_ttl_def ttl_reply_def out_enc)
  qed
qed

section \<open>Sorted sets\<close>

lemma expect_cases:
  assumes r: "srv_rel g A Z T s"
  obtains (absent) g1 where "expect_zset g key = Some (g1, Some Empty_zset)" "srv_rel g1 A Z T s" "s key = None"
  | (string) g1 v t where "expect_zset g key = Some (g1, None)" "srv_rel g1 A Z T s" "s key = Some (AStr v, t)"
  | (zset) g1 a where "expect_zset g key = Some (g1, Some (Zset_of a))" "srv_rel g1 A Z T s" "a \<in> A"
      "ename g1 a = key" "etype (ent g1 a) = T_ZSET" "ents g1 a = Some (ent g1 a)"
      "s key = Some (AZset (zmap (zm g1) (Z a)), T a)" "zset_inv (zm g1) (ezset (ent g1 a)) (Z a)"
proof (cases rule: lookup_cases [OF r, of key, case_names absent present])
  case (absent g1)
  then show ?thesis using that(1) by (simp add: expect_zset_def)
next
  case (present g1 a)
  have ok: "etype (ent g1 a) = T_STR \<or> etype (ent g1 a) = T_ZSET" "zset_inv (zm g1) (ezset (ent g1 a)) (Z a)"
    using present(2,3) by (auto simp: srv_rel_def core_ok_def)
  show ?thesis
  proof (cases "etype (ent g1 a) = T_ZSET")
    case True
    then have "s key = Some (AZset (zmap (zm g1) (Z a)), T a)" using present(6) by (simp add: aval_def type_defs)
    then show ?thesis using that(3) [of g1 a] present ok(2) True by (simp add: expect_zset_def)
  next
    case False
    then have "s key = Some (AStr (estr (ent g1 a)), T a)" using present(6) ok(1) by (simp add: aval_def)
    then show ?thesis using that(2) [of g1 "estr (ent g1 a)" "T a"] present False by (simp add: expect_zset_def)
  qed
qed

text \<open>Sets smaller than the 32-bit counters allow, and fewer entries than heap positions.\<close>

definition roomy :: "adb \<Rightarrow> bool" where
  "roomy s \<longleftrightarrow> card (dom s) + 1 < no_timer \<and> (\<forall>k f t. s k = Some (AZset f, t) \<longrightarrow> card (dom f) < avl_max)"

lemma zmap_card: "zset_inv m z xs \<Longrightarrow> card (dom (zmap m xs)) = length xs"
proof -
  assume inv: "zset_inv m z xs"
  have "dom (zmap m xs) = zname m ` set xs" by (simp add: zmap_def dom_map_of_conv_image_fst image_image)
  then show ?thesis using zset_inv_names [OF inv] zset_inv_distinct [OF inv] by (simp add: card_image distinct_card)
qed

subsection \<open>\<open>zadd\<close>\<close>

definition zadd_db :: "strtod \<Rightarrow> adb \<Rightarrow> bytes \<Rightarrow> bytes \<Rightarrow> bytes \<Rightarrow> adb \<times> reply" where
  "zadd_db strtod s key arg nm = (case str2dbl strtod arg of
     None \<Rightarrow> (s, RErr ERR_BAD_ARG (ascii ''expect float''))
   | Some sc \<Rightarrow> (case s key of
       None \<Rightarrow> (s(key \<mapsto> (AZset [nm \<mapsto> sc], None)), RInt 1)
     | Some (AStr _, _) \<Rightarrow> (s, RErr ERR_BAD_TYP (ascii ''expect zset''))
     | Some (AZset f, t) \<Rightarrow>
         (s(key \<mapsto> (AZset (zadd_spec f nm sc), t)), RInt (if f nm = None then 1 else 0))))"

text \<open>Adding a pair to the set of an entry.\<close>

lemma zadd_entry_rel:
  assumes r: "srv_rel g A Z T s" and a: "a \<in> A" and t: "etype (ent g a) = T_ZSET"
    and s: "s (ename g a) = Some (AZset f, T a)" and room: "card (dom f) < avl_max" and sc: "\<not> isnan sc"
  shows "\<exists>m z added. zset_insert (zm g) (ezset (ent g a)) nm (length nm) sc = Some (m, z, added) \<and>
    (added \<longleftrightarrow> f nm = None) \<and>
    implements (g\<lparr>zm := m, ents := (ents g)(a \<mapsto> (ent g a)\<lparr>ezset := z\<rparr>)\<rparr>)
      (s(ename g a \<mapsto> (AZset (zadd_spec f nm sc), T a)))"
proof -
  have z: "zset_inv (zm g) (ezset (ent g a)) (Z a)" using r a by (simp add: srv_rel_def core_ok_def)
  have f: "f = zmap (zm g) (Z a)" using srv_rel_key(3) [OF r a] s t by (simp add: aval_def type_defs)
  have "length (Z a) < avl_max" using room zmap_card [OF z] f by simp
  from zset_insert_inv [OF z sc refl this] obtain m z' b ys where
    i: "zset_insert (zm g) (ezset (ent g a)) nm (length nm) sc = Some (m, z', b)" "zset_inv m z' ys"
      "zmap m ys = zadd_spec f nm sc" "b = (f nm = None)" "set ys \<subseteq> insert (zbrk (zm g)) (set (Z a))"
      "zmem_frame (insert (zbrk (zm g)) (set (Z a))) (zm g) m"
      "realloc_nodes (Z a) ys (zm g) m"
    unfolding f by blast
  then show ?thesis using implementsI [OF set_zset_rel [OF r a t i(2,6,5,7)]] by auto
qed

lemma do_zadd_rel:
  assumes r: "srv_rel g A Z T s" and cmd: "length cmd = 4" and room: "roomy s"
  shows "\<exists>g'. do_zadd strtod g cmd out =
      Some (g', out @ enc (snd (zadd_db strtod s (cmd ! 1) (cmd ! 2) (cmd ! 3)))) \<and>
    implements g' (fst (zadd_db strtod s (cmd ! 1) (cmd ! 2) (cmd ! 3)))"
proof (cases "str2dbl strtod (cmd ! 2)")
  case None
  then show ?thesis using r cmd by (auto simp: do_zadd_def zadd_db_def out_enc implements_def)
next
  case sc: (Some sc)
  have nan: "\<not> isnan sc" using sc by (auto simp: str2dbl_def Let_def split: if_splits prod.splits)
  show ?thesis
  proof (cases rule: lookup_cases [OF r, of "cmd ! 1", case_names absent present])
    case (absent g1)
    obtain g2 a where new: "entry_new g1 T_ZSET = (g2, a)" by fastforce
    have e2: "ents g2 a = Some (ent g2 a)" "estr (ent g2 a) = []"
      using new by (auto simp: entry_new_def Let_def ent_def)
    have same: "g2\<lparr>ents := (ents g2)(a \<mapsto> (ent g2 a)\<lparr>estr := []\<rparr>)\<rparr> = g2"
    proof -
      have "(ents g2)(a \<mapsto> (ent g2 a)\<lparr>estr := []\<rparr>) = ents g2" using e2 by (auto simp: fun_eq_iff)
      then show ?thesis by simp
    qed
    have "T_ZSET \<noteq> T_STR" by (simp add: type_defs)
    from add_entry_rel [OF absent(2,3) _ new, of "[]"] this obtain g3 where
      g3: "insert_entry g2 a (cmd ! 1) = Some g3" "srv_rel g3 (insert a A) (Z(a := [])) T
          (s(cmd ! 1 \<mapsto> (AZset Map.empty, None)))" "ename g3 a = cmd ! 1" "etype (ent g3 a) = T_ZSET"
      unfolding same by auto
    have Ta: "T a = None" using srv_rel_key(3) [OF g3(2), of a] g3(3) by simp
    have e3: "ents g3 a = Some (ent g3 a)" by (rule srv_rel_ent [OF g3(2)]) simp
    obtain m z added where z: "zset_insert (zm g3) (ezset (ent g3 a)) (cmd ! 3) (length (cmd ! 3)) sc = Some (m, z, added)"
      "added" "implements (g3\<lparr>zm := m, ents := (ents g3)(a \<mapsto> (ent g3 a)\<lparr>ezset := z\<rparr>)\<rparr>)
      (s(cmd ! 1 \<mapsto> (AZset [cmd ! 3 \<mapsto> sc], None)))"
      using zadd_entry_rel [OF g3(2) _ g3(4) _ _ nan, of Map.empty "cmd ! 3"] Ta
      by (auto simp: g3(3) avl_max_def zadd_spec_def)
    show ?thesis
      using sc absent(1,3) cmd new g3(1,4) e3 z by (auto simp: do_zadd_def zadd_db_def out_enc)
  next
    case (present g1 a)
    show ?thesis
    proof (cases "etype (ent g1 a) = T_ZSET")
      case True
      then have f: "s (cmd ! 1) = Some (AZset (zmap (zm g1) (Z a)), T a)"
        using present(6) by (simp add: aval_def type_defs)
      then have "card (dom (zmap (zm g1) (Z a))) < avl_max" using room by (auto simp: roomy_def)
      from zadd_entry_rel [OF present(2,3) True _ this nan, of "cmd ! 3"] f present(4)
      show ?thesis using sc present(1,5) cmd True by (auto simp: do_zadd_def zadd_db_def out_enc)
    next
      case False
      have "etype (ent g1 a) = T_STR" using present(2,3) False by (auto simp: srv_rel_def core_ok_def)
      then have "s (cmd ! 1) = Some (AStr (estr (ent g1 a)), T a)" using present(6) by (simp add: aval_def)
      then show ?thesis
        using sc present(1,2,5) cmd False by (auto simp: do_zadd_def zadd_db_def out_enc intro: implementsI)
    qed
  qed
qed

subsection \<open>\<open>zrem\<close> and \<open>zscore\<close>\<close>

definition expect_zset_err :: reply where
  "expect_zset_err = RErr ERR_BAD_TYP (ascii ''expect zset'')"

definition zrem_db :: "adb \<Rightarrow> bytes \<Rightarrow> bytes \<Rightarrow> adb \<times> reply" where
  "zrem_db s key nm = (case s key of
     None \<Rightarrow> (s, RInt 0)
   | Some (AStr _, _) \<Rightarrow> (s, expect_zset_err)
   | Some (AZset f, t) \<Rightarrow> (s(key \<mapsto> (AZset (f(nm := None)), t)), RInt (if f nm = None then 0 else 1)))"

definition zscore_reply :: "adb \<Rightarrow> bytes \<Rightarrow> bytes \<Rightarrow> reply" where
  "zscore_reply s key nm = (case s key of
     None \<Rightarrow> RNil
   | Some (AStr _, _) \<Rightarrow> expect_zset_err
   | Some (AZset f, _) \<Rightarrow> (case f nm of None \<Rightarrow> RNil | Some sc \<Rightarrow> RDbl sc))"

lemma zset_lookup_empty: "zset_lookup m zset_empty nm n = Some (m, zset_empty, None)"
  by (simp add: zset_lookup_def zset_empty_def)

text \<open>Storing a set back that has the same pairs, or fewer.\<close>

lemma put_zset_rel:
  assumes r: "srv_rel g A Z T s" and a: "a \<in> A" and t: "etype (ent g a) = T_ZSET"
    and z: "zset_inv m z ys" and f: "zmem_frame (set (Z a)) (zm g) m" and ys: "set ys \<subseteq> set (Z a)"
    and n: "realloc_nodes (Z a) ys (zm g) m" and k: "ename g a = key"
  shows "\<exists>g'. put_zset (g\<lparr>zm := m\<rparr>) (Zset_of a) z = Some g' \<and> implements g' (s(key \<mapsto> (AZset (zmap m ys), T a)))"
proof -
  have "zmem_frame (insert (zbrk (zm g)) (set (Z a))) (zm g) m" using zmem_frame_mono [OF f] by blast
  from implementsI [OF set_zset_rel [OF r a t z this]] show ?thesis
    using srv_rel_ent [OF r a] ys n k by auto
qed

lemma do_zrem_rel:
  assumes r: "srv_rel g A Z T s" and cmd: "length cmd = 3"
  shows "\<exists>g'. do_zrem g cmd out = Some (g', out @ enc (snd (zrem_db s (cmd ! 1) (cmd ! 2)))) \<and>
    implements g' (fst (zrem_db s (cmd ! 1) (cmd ! 2)))"
proof (cases rule: expect_cases [OF r, of "cmd ! 1", case_names absent string zset])
  case (absent g1)
  then show ?thesis
    using cmd by (auto simp: do_zrem_def zrem_db_def out_enc zset_lookup_empty intro: implementsI)
next
  case (string g1 v t)
  then show ?thesis
    using cmd by (auto simp: do_zrem_def zrem_db_def expect_zset_err_def out_enc intro: implementsI)
next
  case (zset g1 a)
  let ?f = "zmap (zm g1) (Z a)" and ?nm = "cmd ! 2"
  obtain m1 z1 p where l: "zset_lookup (zm g1) (ezset (ent g1 a)) ?nm (length ?nm) = Some (m1, z1, p)"
    "zset_inv m1 z1 (Z a)" "zmem_frame (set (Z a)) (zm g1) m1" "zdat m1 = zdat (zm g1)"
    "is_znode (zm g1) (Z a) ?nm p" using zset_lookup_inv [OF zset(8) refl] by blast
  have n1: "realloc_nodes (Z a) (Z a) (zm g1) m1" using l(4) by (intro realloc_same [OF zset(8)]) simp_all
  have same: "zmap m1 (Z a) = ?f" "zname m1 = zname (zm g1)"
    using l(4) by (auto simp: zmap_def zname_def zscore_def fun_eq_iff)
  show ?thesis
  proof (cases p)
    case None
    then have "?f ?nm = None" using l(5) by (simp add: is_znode_def)
    then have "?f(?nm := None) = ?f" by auto
    then show ?thesis
      using put_zset_rel [OF zset(2,3,5) l(2,3) subset_refl n1 zset(4)] None zset(1,6,7) l(1) cmd same(1) \<open>?f ?nm = None\<close>
      by (auto simp: do_zrem_def zrem_db_def out_enc)
  next
    case (Some b)
    then have b: "b \<in> set (Z a)" "zname (zm g1) b = ?nm" using l(5) by (auto simp: is_znode_def)
    have "?f ?nm \<noteq> None" using zmap_node [OF zset(8) b(1)] b(2) by simp
    moreover obtain m2 z2 where d: "zset_delete m1 z1 b = Some (m2, z2)" "zset_inv m2 z2 (remove1 b (Z a))"
      "zmap m2 (remove1 b (Z a)) = ?f(?nm := None)" "zmem_frame (set (Z a)) m1 m2"
      "realloc_nodes (Z a) (remove1 b (Z a)) m1 m2"
      using zset_delete_inv [OF l(2) b(1)] same b(2) by auto
    moreover have n2: "realloc_nodes (Z a) (remove1 b (Z a)) (zm g1) m2" using d(5) l(4) by (simp add: realloc_nodes_def)
    moreover have "\<exists>g'. put_zset (g1\<lparr>zm := m2\<rparr>) (Zset_of a) z2 = Some g' \<and>
        implements g' (s(cmd ! 1 \<mapsto> (AZset (?f(?nm := None)), T a)))"
      using put_zset_rel [OF zset(2,3,5) d(2) zmem_frame_trans [OF l(3) d(4)] set_remove1_subset n2 zset(4)] d(3) by simp
    ultimately show ?thesis using Some zset(1,6,7) l(1) cmd
      by (auto simp: do_zrem_def zrem_db_def out_enc)
  qed
qed

lemma do_zscore_rel:
  assumes r: "srv_rel g A Z T s" and cmd: "length cmd = 3"
  shows "\<exists>g'. do_zscore g cmd out = Some (g', out @ enc (zscore_reply s (cmd ! 1) (cmd ! 2))) \<and> implements g' s"
proof (cases rule: expect_cases [OF r, of "cmd ! 1", case_names absent string zset])
  case (absent g1)
  then show ?thesis
    using cmd by (auto simp: do_zscore_def zscore_reply_def out_enc zset_lookup_empty intro: implementsI)
next
  case (string g1 v t)
  then show ?thesis
    using cmd by (auto simp: do_zscore_def zscore_reply_def expect_zset_err_def out_enc intro: implementsI)
next
  case (zset g1 a)
  let ?f = "zmap (zm g1) (Z a)" and ?nm = "cmd ! 2"
  obtain m1 z1 p where l: "zset_lookup (zm g1) (ezset (ent g1 a)) ?nm (length ?nm) = Some (m1, z1, p)"
    "zset_inv m1 z1 (Z a)" "zmem_frame (set (Z a)) (zm g1) m1" "zdat m1 = zdat (zm g1)"
    "is_znode (zm g1) (Z a) ?nm p" using zset_lookup_inv [OF zset(8) refl] by blast
  have n1: "realloc_nodes (Z a) (Z a) (zm g1) m1" using l(4) by (intro realloc_same [OF zset(8)]) simp_all
  have same: "zmap m1 (Z a) = ?f"
    using l(4) by (auto simp: zmap_def zname_def zscore_def)
  have "s(cmd ! 1 \<mapsto> (AZset ?f, T a)) = s" using zset(7) by auto
  then obtain g' where g': "put_zset (g1\<lparr>zm := m1\<rparr>) (Zset_of a) z1 = Some g'" "implements g' s"
    using put_zset_rel [OF zset(2,3,5) l(2,3) subset_refl n1 zset(4)] same by auto
  show ?thesis
  proof (cases p)
    case None
    then have "?f ?nm = None" using l(5) by (simp add: is_znode_def)
    then show ?thesis using g' None zset(1,6,7) l(1) cmd
      by (auto simp: do_zscore_def zscore_reply_def out_enc simp del: put_zset.simps)
  next
    case (Some b)
    then have b: "b \<in> set (Z a)" "zname (zm g1) b = ?nm" using l(5) by (auto simp: is_znode_def)
    have "znode_ok (zm g1) b" using zset(8) b(1) by (simp add: zset_inv_def)
    then obtain d where d: "zdat m1 b = Some d" "zscore (zm g1) b = score d"
      using l(4) by (auto simp: znode_ok_def zscore_def)
    have "?f ?nm = Some (score d)" using zmap_node [OF zset(8) b(1)] b(2) d(2) by simp
    then show ?thesis using g' Some zset(1,6,7) l(1) cmd d(1)
      by (auto simp: do_zscore_def zscore_reply_def out_enc simp del: put_zset.simps)
  qed
qed

subsection \<open>\<open>zquery\<close>\<close>

text \<open>The pairs of a set in order of (score, name): a list that the set determines.\<close>

definition pair_key :: "u64 \<times> bytes \<Rightarrow> int \<times> bytes" where
  "pair_key p = (dbl_key (fst p), snd p)"

definition sorted_pairs :: "(bytes \<rightharpoonup> u64) \<Rightarrow> (u64 \<times> bytes) list \<Rightarrow> bool" where
  "sorted_pairs f ps \<longleftrightarrow> sorted_wrt (\<lambda>p q. pair_key p < pair_key q) ps \<and> (\<forall>sc nm. (sc, nm) \<in> set ps \<longleftrightarrow> f nm = Some sc)"

lemma zpairs_sorted:
  assumes "zset_inv m z xs"
  shows "sorted_pairs (zmap m xs) (zpairs m xs)"
proof -
  have "sorted_wrt (\<lambda>p q. pair_key p < pair_key q) (zpairs m xs)"
    using assms by (simp add: zset_inv_def zpairs_def sorted_wrt_map pair_key_def zkey_def)
  then show ?thesis using zmap_Some [OF assms] by (auto simp: sorted_pairs_def zpairs_def)
qed

text \<open>
  The reply to a query: from the first pair that is not before (score, name), move by \<open>offset\<close> ranks,
  and list pairs while the number of items listed is less than \<open>limit\<close>. A pair is two items.
\<close>

definition zquery_window :: "(u64 \<times> bytes) list \<Rightarrow> u64 \<Rightarrow> bytes \<Rightarrow> int \<Rightarrow> int \<Rightarrow> (u64 \<times> bytes) list" where
  "zquery_window ps sc nm offset limit = (
     let r = int (length (filter (\<lambda>p. pair_key p < (dbl_key sc, nm)) ps)) in
     if r < int (length ps) \<and> 0 \<le> r + offset \<and> r + offset < int (length ps)
     then take (nat ((limit + 1) div 2)) (drop (nat (r + offset)) ps) else [])"

definition pair_replies :: "(u64 \<times> bytes) list \<Rightarrow> reply list" where
  "pair_replies ps = concat (map (\<lambda>(sc, nm). [RStr nm, RDbl sc]) ps)"

lemma length_pair_replies: "length (pair_replies ps) = 2 * length ps"
  by (induction ps) (auto simp: pair_replies_def)

definition is_zquery_reply :: "strtod \<Rightarrow> adb \<Rightarrow> bytes list \<Rightarrow> reply \<Rightarrow> bool" where
  "is_zquery_reply strtod s cmd rep = (case str2dbl strtod (cmd ! 2) of
     None \<Rightarrow> rep = RErr ERR_BAD_ARG (ascii ''expect fp number'')
   | Some sc \<Rightarrow> (case (str2int (cmd ! 4), str2int (cmd ! 5)) of
       (Some offset, Some limit) \<Rightarrow> (case s (cmd ! 1) of
           None \<Rightarrow> rep = RArr []
         | Some (AStr _, _) \<Rightarrow> rep = expect_zset_err
         | Some (AZset f, _) \<Rightarrow> \<exists>ps. sorted_pairs f ps \<and>
             rep = RArr (pair_replies (zquery_window ps sc (cmd ! 3) offset limit)))
     | _ \<Rightarrow> rep = RErr ERR_BAD_ARG (ascii ''expect int'')))"

lemma zquery_loop_at:
  assumes inv: "zset_inv m z xs" and "0 \<le> n" and "n + 2 * int (length xs - j) < 2 ^ 63"
  shows "zquery_loop m (nth_ptr xs (int j)) limit n out =
    (let w = take (nat ((limit - n + 1) div 2)) (drop j (zpairs m xs))
     in Some (out @ concat (map enc (pair_replies w)), n + 2 * int (length w)))"
  using assms(2,3)
proof (induction "length xs - j" arbitrary: j n out)
  case 0
  then show ?case by (simp add: zquery_loop.simps nth_ptr_def zpairs_def pair_replies_def)
next
  case (Suc k)
  then have j: "j < length xs" by simp
  show ?case
  proof (cases "n < limit")
    case True
    let ?a = "xs ! j"
    have "znode_ok m ?a" using inv j by (simp add: zset_inv_def)
    then obtain d where d: "zdat m ?a = Some d" "len d = length (name d)" by (auto simp: znode_ok_def)
    have p: "drop j (zpairs m xs) = (score d, name d) # drop (Suc j) (zpairs m xs)"
      using j d(1) by (simp add: zpairs_def Cons_nth_drop_Suc [symmetric] zname_def zscore_def)
    have ns: "nat ((limit - n + 1) div 2) = Suc (nat ((limit - (n + 2) + 1) div 2))" using True by linarith
    have "mem_read (name d) 0 (len d) = Some (name d)" using d(2) by (simp add: mem_read_def)
    then show ?thesis
      using Suc.hyps(1) [of "Suc j" "n + 2"] Suc.hyps(2) Suc.prems True d(1) znode_offset_next [OF inv j] j
      unfolding p ns
      by (subst zquery_loop.simps) (simp add: nth_ptr_def [of xs "int j"] out_enc pair_replies_def Let_def add.commute)
  next
    case False
    then have "nat ((limit - n + 1) div 2) = 0" by linarith
    then show ?thesis using False
      by (subst zquery_loop.simps) (simp add: pair_replies_def split: option.split)
  qed
qed

text \<open>The listing of a query, on the nodes of a set.\<close>

lemma zquery_listing:
  assumes inv: "zset_inv m z xs" and sc: "\<not> isnan sc"
  shows "(do { znode \<leftarrow> zset_seekge m z sc nm (length nm);
               znode \<leftarrow> znode_offset m znode offset;
               let (out, ctx) = out_begin_arr out;
               (out, n) \<leftarrow> zquery_loop m znode limit 0 out;
               out \<leftarrow> out_end_arr out ctx (of_int n);
               Some (g, out) }) =
    Some (g, out @ enc (RArr (pair_replies (zquery_window (zpairs m xs) sc nm offset limit))))"
proof -
  let ?r = "int (zrank m xs sc nm)" and ?w = "zquery_window (zpairs m xs) sc nm offset limit"
  have rank: "int (length (filter (\<lambda>p. pair_key p < (dbl_key sc, nm)) (zpairs m xs))) = ?r"
    by (simp add: zrank_def zpairs_def filter_map comp_def pair_key_def zkey_def)
  have len: "length xs \<le> avl_max" using inv by (simp add: zset_inv_def avl_rep_def)
  obtain p where p: "zset_seekge m z sc nm (length nm) = Some p" "p = nth_ptr xs ?r"
    using zset_query_at(1) [OF inv sc refl] by blast
  note off = zset_query_at(2) [OF inv sc refl p(1), of offset]
  have loop: "zquery_loop m (if p = None then None else nth_ptr xs (?r + offset)) limit 0 out1 =
      Some (out1 @ concat (map enc (pair_replies ?w)), 2 * int (length ?w))" for out1
  proof (cases "p \<noteq> None \<and> 0 \<le> ?r + offset \<and> ?r + offset < int (length xs)")
    case True
    then have w: "?w = take (nat ((limit + 1) div 2)) (drop (nat (?r + offset)) (zpairs m xs))"
      using p(2) unfolding zquery_window_def rank Let_def
      by (simp add: nth_ptr_def zpairs_def split: if_splits)
    have "2 * int (length xs - nat (?r + offset)) < 2 ^ 63" using len by (simp add: avl_max_def)
    then show ?thesis
      using zquery_loop_at [OF inv, of 0 "nat (?r + offset)" limit out1] True by (auto simp: w Let_def)
  next
    case False
    then have "?w = []" using p(2) unfolding zquery_window_def rank Let_def
      by (auto simp: nth_ptr_def zpairs_def split: if_splits)
    moreover have "(if p = None then None else nth_ptr xs (?r + offset)) = None"
      using False by (auto simp: nth_ptr_def)
    ultimately show ?thesis by (simp add: zquery_loop.simps pair_replies_def)
  qed
  have n: "(of_int (2 * int (length ?w)) :: u32) = of_nat (length (pair_replies ?w))"
    by (simp add: length_pair_replies)
  have "out_end_arr (out @ TAG_ARR # u32_bytes 0 @ concat (map enc (pair_replies ?w))) (length out + 1)
      (of_nat (length (pair_replies ?w))) = Some (out @ enc (RArr (pair_replies ?w)))"
    using out_begin_end_arr(2) by simp
  then show ?thesis using p(1) off loop n out_begin_end_arr(1) [of out] by simp
qed

lemma zquery_window_Nil [simp]: "zquery_window [] sc nm offset limit = []"
  by (simp add: zquery_window_def)

lemma zquery_window_limit: "limit \<le> 0 \<Longrightarrow> zquery_window ps sc nm offset limit = []"
  by (simp add: zquery_window_def Let_def)

lemma pair_replies_Nil [simp]: "pair_replies [] = []"
  by (simp add: pair_replies_def)

lemma out_arr_Nil: "out_arr out 0 = out @ enc (RArr [])"
  using out_arr_enc [of out "[]"] by simp

lemma do_zquery_rel:
  assumes r: "srv_rel g A Z T s" and cmd: "length cmd = 6"
  shows "\<exists>g' rep. do_zquery strtod g cmd out = Some (g', out @ enc rep) \<and> is_zquery_reply strtod s cmd rep \<and>
    srv_rel g' A Z T s"
proof (cases "str2dbl strtod (cmd ! 2)")
  case None
  then show ?thesis using r cmd by (auto simp: do_zquery_def is_zquery_reply_def out_enc)
next
  case sc: (Some sc)
  have nan: "\<not> isnan sc" using sc by (auto simp: str2dbl_def Let_def split: if_splits prod.splits)
  show ?thesis
  proof (cases "\<exists>offset limit. str2int (cmd ! 4) = Some offset \<and> str2int (cmd ! 5) = Some limit")
    case False
    then show ?thesis using r sc cmd
      by (auto simp: do_zquery_def is_zquery_reply_def out_enc split: option.splits)
  next
    case True
    then obtain offset limit where ol: "str2int (cmd ! 4) = Some offset" "str2int (cmd ! 5) = Some limit" by blast
    show ?thesis
    proof (cases rule: expect_cases [OF r, of "cmd ! 1", case_names absent string zset])
      case (absent g1)
      then show ?thesis using sc ol cmd zquery_listing [OF zset_inv_empty nan, of "zm g1" "cmd ! 3" offset out limit g1]
        by (cases "limit \<le> 0") (simp_all add: do_zquery_def is_zquery_reply_def out_arr_Nil zpairs_def)
    next
      case (string g1 v t)
      then show ?thesis using sc ol cmd
        by (simp add: do_zquery_def is_zquery_reply_def out_enc expect_zset_err_def)
    next
      case (zset g1 a)
      note sp = zpairs_sorted [OF zset(8)] and lst = zquery_listing [OF zset(8) nan]
      have "do_zquery strtod g cmd out = Some (g1, out @ enc (RArr (pair_replies
          (zquery_window (zpairs (zm g1) (Z a)) sc (cmd ! 3) offset limit))))"
        using sc ol cmd zset(1,6) lst [of "cmd ! 3" offset out limit g1]
        by (cases "limit \<le> 0") (simp_all add: do_zquery_def out_arr_Nil zquery_window_limit)
      moreover have "is_zquery_reply strtod s cmd (RArr (pair_replies
          (zquery_window (zpairs (zm g1) (Z a)) sc (cmd ! 3) offset limit)))"
        using sp sc ol zset(7) by (auto simp: is_zquery_reply_def)
      ultimately show ?thesis using zset(2) by blast
    qed
  qed
qed

section \<open>Requests\<close>

text \<open>
  The abstract commands: \<open>command strtod now s cmd s' rep\<close> means that the request \<open>cmd\<close> at time \<open>now\<close>
  takes the database from \<open>s\<close> to \<open>s'\<close> and is answered by \<open>rep\<close>. The order in which \<open>keys\<close> lists the
  keys is not specified; everything else is determined.
\<close>

definition is_cmd :: "bytes list \<Rightarrow> nat \<Rightarrow> string \<Rightarrow> bool" where
  "is_cmd cmd n nm \<longleftrightarrow> length cmd = n \<and> cmd ! 0 = ascii nm"

definition known :: "bytes list \<Rightarrow> bool" where
  "known cmd \<longleftrightarrow> (\<exists>(nm, n) \<in> set [(''get'', 2), (''set'', 3), (''del'', 2), (''keys'', 1), (''zadd'', 4),
     (''zrem'', 3), (''zscore'', 3), (''zquery'', 6), (''pexpire'', 3), (''pttl'', 2)]. is_cmd cmd n nm)"

inductive command :: "strtod \<Rightarrow> u64 \<Rightarrow> adb \<Rightarrow> bytes list \<Rightarrow> adb \<Rightarrow> reply \<Rightarrow> bool" for strtod now s where
  get: "command strtod now s [ascii ''get'', key] s (get_reply s key)"
| set: "command strtod now s [ascii ''set'', key, val] (fst (set_spec s key val)) (snd (set_spec s key val))"
| del: "command strtod now s [ascii ''del'', key] (fst (del_spec s key)) (snd (del_spec s key))"
| keys: "is_keys_reply s rep \<Longrightarrow> command strtod now s [ascii ''keys''] s rep"
| zadd: "command strtod now s [ascii ''zadd'', key, arg, nm]
    (fst (zadd_db strtod s key arg nm)) (snd (zadd_db strtod s key arg nm))"
| zrem: "command strtod now s [ascii ''zrem'', key, nm] (fst (zrem_db s key nm)) (snd (zrem_db s key nm))"
| zscore: "command strtod now s [ascii ''zscore'', key, nm] s (zscore_reply s key nm)"
| zquery: "cmd = [ascii ''zquery'', key, sc, nm, off, lim] \<Longrightarrow> is_zquery_reply strtod s cmd rep \<Longrightarrow>
    command strtod now s cmd s rep"
| pexpire: "command strtod now s [ascii ''pexpire'', key, ttl]
    (fst (expire_spec s now key ttl)) (snd (expire_spec s now key ttl))"
| pttl: "command strtod now s [ascii ''pttl'', key] s (ttl_reply s now key)"
| unknown: "\<not> known cmd \<Longrightarrow> command strtod now s cmd s (RErr ERR_UNKNOWN (ascii ''unknown command.''))"

lemma nth_list:
  "length cmd = Suc 0 \<Longrightarrow> cmd = [cmd ! 0]"
  "length cmd = 2 \<Longrightarrow> cmd = [cmd ! 0, cmd ! 1]"
  "length cmd = 3 \<Longrightarrow> cmd = [cmd ! 0, cmd ! 1, cmd ! 2]"
  "length cmd = 4 \<Longrightarrow> cmd = [cmd ! 0, cmd ! 1, cmd ! 2, cmd ! 3]"
  "length cmd = 6 \<Longrightarrow> cmd = [cmd ! 0, cmd ! 1, cmd ! 2, cmd ! 3, cmd ! 4, cmd ! 5]"
  by (auto simp: list_eq_iff_nth_eq less_Suc_eq numeral_eq_Suc)

text \<open>The dispatch: the names of the commands are different.\<close>

lemma ascii_inj: "ascii a = ascii b \<longleftrightarrow> a = b"
proof -
  have "of_char c = (of_char d :: byte) \<Longrightarrow> c = d" for c d :: char
  proof -
    assume eq: "of_char c = (of_char d :: byte)"
    have "unat (of_char x :: byte) = of_char x" for x :: char
      by (subst of_nat_of_char [symmetric]) (simp add: unat_of_nat take_bit_eq_mod)
    then have "(of_char c :: nat) = of_char d" using eq by metis
    then show ?thesis by (simp add: of_char_eq_iff)
  qed
  then have "inj (of_char :: char \<Rightarrow> byte)" by (auto intro: injI)
  then show ?thesis unfolding ascii_def by (simp add: inj_map_eq_map)
qed

lemma dispatch:
  "is_cmd cmd 2 ''get'' \<Longrightarrow> do_request strtod g now cmd out = do_get g cmd out"
  "is_cmd cmd 3 ''set'' \<Longrightarrow> do_request strtod g now cmd out = do_set g cmd out"
  "is_cmd cmd 2 ''del'' \<Longrightarrow> do_request strtod g now cmd out = do_del g cmd out"
  "is_cmd cmd 1 ''keys'' \<Longrightarrow> do_request strtod g now cmd out = do_keys g out"
  "is_cmd cmd 4 ''zadd'' \<Longrightarrow> do_request strtod g now cmd out = do_zadd strtod g cmd out"
  "is_cmd cmd 3 ''zrem'' \<Longrightarrow> do_request strtod g now cmd out = do_zrem g cmd out"
  "is_cmd cmd 3 ''zscore'' \<Longrightarrow> do_request strtod g now cmd out = do_zscore g cmd out"
  "is_cmd cmd 6 ''zquery'' \<Longrightarrow> do_request strtod g now cmd out = do_zquery strtod g cmd out"
  "is_cmd cmd 3 ''pexpire'' \<Longrightarrow> do_request strtod g now cmd out = do_expire g now cmd out"
  "is_cmd cmd 2 ''pttl'' \<Longrightarrow> do_request strtod g now cmd out = do_ttl g now cmd out"
  by (simp_all add: do_request_def is_cmd_def ascii_inj)

lemma dispatch_unknown:
  assumes "\<not> known cmd"
  shows "do_request strtod g now cmd out = Some (g, out @ enc (RErr ERR_UNKNOWN (ascii ''unknown command.'')))"
  using assms unfolding known_def do_request_def is_cmd_def [symmetric] Let_def by (auto simp: out_enc)

lemma dispatch_cases:
  obtains "is_cmd cmd 2 ''get''" | "is_cmd cmd 3 ''set''" | "is_cmd cmd 2 ''del''" | "is_cmd cmd 1 ''keys''"
  | "is_cmd cmd 4 ''zadd''" | "is_cmd cmd 3 ''zrem''" | "is_cmd cmd 3 ''zscore''" | "is_cmd cmd 6 ''zquery''"
  | "is_cmd cmd 3 ''pexpire''" | "is_cmd cmd 2 ''pttl''" | "\<not> known cmd"
  unfolding known_def by auto

lemma is_cmd_list:
  "is_cmd cmd 1 nm \<Longrightarrow> cmd = [ascii nm]"
  "is_cmd cmd 2 nm \<Longrightarrow> cmd = [ascii nm, cmd ! 1]"
  "is_cmd cmd 3 nm \<Longrightarrow> cmd = [ascii nm, cmd ! 1, cmd ! 2]"
  "is_cmd cmd 4 nm \<Longrightarrow> cmd = [ascii nm, cmd ! 1, cmd ! 2, cmd ! 3]"
  "is_cmd cmd 6 nm \<Longrightarrow> cmd = [ascii nm, cmd ! 1, cmd ! 2, cmd ! 3, cmd ! 4, cmd ! 5]"
  using nth_list [of cmd] by (auto simp: is_cmd_def)

text \<open>A command that its lemma covers is a step of the specification.\<close>

lemma do_request_rel:
  assumes r: "srv_rel g A Z T s" and room: "roomy s"
  shows "\<exists>g' s' rep. do_request strtod g now cmd out = Some (g', out @ enc rep) \<and>
    command strtod now s cmd s' rep \<and> implements g' s'"
proof -
  have room': "card (dom s) + 1 < no_timer" using room by (simp add: roomy_def)
  have len: "length cmd = n" if "is_cmd cmd n nm" for n nm using that by (simp add: is_cmd_def)
  show ?thesis
  proof (cases cmd rule: dispatch_cases)
    case 1
    then show ?thesis using do_get_rel [OF r len [OF 1], of out] command.get [of strtod now s "cmd ! 1"] is_cmd_list(2)
      by (metis dispatch(1) implementsI)
  next
    case 2
    then show ?thesis using do_set_rel [OF r len [OF 2], of out] command.set [of strtod now s "cmd ! 1" "cmd ! 2"] is_cmd_list(3)
      by (metis dispatch(2))
  next
    case 3
    then show ?thesis using do_del_rel [OF r len [OF 3], of out] command.del [of strtod now s "cmd ! 1"] is_cmd_list(2)
      by (metis dispatch(3))
  next
    case 4
    then show ?thesis using do_keys_rel [OF r, of out] command.keys [of s _ strtod now] is_cmd_list(1) r
      by (metis dispatch(4) implementsI)
  next
    case 5
    then show ?thesis using do_zadd_rel [OF r len [OF 5] room, of strtod out] command.zadd [of strtod now s "cmd ! 1" "cmd ! 2" "cmd ! 3"]
        is_cmd_list(4) by (metis dispatch(5))
  next
    case 6
    then show ?thesis using do_zrem_rel [OF r len [OF 6], of out] command.zrem [of strtod now s "cmd ! 1" "cmd ! 2"] is_cmd_list(3)
      by (metis dispatch(6))
  next
    case 7
    then show ?thesis using do_zscore_rel [OF r len [OF 7], of out] command.zscore [of strtod now s "cmd ! 1" "cmd ! 2"] is_cmd_list(3)
      by (metis dispatch(7))
  next
    case 8
    then show ?thesis using do_zquery_rel [OF r len [OF 8], of strtod out] command.zquery [OF is_cmd_list(5)]
      by (metis dispatch(8) implementsI)
  next
    case 9
    then show ?thesis using do_expire_rel [OF r len [OF 9] room', of now out] command.pexpire [of strtod now s "cmd ! 1" "cmd ! 2"]
        is_cmd_list(3) by (metis dispatch(9))
  next
    case 10
    then show ?thesis using do_ttl_rel [OF r len [OF 10], of now out] command.pttl [of strtod now s "cmd ! 1"] is_cmd_list(2)
      by (metis dispatch(10) implementsI)
  next
    case 11
    then show ?thesis using dispatch_unknown command.unknown implementsI [OF r] by metis
  qed
qed

section \<open>Sequences of requests\<close>

text \<open>How large a database can be after a number of requests: every command adds one key or one pair at most.\<close>

definition fits :: "nat \<Rightarrow> adb \<Rightarrow> bool" where
  "fits n s \<longleftrightarrow> finite (dom s) \<and> card (dom s) \<le> n \<and>
     (\<forall>k f t. s k = Some (AZset f, t) \<longrightarrow> finite (dom f) \<and> card (dom f) \<le> n)"

lemma fits_roomy: "fits n s \<Longrightarrow> n + 1 < avl_max \<Longrightarrow> roomy s"
  by (fastforce simp: fits_def roomy_def avl_max_def no_timer_def)

lemma fits_Suc: "fits n s \<Longrightarrow> fits (Suc n) s"
  by (fastforce simp: fits_def)

lemma card_insert_Suc: "finite A \<Longrightarrow> card A \<le> n \<Longrightarrow> card (insert a A) \<le> Suc n"
  by (simp add: card_insert_if)

lemma fits_upd:
  assumes "fits n s" and "\<And>f. v = AZset f \<Longrightarrow> finite (dom f) \<and> card (dom f) \<le> Suc n"
  shows "fits (Suc n) (s(k \<mapsto> (v, t)))"
  using assms card_insert_Suc [of "dom s" n k] unfolding fits_def by auto (blast intro: le_SucI)+

lemma fits_del: "fits n s \<Longrightarrow> fits (Suc n) (s(k := None))"
  unfolding fits_def by (auto intro: le_SucI order_trans [OF card_Diff1_le])

lemma dom_zadd_spec: "dom (zadd_spec f nm sc) = insert nm (dom f)"
  by (auto simp: zadd_spec_def split: option.splits if_splits)

lemma fits_set: "fits n s \<Longrightarrow> s k = Some (AZset f, t) \<Longrightarrow> finite (dom f) \<and> card (dom f) \<le> n"
  by (auto simp: fits_def)

lemma command_fits:
  assumes "command strtod now s cmd s' rep" and f: "fits n s"
  shows "fits (Suc n) s'"
  using assms(1)
proof cases
  case (set key val)
  then show ?thesis using f
    by (auto simp: set_spec_def fits_Suc intro!: fits_upd split: option.splits avalue.splits)
next
  case (del key)
  then show ?thesis using f by (simp add: del_spec_def fits_del)
next
  case (zadd key arg nm)
  have "finite (dom (zadd_spec g nm sc)) \<and> card (dom (zadd_spec g nm sc)) \<le> Suc n"
    if "s key = Some (AZset g, t)" for g t sc
    using fits_set [OF f that] by (simp add: dom_zadd_spec card_insert_Suc)
  then show ?thesis using zadd f
    by (auto simp: zadd_db_def fits_Suc intro!: fits_upd split: option.splits avalue.splits)
next
  case (zrem key nm)
  have "finite (dom (g(nm := None))) \<and> card (dom (g(nm := None))) \<le> Suc n"
    if "s key = Some (AZset g, t)" for g t
    using fits_set [OF f that] card_Diff1_le [of "dom g" nm] by simp
  then show ?thesis using zrem f
    by (auto simp: zrem_db_def fits_Suc intro!: fits_upd split: option.splits avalue.splits)
next
  case (pexpire key ttl)
  have "finite (dom g) \<and> card (dom g) \<le> Suc n" if "s key = Some (AZset g, t)" for g t
    using fits_set [OF f that] by simp
  then show ?thesis using pexpire f
    by (auto simp: expire_spec_def fits_Suc intro!: fits_upd split: option.splits)
qed (use f in \<open>simp_all add: fits_Suc\<close>)

fun requests :: "strtod \<Rightarrow> gdata \<Rightarrow> (u64 \<times> bytes list) list \<Rightarrow> (gdata \<times> bytes list) option" where
  "requests strtod g [] = Some (g, [])"
| "requests strtod g ((now, cmd) # rs) = do {
     (g, out) \<leftarrow> do_request strtod g now cmd [];
     (g, outs) \<leftarrow> requests strtod g rs;
     Some (g, out # outs) }"

inductive commands :: "strtod \<Rightarrow> adb \<Rightarrow> (u64 \<times> bytes list) list \<Rightarrow> adb \<Rightarrow> reply list \<Rightarrow> bool" for strtod where
  none: "commands strtod s [] s []"
| more: "command strtod now s cmd s1 rep \<Longrightarrow> commands strtod s1 rs s2 reps \<Longrightarrow>
    commands strtod s ((now, cmd) # rs) s2 (rep # reps)"

inductive_simps commands_simps: "commands strtod s [] s' reps" "commands strtod s (r # rs) s' reps"

lemma commands_fits: "commands strtod s rs s' reps \<Longrightarrow> fits n s \<Longrightarrow> fits (n + length rs) s'"
proof (induction arbitrary: n rule: commands.induct)
  case (more now s cmd s1 rep rs s2 reps)
  then have "fits (Suc n + length rs) s2" by (blast dest: command_fits)
  then show ?case by simp
qed simp

lemma commands_append: "commands strtod s rs s1 reps \<Longrightarrow> commands strtod s1 rs' s2 reps' \<Longrightarrow>
    commands strtod s (rs @ rs') s2 (reps @ reps')"
  by (induction rule: commands.induct) (auto intro: commands.more)

lemma requests_rel:
  assumes "implements g s" and "fits n s" and "n + length rs < avl_max"
  shows "\<exists>g' s' reps. requests strtod g rs = Some (g', map enc reps) \<and> commands strtod s rs s' reps \<and>
    implements g' s'"
  using assms
proof (induction rs arbitrary: g s n)
  case Nil
  then show ?case by (auto intro!: exI [of _ "[]"] commands.none)
next
  case (Cons r rs)
  obtain now cmd where r: "r = (now, cmd)" by fastforce
  have "roomy s" using Cons.prems by (intro fits_roomy [of n]) auto
  moreover obtain A Z T where "srv_rel g A Z T s" using Cons.prems(1) by (auto simp: implements_def)
  ultimately obtain g1 s1 rep where step: "do_request strtod g now cmd [] = Some (g1, enc rep)"
    "command strtod now s cmd s1 rep" "implements g1 s1"
    using do_request_rel [of g A Z T s strtod now cmd "[]"] by auto
  obtain g' s' reps where "requests strtod g1 rs = Some (g', map enc reps)" "commands strtod s1 rs s' reps"
    "implements g' s'"
    using Cons.IH [OF step(3) command_fits [OF step(2) Cons.prems(2)]] Cons.prems(3) by auto
  then show ?case using step commands.more [OF step(2)] r
    by (intro exI [of _ g'] exI [of _ s'] exI [of _ "rep # reps"]) simp
qed

lemma implements_init: "implements g_data_init Map.empty"
proof -
  have "heap_rep [] Map.empty Map.empty" by (simp add: heap_rep_def timers_def is_heap_def no_timer_def ordered_def refs_ok_def)
  then have "srv_rel g_data_init {} (\<lambda>_. []) Map.empty Map.empty"
    by (simp add: srv_rel_def index_ok_def core_ok_def nodes_ok_def g_data_init_def hm.keyed_def)
  then show ?thesis by (rule implementsI)
qed

section \<open>What is allocated\<close>

text \<open>An entry is a string without a set, or a sorted set whose nodes are all there.\<close>

definition entry_typed :: "gdata \<Rightarrow> entry \<Rightarrow> bool" where
  "entry_typed g e \<longleftrightarrow> etype e = T_STR \<and> zset_inv (zm g) (ezset e) [] \<or> etype e = T_ZSET \<and> (\<exists>xs. zset_inv (zm g) (ezset e) xs)"

lemma implements_typed:
  assumes "implements g s"
  shows "\<forall>a e. ents g a = Some e \<longrightarrow> entry_typed g e" and "dom (idx g) = dom (ents g)"
    and "\<forall>i < length (theap g). href (theap g ! i) \<in> dom (ents g) \<and> idx g (href (theap g ! i)) = Some i"
proof -
  obtain A Z T where "srv_rel g A Z T s" using assms by (auto simp: implements_def)
  then have c: "core_ok g A Z T" by (simp add: srv_rel_def)
  then have d: "dom (ents g) = A" "dom (idx g) = A" by (simp_all add: core_ok_def)
  then show "dom (idx g) = dom (ents g)" by simp
  show "\<forall>a e. ents g a = Some e \<longrightarrow> entry_typed g e"
  proof (intro allI impI)
    fix a e assume a: "ents g a = Some e"
    then have e: "a \<in> A" "ent g a = e" using d(1) by (auto simp: ent_def)
    have t: "etype e = T_STR \<or> etype e = T_ZSET" "zset_inv (zm g) (ezset e) (Z a)" using c e by (auto simp: core_ok_def)
    have "Z a = []" if "etype e = T_STR" using c e that by (simp add: core_ok_def nodes_ok_def)
    then show "entry_typed g e" using t by (auto simp: entry_typed_def)
  qed
  have "refs_ok (theap g) (idx g) (\<lambda>_. False)" using c by (simp add: core_ok_def heap_rep_def is_heap_def)
  then show "\<forall>i < length (theap g). href (theap g ! i) \<in> dom (ents g) \<and> idx g (href (theap g ! i)) = Some i"
    using d by (auto simp: refs_ok_def)
qed

text \<open>How many nodes a value needs.\<close>

definition value_nodes :: "avalue \<Rightarrow> nat" where
  "value_nodes v = (case v of AStr _ \<Rightarrow> 0 | AZset f \<Rightarrow> card (dom f))"

lemma implements_allocated:
  assumes "implements g s"
  shows "finite (dom s)" and "bij_betw (\<lambda>a. ekey (the (ents g a))) (dom (ents g)) (dom s)" and "hm_size (db g) = card (dom s)"
    and "length (theap g) = card {k. \<exists>v t. s k = Some (v, Some t)}"
    and "card (dom (zdat (zm g))) = (\<Sum>k \<in> dom s. value_nodes (fst (the (s k))))"
proof -
  obtain A Z T where r: "srv_rel g A Z T s" using assms by (auto simp: implements_def)
  have c: "core_ok g A Z T" using r by (simp add: srv_rel_def)
  note inj = srv_rel_key(2) [OF r]
  have f: "finite A" using r hm_inv_finite by (auto simp: srv_rel_def index_ok_def)
  show "finite (dom s)" using r f by (simp add: srv_rel_def)
  have bij: "bij_betw (ename g) A (dom s)" using r inj by (simp add: bij_betw_def srv_rel_def)
  then show "bij_betw (\<lambda>a. ekey (the (ents g a))) (dom (ents g)) (dom s)"
    using r by (simp add: srv_rel_def core_ok_def ename_def [abs_def] ent_def)
  show "hm_size (db g) = card (dom s)"
    using r hm_size_card [of "db_nodes g" "db g" A] bij_betw_same_card [OF bij] by (simp add: srv_rel_def index_ok_def)
  have hr: "heap_rep (theap g) (idx g) T" using c by (simp add: core_ok_def)
  note DT = timers_dom [OF c]
  have "{k. \<exists>v t. s k = Some (v, Some t)} = ename g ` dom T"
  proof (intro equalityI subsetI)
    fix x assume "x \<in> {k. \<exists>v t. s k = Some (v, Some t)}"
    then obtain v t where x: "s x = Some (v, Some t)" by blast
    then have "x \<in> ename g ` A" using bij unfolding bij_betw_def by blast
    then obtain a where "a \<in> A" "ename g a = x" by blast
    then show "x \<in> ename g ` dom T" using x srv_rel_key(3) [OF r] by auto
  next
    fix x assume "x \<in> ename g ` dom T"
    then obtain a t where a: "x = ename g a" "T a = Some t" "a \<in> A" using DT by blast
    then show "x \<in> {k. \<exists>v t. s k = Some (v, Some t)}" using srv_rel_key(3) [OF r a(3)] by simp
  qed
  then show "length (theap g) = card {k. \<exists>v t. s k = Some (v, Some t)}"
    using heap_rep_card [OF hr] card_image [OF inj_on_subset [OF inj DT]] by simp
  have z: "zset_inv (zm g) (ezset (ent g a)) (Z a)" "etype (ent g a) = T_STR \<longrightarrow> Z a = []" if "a \<in> A" for a
    using c that by (simp_all add: core_ok_def nodes_ok_def)
  have n: "value_nodes (aval g Z a) = card (set (Z a))" if "a \<in> A" for a
    using z [OF that] zmap_card [OF z(1) [OF that]] distinct_card [OF zset_inv_distinct [OF z(1) [OF that]]]
    by (auto simp: value_nodes_def aval_def)
  have "card (dom (zdat (zm g))) = card (\<Union>a \<in> A. set (Z a))" using r by (simp add: srv_rel_def core_ok_def nodes_ok_def)
  also have "\<dots> = (\<Sum>a \<in> A. card (set (Z a)))"
    using f r by (intro card_UN_disjoint) (auto simp: srv_rel_def core_ok_def)
  also have "\<dots> = (\<Sum>a \<in> A. value_nodes (fst (the (s (ename g a)))))"
    by (rule sum.cong) (simp_all add: n srv_rel_key(3) [OF r])
  also have "\<dots> = (\<Sum>k \<in> dom s. value_nodes (fst (the (s k))))" using sum.reindex_bij_betw [OF bij] .
  finally show "card (dom (zdat (zm g))) = (\<Sum>k \<in> dom s. value_nodes (fst (the (s k))))" .
qed

end
