(* ===== verification/Dlist_Ring_Correct.thy ===== *)
theory Dlist_Ring_Correct
  imports Dlist_Ring
begin

text \<open>
  The list operations on rings: a head and its members in order, every neighbouring pair linked
  both ways, also from the last member back to the head.
\<close>

section \<open>Rings\<close>

definition nextof :: "dstore \<Rightarrow> addr \<Rightarrow> ptr option" where
  "nextof s a = map_option dnext (s a)"

definition prevof :: "dstore \<Rightarrow> addr \<Rightarrow> ptr option" where
  "prevof s a = map_option dprev (s a)"

definition linked :: "dstore \<Rightarrow> addr \<Rightarrow> addr \<Rightarrow> bool" where
  "linked s a b \<longleftrightarrow> nextof s a = Some (Some b) \<and> prevof s b = Some (Some a)"

definition ring :: "dstore \<Rightarrow> addr \<Rightarrow> addr list \<Rightarrow> bool" where
  "ring s h xs \<longleftrightarrow> distinct (h # xs) \<and> successively (linked s) (h # xs @ [h])"

lemma successively_linked_frame:
  "successively (linked s) L \<Longrightarrow> (\<And>u. u \<in> set (butlast L) \<Longrightarrow> nextof s' u = nextof s u) \<Longrightarrow>
   (\<And>v. v \<in> set (tl L) \<Longrightarrow> prevof s' v = prevof s v) \<Longrightarrow> successively (linked s') L"
proof (induction L rule: induct_list012)
  case (3 x y zs)
  have "successively (linked s') (y # zs)"
    using 3 by (intro 3(2)) (auto dest: list.set_sel(2))
  then show ?case using 3 by (auto simp: linked_def)
qed auto

lemma ring_frame:
  assumes r: "ring s h xs" and f: "same_outside A s s'" and d: "A \<inter> insert h (set xs) = {}"
  shows "ring s' h xs"
proof -
  have same: "s' u = s u" if "u \<in> set (h # xs @ [h])" for u
    using same_outsideD [OF f] d that by auto
  have "successively (linked s') (h # xs @ [h])"
  proof (rule successively_linked_frame [of s])
    show "nextof s' u = nextof s u" if "u \<in> set (butlast (h # xs @ [h]))" for u
      using same [OF in_set_butlastD [OF that]] by (simp add: nextof_def)
    show "prevof s' u = prevof s u" if "u \<in> set (tl (h # xs @ [h]))" for u
      using same [of u] that by (simp add: prevof_def)
  qed (use r in \<open>simp add: ring_def\<close>)
  then show ?thesis using r by (simp add: ring_def)
qed

lemma ring_alloc: "ring s h xs \<Longrightarrow> a \<in> insert h (set xs) \<Longrightarrow> s a \<noteq> None"
proof -
  assume r: "ring s h xs" and a: "a \<in> insert h (set xs)"
  have "nextof s u \<noteq> None" if "successively (linked s) L" "u \<in> set (butlast L)" for L u
    using that by (induction L rule: induct_list012) (auto simp: linked_def)
  then show "s a \<noteq> None" using r a unfolding ring_def nextof_def by (force simp: butlast_append)
qed

text \<open>The head of a ring is its first member's predecessor, or its own when the ring is empty.\<close>

lemma ring_first: "ring s h xs \<Longrightarrow> nextof s h = Some (Some (hd (xs @ [h])))"
  by (cases xs) (auto simp: ring_def linked_def)

lemma ring_chain:
  assumes "ring s h xs"
  shows "successively (linked s) (h # xs)" and "linked s (last (h # xs)) h"
proof -
  have "successively (linked s) ((h # xs) @ [h])" using assms by (simp add: ring_def)
  from iffD1 [OF successively_append_iff this]
  show "successively (linked s) (h # xs)" "linked s (last (h # xs)) h" by simp_all
qed

lemma dlist_init_ring: "s h \<noteq> None \<Longrightarrow> \<exists>s'. dlist_init s h = Some s' \<and> ring s' h [] \<and> same_outside {h} s s'"
  by (auto simp: dlist_init_def ring_def linked_def nextof_def prevof_def)

lemma dlist_empty_ring: "ring s h xs \<Longrightarrow> dlist_empty s h = Some (xs = [])"
  using ring_first [of s h xs] by (cases xs) (auto simp: dlist_empty_def nextof_def ring_def)

text \<open>
  Relinking: the chain from \<open>A\<close> to \<open>B\<close> when only the next pointer of the last of \<open>A\<close> and the
  previous pointer of the first of \<open>B\<close> have changed.
\<close>

lemma relink:
  assumes "successively (linked s) A" and "successively (linked s) B" and "A \<noteq> []" and "B \<noteq> []"
    and "distinct A" and "distinct B" and "set (butlast B) \<inter> {last A} = {}" and "set (tl A) \<inter> {hd B} = {}"
    and "\<And>u. u \<in> set (butlast A) \<union> set (butlast B) \<Longrightarrow> nextof s' u = nextof s u"
    and "\<And>u. u \<in> set (tl A) \<union> set (tl B) \<Longrightarrow> prevof s' u = prevof s u"
    and "linked s' (last A) (hd B)"
  shows "successively (linked s') (A @ B)"
  using assms by (auto simp: successively_append_iff intro: successively_linked_frame)

lemma butlast_last_distinct: "distinct A \<Longrightarrow> u \<in> set (butlast A) \<Longrightarrow> u \<noteq> last A"
  by (induction A rule: rev_induct) auto

lemma tl_hd_distinct: "distinct A \<Longrightarrow> u \<in> set (tl A) \<Longrightarrow> u \<noteq> hd A"
  by (cases A) auto

lemma dlist_detach_ring:
  assumes r: "ring s h (xs @ x # ys)"
  shows "\<exists>s'. dlist_detach s x = Some s' \<and> ring s' h (xs @ ys) \<and> s' x = s x \<and>
    same_outside (insert h (set xs \<union> set ys)) s s'"
proof -
  define A B a b where "A = h # xs" and "B = ys @ [h]" and "a = last A" and "b = hd B"
  have ne: "A \<noteq> []" "B \<noteq> []" and d: "distinct (h # xs @ x # ys)" "distinct A" "distinct B"
    using r by (auto simp: A_def B_def ring_def)
  have "successively (linked s) (A @ x # B)" using r by (simp add: ring_def A_def B_def)
  then have l: "successively (linked s) A" "successively (linked s) B" "linked s a x" "linked s x b"
    using ne by (auto simp: successively_append_iff a_def b_def successively_Cons)
  have ab: "a \<in> insert h (set xs)" "b \<in> insert h (set ys)"
    by (auto simp: a_def b_def A_def B_def hd_append)
  then have nx: "a \<noteq> x" "b \<noteq> x" using d by auto
  obtain n where n: "s x = Some n" "dprev n = Some a" "dnext n = Some b"
    using l(3,4) by (auto simp: linked_def nextof_def prevof_def)
  obtain na where na: "s a = Some na" using l(3) by (auto simp: linked_def nextof_def)
  define s1 where "s1 = s(a \<mapsto> na\<lparr>dnext := Some b\<rparr>)"
  have "s b \<noteq> None" using l(4) by (auto simp: linked_def prevof_def)
  then obtain nb where nb: "s1 b = Some nb" by (cases "b = a") (auto simp: s1_def)
  define s2 where "s2 = s1(b \<mapsto> nb\<lparr>dprev := Some a\<rparr>)"
  have det: "dlist_detach s x = Some s2" using n na nb by (simp add: dlist_detach_def s1_def s2_def)
  have nxt: "nextof s2 u = (if u = a then Some (Some b) else nextof s u)" for u
    using nb na by (auto simp: nextof_def s2_def s1_def split: if_splits)
  have prv: "prevof s2 u = (if u = b then Some (Some a) else prevof s u)" for u
    using nb na by (auto simp: prevof_def s2_def s1_def split: if_splits)
  have "a \<notin> set (butlast B)" "b \<notin> set (tl A)" using ab d by (auto simp: A_def B_def)
  moreover have "linked s2 (last A) (hd B)" by (simp add: linked_def nxt prv a_def [symmetric] b_def [symmetric])
  ultimately have "successively (linked s2) (A @ B)"
    using butlast_last_distinct [OF d(2)] tl_hd_distinct [OF d(3)]
    by (intro relink [OF l(1,2) ne d(2,3)]) (auto simp: nxt prv a_def b_def)
  then have "ring s2 h (xs @ ys)" using d by (simp add: ring_def A_def B_def)
  moreover have "same_outside (insert h (set xs \<union> set ys)) s s2" "s2 x = s x"
    using ab nx by (auto simp: s2_def s1_def same_outside_def)
  ultimately show ?thesis using det by blast
qed

lemma dlist_insert_ring:
  assumes r: "ring s h xs" and x: "s x \<noteq> None" "x \<notin> insert h (set xs)"
  shows "\<exists>s'. dlist_insert_before s h x = Some s' \<and> ring s' h (xs @ [x]) \<and>
    same_outside (insert x (insert h (set xs))) s s'"
proof -
  define A a where "A = h # xs" and "a = last A"
  have d: "distinct (x # h # xs)" "distinct A" using r x by (auto simp: A_def ring_def)
  have l: "successively (linked s) A" "linked s a h" using ring_chain [OF r] by (simp_all add: a_def A_def)
  have ab: "a \<in> insert h (set xs)" by (auto simp: a_def A_def)
  then have nx: "a \<noteq> x" using d by auto
  obtain nh where nh: "s h = Some nh" "dprev nh = Some a" using l(2) by (auto simp: linked_def prevof_def)
  obtain na where na: "s a = Some na" using l(2) by (auto simp: linked_def nextof_def)
  obtain n where n: "s x = Some n" using x by blast
  define s1 where "s1 = s(a \<mapsto> na\<lparr>dnext := Some x\<rparr>, x \<mapsto> n\<lparr>dprev := Some a, dnext := Some h\<rparr>)"
  obtain n1 where n1: "s1 h = Some n1" using nh d by (cases "h = a") (auto simp: s1_def)
  define s2 where "s2 = s1(h \<mapsto> n1\<lparr>dprev := Some x\<rparr>)"
  have ins: "dlist_insert_before s h x = Some s2"
  proof -
    define sa where "sa = s(a \<mapsto> na\<lparr>dnext := Some x\<rparr>)"
    define sb where "sb = sa(x \<mapsto> n\<lparr>dprev := Some a\<rparr>)"
    have "modify s a (\<lambda>n. n\<lparr>dnext := Some x\<rparr>) = Some sa" "modify sa x (\<lambda>n. n\<lparr>dprev := Some a\<rparr>) = Some sb"
      using na n nx by (simp_all add: sa_def sb_def)
    moreover have "modify sb x (\<lambda>n. n\<lparr>dnext := Some h\<rparr>) = Some s1" by (simp add: sb_def sa_def s1_def)
    moreover have "modify s1 h (\<lambda>n. n\<lparr>dprev := Some x\<rparr>) = Some s2" using n1 by (simp add: s2_def)
    ultimately show ?thesis using nh by (simp add: dlist_insert_before_def)
  qed
  have nxt: "nextof s2 u = (if u = x then Some (Some h) else if u = a then Some (Some x) else nextof s u)" for u
    using n1 na n d by (auto simp: nextof_def s2_def s1_def split: if_splits)
  have prv: "prevof s2 u = (if u = h then Some (Some x) else if u = x then Some (Some a) else prevof s u)" for u
    using n1 na n d by (auto simp: prevof_def s2_def s1_def split: if_splits)
  have "linked s2 (last A) (hd [x, h])" "successively (linked s2) [x, h]"
    using nx d by (simp_all add: linked_def nxt prv a_def [symmetric])
  moreover have "successively (linked s2) A"
  proof (rule successively_linked_frame [OF l(1)])
    fix u assume u: "u \<in> set (butlast A)"
    have "u \<noteq> x" using in_set_butlastD [OF u] d by (auto simp: A_def)
    then show "nextof s2 u = nextof s u" using butlast_last_distinct [OF d(2) u] by (simp add: nxt a_def)
  next
    fix u assume "u \<in> set (tl A)"
    then show "prevof s2 u = prevof s u" using d by (auto simp: prv A_def)
  qed
  ultimately have "successively (linked s2) (A @ [x, h])" unfolding successively_append_iff by blast
  then have "ring s2 h (xs @ [x])" using d by (simp add: ring_def A_def)
  moreover have "same_outside (insert x (insert h (set xs))) s s2"
    using ab by (auto simp: s2_def s1_def same_outside_def)
  ultimately show ?thesis using ins by blast
qed

section \<open>The interface\<close>

text \<open>A queue with removal from the middle: what the server needs to order its connections.\<close>

locale idle_queue =
  fixes rep :: "'s \<Rightarrow> addr \<Rightarrow> addr list \<Rightarrow> bool"
    and append :: "'s \<Rightarrow> addr \<Rightarrow> addr \<Rightarrow> 's option"
    and detach :: "'s \<Rightarrow> addr \<Rightarrow> 's option"
    and live_in :: "'s \<Rightarrow> addr \<Rightarrow> bool"
  assumes distinct_law: "rep s h xs \<Longrightarrow> distinct (h # xs)"
    and live_law: "rep s h xs \<Longrightarrow> a \<in> set xs \<Longrightarrow> live_in s a"
    and append_law: "rep s h xs \<Longrightarrow> live_in s x \<Longrightarrow> x \<notin> insert h (set xs) \<Longrightarrow>
      \<exists>s'. append s h x = Some s' \<and> rep s' h (xs @ [x])"
    and detach_law: "rep s h xs \<Longrightarrow> x \<in> set xs \<Longrightarrow>
      \<exists>s'. detach s x = Some s' \<and> rep s' h (remove1 x xs) \<and> (live_in s x \<longrightarrow> live_in s' x)"
begin

text \<open>Moving a member to the end, as the server does with an active connection.\<close>

lemma move_to_end:
  assumes r: "rep s h xs" and x: "x \<in> set xs"
  shows "\<exists>s' s''. detach s x = Some s' \<and> append s' h x = Some s'' \<and> rep s'' h (remove1 x xs @ [x])"
proof -
  obtain s' where s': "detach s x = Some s'" "rep s' h (remove1 x xs)" "live_in s x \<longrightarrow> live_in s' x"
    using detach_law [OF r x] by blast
  have "x \<notin> insert h (set (remove1 x xs))" using distinct_law [OF r] x by auto
  then show ?thesis using append_law [OF s'(2)] s'(1,3) live_law [OF r x] by blast
qed

end

lemma ring_detach:
  assumes r: "ring s h xs" and x: "x \<in> set xs"
  shows "\<exists>s'. dlist_detach s x = Some s' \<and> ring s' h (remove1 x xs) \<and> s' x = s x \<and>
    same_outside (insert h (set xs)) s s'"
proof -
  obtain ys zs where xs: "xs = ys @ x # zs" "x \<notin> set ys" using split_list_first [OF x] by blast
  then have "remove1 x xs = ys @ zs" by (simp add: remove1_append)
  then show ?thesis
    using dlist_detach_ring [of s h ys x zs] r xs(1) by (auto intro: same_outside_mono)
qed

interpretation idle: idle_queue ring dlist_insert_before dlist_detach live
proof unfold_locales
  show "distinct (h # xs)" if "ring s h xs" for s h xs using that by (simp add: ring_def)
  show "live s a" if "ring s h xs" "a \<in> set xs" for s h xs a
    using ring_alloc [OF that(1)] that(2) by (simp add: live_def)
  show "\<exists>s'. dlist_insert_before s h x = Some s' \<and> ring s' h (xs @ [x])"
    if "ring s h xs" "live s x" "x \<notin> insert h (set xs)" for s h xs x
    using dlist_insert_ring [OF that(1) _ that(3)] that(2) by (auto simp: live_def)
  show "\<exists>s'. dlist_detach s x = Some s' \<and> ring s' h (remove1 x xs) \<and> (live s x \<longrightarrow> live s' x)"
    if "ring s h xs" "x \<in> set xs" for s h xs x
    using ring_detach [OF that] by (auto simp: live_def)
qed

section \<open>Properties\<close>

definition sample_ring :: dstore where
  "sample_ring = [0 \<mapsto> \<lparr>dprev = Some 2, dnext = Some 1\<rparr>, 1 \<mapsto> \<lparr>dprev = Some 0, dnext = Some 2\<rparr>,
     2 \<mapsto> \<lparr>dprev = Some 1, dnext = Some 0\<rparr>, 5 \<mapsto> \<lparr>dprev = None, dnext = None\<rparr>]"

lemma sample_ring: "ring sample_ring 0 [1, 2]"
  by (simp add: ring_def linked_def nextof_def prevof_def sample_ring_def)

text \<open>Inserting before the head puts the node at the end of the list, whatever the list holds.\<close>

theorem dlist_insert_correct:
  assumes "ring s h xs" and "s x \<noteq> None" and "x \<notin> insert h (set xs)"
  shows "\<exists>s'. dlist_insert_before s h x = Some s' \<and> ring s' h (xs @ [x]) \<and>
    same_outside (insert x (insert h (set xs))) s s'"
  using assms by (rule dlist_insert_ring)

theorem dlist_insert_correct_witness:
  "\<exists>s'. dlist_insert_before sample_ring 0 5 = Some s' \<and> ring s' 0 [1, 2, 5]"
  using dlist_insert_correct [OF sample_ring, of 5] by (auto simp: sample_ring_def)

text \<open>Detaching a member and inserting it before the head moves it to the end and keeps the
  order of the others: the list stays sorted by the time of the last activity.\<close>

theorem dlist_move_to_end:
  assumes "ring s h xs" and "x \<in> set xs"
  shows "\<exists>s' s''. dlist_detach s x = Some s' \<and> dlist_insert_before s' h x = Some s'' \<and>
    ring s'' h (remove1 x xs @ [x])"
  using assms by (rule idle.move_to_end)

theorem dlist_move_to_end_witness:
  "\<exists>s' s''. dlist_detach sample_ring 1 = Some s' \<and> dlist_insert_before s' 0 1 = Some s'' \<and> ring s'' 0 [2, 1]"
  using dlist_move_to_end [OF sample_ring, of 1] by simp

end
