(* ===== verification/Event_Loop_Correct.thy ===== *)
theory Event_Loop_Correct
  imports Event_Loop Server_Correct Dlist_Ring_Correct
begin

text \<open>
  Connections and the event loop: pipelined requests are answered in order however the bytes arrive,
  every iteration keeps the invariant of the connections and the database, so that none of its
  assertions can fail, and the timers remove what they should.
\<close>

section \<open>Requests in a stream of bytes\<close>

text \<open>What a client sends for a list of commands, and what it gets for a list of replies.\<close>

definition messages :: "bytes list list \<Rightarrow> bytes" where
  "messages cmds = concat (map (\<lambda>cmd. framed (enc_cmd cmd)) cmds)"

definition responses :: "reply list \<Rightarrow> bytes" where
  "responses reps = concat (map (\<lambda>rep. frame (enc rep)) reps)"

lemma messages_simps [simp]:
  "messages [] = []" "messages (cmd # cmds) = framed (enc_cmd cmd) @ messages cmds"
  by (simp_all add: messages_def)

lemma responses_simps [simp]:
  "responses [] = []" "responses (rep # reps) = frame (enc rep) @ responses reps"
  "responses (reps @ reps') = responses reps @ responses reps'"
  by (simp_all add: responses_def)

text \<open>
  The requests at the front of a stream, the bytes that are left, and whether they make the server close
  the connection. This is the reference for the loop over \<open>try_one_request\<close>.
\<close>

function requests_of :: "bytes \<Rightarrow> bytes list list \<times> bytes \<times> bool" where
  "requests_of bs =
     (if length bs < 4 then ([], bs, False)
      else if unat (bytes_u32 (take 4 bs)) > k_max_msg then ([], bs, True)
      else if length bs < 4 + unat (bytes_u32 (take 4 bs)) then ([], bs, False)
      else (case parse_req (take (unat (bytes_u32 (take 4 bs))) (drop 4 bs)) of
          None \<Rightarrow> ([], bs, True)
        | Some cmd \<Rightarrow> (case requests_of (drop (4 + unat (bytes_u32 (take 4 bs))) bs) of
            (cmds, rest, bad) \<Rightarrow> (cmd # cmds, rest, bad))))"
  by pat_completeness auto
termination by (relation "measure length") auto

declare requests_of.simps [simp del]

lemma requests_of_Nil [simp]: "requests_of [] = ([], [], False)"
  by (simp add: requests_of.simps)

lemma requests_of_Nil_cmds: "requests_of bs = ([], rest, bad) \<Longrightarrow> rest = bs"
  by (subst (asm) requests_of.simps) (auto split: if_splits option.splits prod.splits)

abbreviation msg_len :: "bytes \<Rightarrow> nat" where
  "msg_len bs \<equiv> unat (bytes_u32 (take 4 bs))"

lemma requests_of_Cons: "requests_of bs = (cmd # cs, rest, bad) \<longleftrightarrow>
    4 \<le> length bs \<and> msg_len bs \<le> k_max_msg \<and> 4 + msg_len bs \<le> length bs \<and>
    parse_req (take (msg_len bs) (drop 4 bs)) = Some cmd \<and>
    requests_of (drop (4 + msg_len bs) bs) = (cs, rest, bad)"
  by (subst requests_of.simps) (auto split: option.splits prod.splits)

lemma requests_of_induct [consumes 1, case_names none some]:
  assumes "requests_of bs = (cmds, rest, bad)"
    and "\<And>bs bad. requests_of bs = ([], bs, bad) \<Longrightarrow> P bs [] bs bad"
    and "\<And>bs cmd cs rest bad. requests_of bs = (cmd # cs, rest, bad) \<Longrightarrow>
      requests_of (drop (4 + msg_len bs) bs) = (cs, rest, bad) \<Longrightarrow>
      P (drop (4 + msg_len bs) bs) cs rest bad \<Longrightarrow> P bs (cmd # cs) rest bad"
  shows "P bs cmds rest bad"
  using assms(1)
proof (induction cmds arbitrary: bs)
  case Nil
  then show ?case using assms(2) requests_of_Nil_cmds by blast
next
  case (Cons cmd cs)
  then show ?case using assms(3) by (simp add: requests_of_Cons)
qed

lemma requests_of_length: "requests_of bs = (cmds, rest, bad) \<Longrightarrow> 4 * length cmds + length rest \<le> length bs"
  by (induction rule: requests_of_induct) (auto simp: requests_of_Cons)

lemma requests_of_rest: "requests_of bs = (cmds, rest, bad) \<Longrightarrow> requests_of rest = ([], rest, bad)"
  by (induction rule: requests_of_induct) auto

text \<open>A message of the client at the front of the stream.\<close>

lemma framed_split:
  assumes "length body \<le> k_max_msg"
  shows "bytes_u32 (take 4 (framed body @ bs)) = of_nat (length body)"
    and "unat (of_nat (length body) :: u32) = length body"
proof -
  show "unat (of_nat (length body) :: u32) = length body"
    using assms by (intro unat_of_nat_u32) (simp add: k_max_msg_def)
qed (simp add: framed_def)

lemma requests_of_msg:
  assumes "cmd_ok cmd" and "length (enc_cmd cmd) \<le> k_max_msg" and "requests_of bs = (cmds, rest, bad)"
  shows "requests_of (framed (enc_cmd cmd) @ bs) = (cmd # cmds, rest, bad)"
proof -
  note f = framed_split [OF assms(2)]
  have p: "parse_req (enc_cmd cmd) = Some cmd" using assms(1) by (simp add: parse_req_Some)
  have d: "take (length (enc_cmd cmd)) (drop 4 (framed (enc_cmd cmd) @ bs)) = enc_cmd cmd"
    "drop (4 + length (enc_cmd cmd)) (framed (enc_cmd cmd) @ bs) = bs"
    "length (framed (enc_cmd cmd) @ bs) = 4 + length (enc_cmd cmd) + length bs"
    by (simp_all add: framed_def)
  show ?thesis
    by (subst requests_of.simps) (simp only: f d p assms(3) if_False not_less, use assms(2) in simp)
qed

lemma requests_of_msgs:
  assumes "\<And>cmd. cmd \<in> set cmds \<Longrightarrow> cmd_ok cmd \<and> length (enc_cmd cmd) \<le> k_max_msg"
    and "requests_of bs = (cmds', rest, bad)"
  shows "requests_of (messages cmds @ bs) = (cmds @ cmds', rest, bad)"
  using assms(1) by (induction cmds) (simp_all add: assms(2) requests_of_msg)

text \<open>More bytes do not change what was recognized.\<close>

lemma requests_of_append:
  "requests_of bs = (cmds, rest, bad) \<Longrightarrow> requests_of (bs @ tl_bs) = (if bad then (cmds, rest @ tl_bs, True)
    else (case requests_of (rest @ tl_bs) of (cmds', rest', bad') \<Rightarrow> (cmds @ cmds', rest', bad')))"
proof (induction rule: requests_of_induct)
  case (none bs bad)
  show ?case
  proof (cases bad)
    case True
    then show ?thesis using none
      by (subst (asm) requests_of.simps, subst requests_of.simps) (auto split: if_splits option.splits prod.splits)
  qed (simp split: prod.split)
next
  case (some bs cmd cs rest bad)
  then have "requests_of (bs @ tl_bs) =
      (case requests_of (drop (4 + msg_len bs) bs @ tl_bs) of (cmds, rest, bad) \<Rightarrow> (cmd # cmds, rest, bad))"
    unfolding requests_of_Cons by (subst requests_of.simps) auto
  then show ?case using some(3) by (auto split: prod.splits if_splits)
qed

section \<open>Serving requests\<close>

text \<open>One call of \<open>try_one_request\<close>, by what is at the front of the stream.\<close>

lemma unat_4_plus: "unat w \<le> k_max_msg \<Longrightarrow> unat (4 + w :: u32) = 4 + unat w"
  by (subst unat_add_lem [THEN iffD1]) (simp_all add: k_max_msg_def)

lemma try_one_none:
  assumes "requests_of (incoming c) = ([], rest, bad)"
  shows "try_one_request strtod g now c = Some (g, c\<lparr>want_close := want_close c \<or> bad\<rparr>, False)"
proof -
  have [simp]: "c\<lparr>want_close := want_close c\<rparr> = c" by simp
  show ?thesis using assms unat_4_plus [of "bytes_u32 (take 4 (incoming c))"]
    by (subst (asm) requests_of.simps)
      (auto simp: try_one_request_def Let_def mem_read_def split: if_splits option.splits prod.splits)
qed

lemma try_one_some:
  assumes q: "requests_of (incoming c) = (cmd # cmds, rest, bad)" and i: "implements g s" and room: "roomy s"
  shows "\<exists>g' s' rep inc. try_one_request strtod g now c =
      Some (g', c\<lparr>incoming := inc, outgoing := outgoing c @ frame (enc rep)\<rparr>, True) \<and>
    command strtod now s cmd s' rep \<and> implements g' s' \<and> requests_of inc = (cmds, rest, bad)"
proof -
  note f = q [unfolded requests_of_Cons]
  obtain A Z T where "srv_rel g A Z T s" using i by (auto simp: implements_def)
  from do_request_rel [OF this room, of strtod now cmd "outgoing c @ u32_bytes 0"] obtain g' s' rep where
    r: "do_request strtod g now cmd (outgoing c @ u32_bytes 0) = Some (g', outgoing c @ u32_bytes 0 @ enc rep)"
      "command strtod now s cmd s' rep" "implements g' s'" by auto
  have "try_one_request strtod g now c = Some (g', c\<lparr>incoming := drop (4 + msg_len (incoming c)) (incoming c),
      outgoing := outgoing c @ frame (enc rep)\<rparr>, True)"
    using f unat_4_plus [of "bytes_u32 (take 4 (incoming c))"] r(1)
    by (simp add: try_one_request_def mem_read_def buf_consume_def response_begin_end)
  then show ?thesis using f r by blast
qed

lemma serve_requests_rel:
  assumes "requests_of (incoming c) = (cmds, rest, bad)" and "implements g s" and "fits n s"
    and "n + length cmds < avl_max"
  shows "\<exists>g' s' reps. serve_requests strtod clk i g c = Some (g', c\<lparr>incoming := rest,
      outgoing := outgoing c @ responses reps, want_close := want_close c \<or> bad\<rparr>) \<and>
    commands strtod s (zip (map clk [i..<i + length cmds]) cmds) s' reps \<and> implements g' s'"
  using assms
proof (induction cmds arbitrary: c g s n i)
  case Nil
  have "rest = incoming c" using Nil(1) requests_of_Nil_cmds by blast
  then have "serve_requests strtod clk i g c = Some (g, c\<lparr>incoming := rest, want_close := want_close c \<or> bad\<rparr>)"
    using try_one_none [OF Nil(1)] by (simp add: serve_requests.simps)
  then show ?case using Nil(2) by (auto intro!: exI [of _ "[]"] commands.none)
next
  case (Cons cmd cmds)
  have "roomy s" using Cons.prems(3,4) by (intro fits_roomy [of n]) simp_all
  from try_one_some [OF Cons.prems(1,2) this, of strtod "clk i"] obtain g1 s1 rep inc where
    t: "try_one_request strtod g (clk i) c = Some (g1, c\<lparr>incoming := inc, outgoing := outgoing c @ frame (enc rep)\<rparr>, True)"
      "command strtod (clk i) s cmd s1 rep" "implements g1 s1" "requests_of inc = (cmds, rest, bad)" by blast
  have "fits (Suc n) s1" by (rule command_fits [OF t(2) Cons.prems(3)])
  from Cons.IH [OF _ t(3) this, of "c\<lparr>incoming := inc, outgoing := outgoing c @ frame (enc rep)\<rparr>" "Suc i"]
  obtain g' s' reps where r: "serve_requests strtod clk (Suc i) g1 (c\<lparr>incoming := inc, outgoing := outgoing c @ frame (enc rep)\<rparr>) =
      Some (g', c\<lparr>incoming := rest, outgoing := outgoing c @ responses (rep # reps),
        want_close := want_close c \<or> bad\<rparr>)"
      "commands strtod s1 (zip (map clk [Suc i..<Suc i + length cmds]) cmds) s' reps" "implements g' s'"
    using t(4) Cons.prems(4) by (auto simp del: upt_Suc)
  have "[i..<i + length (cmd # cmds)] = i # [Suc i..<Suc i + length cmds]" by (simp add: upt_conv_Cons del: upt_Suc)
  then have "commands strtod s (zip (map clk [i..<i + length (cmd # cmds)]) (cmd # cmds)) s' (rep # reps)"
    using commands.more [OF t(2) r(2)] by simp
  moreover have "serve_requests strtod clk i g c = Some (g', c\<lparr>incoming := rest,
      outgoing := outgoing c @ responses (rep # reps), want_close := want_close c \<or> bad\<rparr>)"
    using t(1) r(1) by (subst serve_requests.simps) simp
  ultimately show ?case using r(3) by blast
qed

section \<open>One connection\<close>

text \<open>
  The flags of a connection follow its output: it waits for input exactly when there is nothing left to
  send. This is what makes the assertion of \<open>handle_write\<close> hold. No complete request waits in the input
  buffer, unless the connection is about to be closed.
\<close>

definition flags_ok :: "conn \<Rightarrow> bool" where
  "flags_ok c \<longleftrightarrow> (want_read c \<longleftrightarrow> outgoing c = []) \<and> (want_write c \<longleftrightarrow> outgoing c \<noteq> []) \<and>
     (want_close c \<or> requests_of (incoming c) = ([], incoming c, False))"

text \<open>The bytes that a call of \<open>read\<close> delivers, and those that a call of \<open>write\<close> takes.\<close>

definition read_bytes :: "read_res \<Rightarrow> bytes" where
  "read_bytes r = (case r of Read_bytes bs \<Rightarrow> bs | _ \<Rightarrow> [])"

definition taken :: "write_res \<Rightarrow> bytes \<Rightarrow> bytes" where
  "taken w out = (case w of Write_upto k \<Rightarrow> take k out | _ \<Rightarrow> [])"

abbreviation read_len :: "read_res \<Rightarrow> nat" where
  "read_len r \<equiv> length (read_bytes r)"

lemma handle_write_ok:
  assumes "outgoing c \<noteq> []" and "flags_ok c" and "w \<noteq> Write_sigpipe"
  shows "\<exists>c'. handle_write w c = Some (Running c') \<and> flags_ok c' \<and> taken w (outgoing c) @ outgoing c' = outgoing c \<and>
    incoming c' = incoming c \<and> cfd c' = cfd c \<and> last_active_ms c' = last_active_ms c \<and> (want_close c \<longrightarrow> want_close c')"
proof (cases w)
  case (Write_upto k)
  let ?c = "c\<lparr>outgoing := drop k (outgoing c)\<rparr>"
  have "handle_write w c = Some (Running (if drop k (outgoing c) = [] then ?c\<lparr>want_read := True, want_write := False\<rparr> else ?c))"
    using assms(1) Write_upto by (auto simp: handle_write_def buf_consume_def min_def Let_def)
  then show ?thesis using assms Write_upto by (auto simp: flags_ok_def taken_def)
qed (use assms in \<open>auto simp: handle_write_def flags_ok_def taken_def\<close>)

lemma handle_write_dies: "outgoing c \<noteq> [] \<Longrightarrow> handle_write Write_sigpipe c = Some Died"
  by (simp add: handle_write_def)

text \<open>What \<open>handle_read\<close> writes: the socket takes a part of the replies to the new requests.\<close>

definition read_sent :: "strtod \<Rightarrow> (nat \<Rightarrow> u64) \<Rightarrow> read_res \<Rightarrow> write_res \<Rightarrow> gdata \<Rightarrow> conn \<Rightarrow> bytes" where
  "read_sent strtod clk r w g c = (if read_bytes r = [] then [] else
     case serve_requests strtod clk 0 g (c\<lparr>incoming := buf_append (incoming c) (read_bytes r)\<rparr>) of
       None \<Rightarrow> [] | Some (g', c') \<Rightarrow> taken w (outgoing c'))"

text \<open>Reading ends the process when there are replies to write, and the peer has reset the connection.\<close>

definition read_breaks :: "conn \<Rightarrow> read_res \<Rightarrow> write_res \<Rightarrow> bool" where
  "read_breaks c r w \<longleftrightarrow> w = Write_sigpipe \<and> fst (requests_of (incoming c @ read_bytes r)) \<noteq> []"

lemma responses_Nil: "responses reps = [] \<longleftrightarrow> reps = []"
  by (cases reps) (simp_all add: frame_def framed_def)

lemma handle_read_dies:
  assumes fl: "flags_ok c" "outgoing c = []" "\<not> want_close c" and i: "implements g s" and n: "fits n s"
    and room: "n + length (incoming c) + read_len r < avl_max" and br: "read_breaks c r w"
  shows "handle_read strtod clk r w g c = Some Died"
proof -
  obtain cmds rest bad where q: "requests_of (incoming c @ read_bytes r) = (cmds, rest, bad)"
    by (cases "requests_of (incoming c @ read_bytes r)") auto
  have "read_bytes r \<noteq> []" using br fl by (auto simp: read_breaks_def flags_ok_def)
  then obtain bs where r: "r = Read_bytes bs" "bs \<noteq> []" by (cases r) (auto simp: read_bytes_def)
  have "n + length cmds < avl_max" using requests_of_length [OF q] room by simp
  then obtain g' s' reps where v: "serve_requests strtod clk 0 g (c\<lparr>incoming := incoming c @ bs\<rparr>) =
      Some (g', c\<lparr>incoming := rest, outgoing := responses reps, want_close := bad\<rparr>)"
    "commands strtod s (zip (map clk [0..<length cmds]) cmds) s' reps"
    using serve_requests_rel [of "c\<lparr>incoming := incoming c @ bs\<rparr>" cmds rest bad g s n strtod clk 0] q i n fl(2,3) r
    by (auto simp: read_bytes_def)
  have "reps \<noteq> []" using v(2) br q by (cases cmds) (auto simp: read_breaks_def commands_simps upt_conv_Cons simp del: upt_Suc)
  then have "responses reps \<noteq> []" by (simp add: responses_Nil)
  then show ?thesis using v(1) r br by (simp add: handle_read_def buf_append_def read_breaks_def handle_write_dies)
qed

lemma handle_read_ok:
  assumes fl: "flags_ok c" "outgoing c = []" "\<not> want_close c" and i: "implements g s" and n: "fits n s"
    and room: "n + length (incoming c) + read_len r < avl_max" and br: "\<not> read_breaks c r w"
  shows "\<exists>g' c' s' cmds bad reps. handle_read strtod clk r w g c = Some (Running (g', c')) \<and> flags_ok c' \<and> cfd c' = cfd c \<and>
    last_active_ms c' = last_active_ms c \<and> requests_of (incoming c @ read_bytes r) = (cmds, incoming c', bad) \<and>
    (bad \<longrightarrow> want_close c') \<and> commands strtod s (zip (map clk [0..<length cmds]) cmds) s' reps \<and> implements g' s' \<and>
    read_sent strtod clk r w g c @ outgoing c' = responses reps"
proof (cases "\<exists>b bs. r = Read_bytes (b # bs)")
  case False
  then have rb: "read_bytes r = []" by (cases r) (simp_all add: read_bytes_def, metis list.exhaust)
  have "handle_read strtod clk r w g c \<in> {Some (Running (g, c)), Some (Running (g, c\<lparr>want_close := True\<rparr>))}"
    using False by (cases r) (auto simp: handle_read_def neq_Nil_conv)
  then show ?thesis using fl i
    by (auto simp: flags_ok_def rb read_sent_def intro!: exI [of _ s] exI [of _ "[]"] commands.none)
next
  case True
  then obtain b bs where r: "r = Read_bytes (b # bs)" by blast
  let ?in = "incoming c @ b # bs"
  obtain cmds rest bad where q: "requests_of ?in = (cmds, rest, bad)" by (cases "requests_of ?in") auto
  have len: "length cmds + length rest \<le> length (incoming c) + read_len r"
    using requests_of_length [OF q] r by (simp add: read_bytes_def)
  obtain g' s' reps where v: "serve_requests strtod clk 0 g (c\<lparr>incoming := ?in\<rparr>) =
      Some (g', c\<lparr>incoming := rest, outgoing := responses reps, want_close := bad\<rparr>)"
    "commands strtod s (zip (map clk [0..<length cmds]) cmds) s' reps" "implements g' s'"
    using serve_requests_rel [of "c\<lparr>incoming := ?in\<rparr>" cmds rest bad g s n strtod clk 0] q i n room len fl(2,3)
    by auto
  let ?c = "c\<lparr>incoming := rest, outgoing := responses reps, want_close := bad\<rparr>"
  have sent: "read_sent strtod clk r w g c = taken w (responses reps)"
    using v(1) by (simp add: read_sent_def r read_bytes_def buf_append_def)
  have quiet: "bad \<or> requests_of rest = ([], rest, False)" using requests_of_rest [OF q] by (cases bad) auto
  have q': "requests_of (incoming c @ read_bytes r) = (cmds, rest, bad)" using q by (simp add: r read_bytes_def)
  show ?thesis
  proof (cases "outgoing ?c = []")
    case True
    then have "handle_read strtod clk r w g c = Some (Running (g', ?c))"
      using v(1) by (simp add: handle_read_def r buf_append_def)
    moreover have "flags_ok ?c" using fl True quiet by (auto simp: flags_ok_def)
    moreover have "taken w (responses reps) = []" using True by (cases w) (simp_all add: taken_def)
    ultimately show ?thesis using v(2,3) q' sent True
      by (intro exI [of _ g'] exI [of _ ?c] exI [of _ s'] exI [of _ cmds] exI [of _ bad] exI [of _ reps]) simp
  next
    case False
    let ?d = "?c\<lparr>want_read := False, want_write := True\<rparr>"
    have "flags_ok ?d" "outgoing ?d \<noteq> []" using False quiet by (auto simp: flags_ok_def)
    moreover have "cmds \<noteq> []" using v(2) False by (cases cmds) (auto simp: commands_simps responses_Nil)
    then have "w \<noteq> Write_sigpipe" using br q' by (simp add: read_breaks_def)
    ultimately obtain c' where
      c': "handle_write w ?d = Some (Running c')" "flags_ok c'" "incoming c' = rest" "cfd c' = cfd c"
        "last_active_ms c' = last_active_ms c" "taken w (responses reps) @ outgoing c' = responses reps" "bad \<longrightarrow> want_close c'"
      using handle_write_ok [of ?d w] by auto
    have "handle_read strtod clk r w g c = Some (Running (g', c'))"
      using v(1) c'(1) False by (simp add: handle_read_def r buf_append_def)
    then show ?thesis using v(2,3) q' sent c'
      by (intro exI [of _ g'] exI [of _ c'] exI [of _ s'] exI [of _ cmds] exI [of _ bad] exI [of _ reps]) simp
  qed
qed

section \<open>All connections\<close>

text \<open>
  The idle list holds exactly the open connections, \<open>fd2conn\<close> maps the descriptor of each to it and has
  no other entries, and no connection waits to be closed between two iterations.
\<close>

definition fd_at :: "ptr list \<Rightarrow> nat \<Rightarrow> ptr" where
  "fd_at v i = (if i < length v then v ! i else None)"

definition fds_ok :: "ptr list \<Rightarrow> (addr \<rightharpoonup> conn) \<Rightarrow> bool" where
  "fds_ok v cs \<longleftrightarrow> (\<forall>i a. fd_at v i = Some a \<longleftrightarrow> map_option cfd (cs a) = Some i)"

definition conns_ok :: "server \<Rightarrow> addr list \<Rightarrow> bool" where
  "conns_ok s xs \<longleftrightarrow> ring (idle s) idle_list xs \<and> dom (conns s) = set xs \<and> (\<forall>a \<in> set xs. a < cbrk s) \<and>
     idle_list < cbrk s \<and> fds_ok (fd2conn s) (conns s) \<and>
     (\<forall>a c. conns s a = Some c \<longrightarrow> flags_ok c \<and> \<not> want_close c)"

lemma fd_at_upd: "i < length v \<Longrightarrow> fd_at (v[i := p]) j = (if j = i then p else fd_at v j)"
  by (simp add: fd_at_def)

lemma fd_at_grow [simp]: "fd_at (v @ replicate k None) = fd_at v"
  by (auto simp: fd_at_def nth_append fun_eq_iff)

lemma fd_at_Some: "fd_at v i = Some a \<Longrightarrow> i < length v \<and> v ! i = Some a"
  by (simp add: fd_at_def split: if_splits)

lemma fds_okD: "fds_ok v cs \<Longrightarrow> cs a = Some c \<Longrightarrow> fd_at v (cfd c) = Some a"
  by (simp add: fds_ok_def)

lemma fds_okE: "fds_ok v cs \<Longrightarrow> fd_at v i = Some a \<Longrightarrow> \<exists>c. cs a = Some c \<and> cfd c = i"
  by (simp add: fds_ok_def)

lemma fds_ok_upd:
  assumes "fds_ok v cs" and "cs a = Some c" and "cfd c' = cfd c"
  shows "fds_ok v (cs(a \<mapsto> c'))"
proof -
  have "map_option cfd ((cs(a \<mapsto> c')) b) = map_option cfd (cs b)" for b using assms(2,3) by simp
  then show ?thesis using assms(1) by (simp add: fds_ok_def)
qed

lemma fds_ok_del:
  assumes f: "fds_ok v cs" and a: "cs a = Some c"
  shows "fds_ok (v[cfd c := None]) (cs(a := None))"
proof -
  note va = fds_okD [OF f a]
  have "fd_at (v[cfd c := None]) i = Some b \<longleftrightarrow> map_option cfd ((cs(a := None)) b) = Some i" for i b
  proof -
    have "map_option cfd (cs b) = Some i \<longleftrightarrow> fd_at v i = Some b" using f by (simp add: fds_ok_def)
    then show ?thesis using va a fd_at_Some [OF va] by (auto simp: fd_at_upd simp del: map_option_eq_Some)
  qed
  then show ?thesis by (simp add: fds_ok_def)
qed

lemma fds_ok_add:
  assumes f: "fds_ok v cs" and v: "cfd c < length v" "v ! cfd c = None" and a: "cs a = None"
  shows "fds_ok (v[cfd c := Some a]) (cs(a \<mapsto> c))"
proof -
  have "fd_at (v[cfd c := Some a]) i = Some b \<longleftrightarrow> map_option cfd ((cs(a \<mapsto> c)) b) = Some i" for i b
  proof (cases "b = a")
    case True
    have "fd_at v i \<noteq> Some a" using f a by (simp add: fds_ok_def)
    then show ?thesis using True v by (auto simp: fd_at_upd)
  next
    case False
    have "fd_at v (cfd c) = None" using v by (simp add: fd_at_def)
    then show ?thesis using False f v(1) by (auto simp: fd_at_upd fds_ok_def dest: fds_okD [OF f])
  qed
  then show ?thesis by (simp add: fds_ok_def)
qed

text \<open>Bytes that were received and not yet parsed.\<close>

definition pending :: "(addr \<rightharpoonup> conn) \<Rightarrow> nat" where
  "pending cs = (\<Sum>a \<in> dom cs. length (incoming (the (cs a))))"

lemma pending_upd:
  assumes "finite (dom cs)" and "cs a = Some c"
  shows "pending (cs(a \<mapsto> c')) + length (incoming c) = pending cs + length (incoming c')"
proof -
  have d: "dom cs = insert a (dom cs - {a})" using assms(2) by auto
  have "(\<Sum>b \<in> dom cs - {a}. length (incoming (the ((cs(a \<mapsto> c')) b)))) =
      (\<Sum>b \<in> dom cs - {a}. length (incoming (the (cs b))))" by (rule sum.cong) auto
  then show ?thesis using assms d unfolding pending_def
    by (simp add: sum.insert_remove [of "dom cs" _ a] del: sum.insert) (simp add: sum.remove [of _ a] domIff)
qed

lemma pending_del:
  assumes "finite (dom cs)"
  shows "pending (cs(a := None)) \<le> pending cs"
proof -
  have "pending (cs(a := None)) = (\<Sum>b \<in> dom cs - {a}. length (incoming (the (cs b))))"
    unfolding pending_def by (rule sum.cong) auto
  also have "\<dots> \<le> pending cs" unfolding pending_def using assms by (intro sum_mono2) auto
  finally show ?thesis .
qed

lemma pending_new:
  assumes "finite (dom cs)" and "cs a = None" and "incoming c = []"
  shows "pending (cs(a \<mapsto> c)) = pending cs"
proof -
  have "a \<notin> dom cs" using assms(2) by auto
  moreover have "(\<Sum>b \<in> dom cs. length (incoming (the ((cs(a \<mapsto> c)) b)))) = (\<Sum>b \<in> dom cs. length (incoming (the (cs b))))"
    using assms(2) by (intro sum.cong) auto
  ultimately show ?thesis using assms(1,3) unfolding pending_def by simp
qed

lemma conns_ok_gd [simp]: "conns_ok (s\<lparr>gd := g\<rparr>) xs = conns_ok s xs"
  by (simp add: conns_ok_def)

lemma conns_ok_finite: "conns_ok s xs \<Longrightarrow> finite (dom (conns s))"
  by (simp add: conns_ok_def)

text \<open>Closing a connection, whose flags may be anything.\<close>

lemma conn_destroy_ok:
  assumes r: "ring (idle s) idle_list xs" and d: "dom (conns s) = set xs" and b: "\<forall>a \<in> set xs. a < cbrk s"
    and z: "idle_list < cbrk s" and f: "fds_ok (fd2conn s) (conns s)"
    and fl: "\<forall>b c. b \<noteq> a \<and> conns s b = Some c \<longrightarrow> flags_ok c \<and> \<not> want_close c"
    and a: "conns s a = Some c"
  shows "\<exists>s'. conn_destroy s a = Some s' \<and> conns_ok s' (remove1 a xs) \<and> conns s' = (conns s)(a := None) \<and>
    fd2conn s' = (fd2conn s)[cfd c := None] \<and> gd s' = gd s \<and> cbrk s' = cbrk s"
proof -
  have ax: "a \<in> set xs" using a d by auto
  obtain l where l: "dlist_detach (idle s) a = Some l" "ring l idle_list (remove1 a xs)"
    using ring_detach [OF r ax] by blast
  have dx: "distinct (idle_list # xs)" using r by (simp add: ring_def)
  have "ring (l(a := None)) idle_list (remove1 a xs)"
    using dx ax by (intro ring_frame [OF l(2), of "{a}"]) (auto simp: same_outside_def)
  moreover have "dom ((conns s)(a := None)) = set (remove1 a xs)" using d dx by auto
  ultimately show ?thesis
    using a l(1) fd_at_Some [OF fds_okD [OF f a]] fds_ok_del [OF f a] b z fl dx
    by (auto simp: conn_destroy_def conns_ok_def)
qed

text \<open>A new connection; the kernel gives it a descriptor that is not open.\<close>

definition fresh_fd :: "server \<Rightarrow> accept_res \<Rightarrow> bool" where
  "fresh_fd s r \<longleftrightarrow> (case r of Accept_error \<Rightarrow> True | Accept_fd fd getfl setfl_ok \<Rightarrow> \<forall>c \<in> ran (conns s). cfd c \<noteq> fd)"

text \<open>The two ways in which \<open>handle_accept\<close> can end the process.\<close>

definition accept_dies :: "accept_res \<Rightarrow> bool" where
  "accept_dies r = (case r of Accept_error \<Rightarrow> False | Accept_fd fd getfl setfl_ok \<Rightarrow> getfl = None \<or> \<not> setfl_ok)"

lemma accept_conn_dies: "accept_dies r \<Longrightarrow> accept_conn s r now = Some Died"
  by (auto simp: accept_dies_def accept_conn_def handle_accept_def fd_set_nb_def split: accept_res.splits option.splits)

lemma accept_conn_ok:
  assumes ok: "conns_ok s xs" and fr: "fresh_fd s r" and live: "\<not> accept_dies r"
  shows "\<exists>s' ys. accept_conn s r now = Some (Running s') \<and> conns_ok s' ys \<and> gd s' = gd s \<and> pending (conns s') = pending (conns s) \<and>
    (\<forall>a c. conns s a = Some c \<longrightarrow> conns s' a = Some c) \<and> cbrk s \<le> cbrk s' \<and>
    (\<forall>a c. conns s' a = Some c \<longrightarrow> conns s a = Some c \<or> cbrk s \<le> a \<and> incoming c = [] \<and> outgoing c = [])"
proof (cases r)
  case Accept_error
  then show ?thesis using ok by (auto simp: accept_conn_def handle_accept_def)
next
  case (Accept_fd fd getfl setfl_ok)
  then obtain flags where nb: "fd_set_nb getfl setfl_ok = Running flags"
    using live by (auto simp: accept_dies_def fd_set_nb_def Let_def)
  let ?a = "cbrk s"
  let ?c = "\<lparr>cfd = fd, want_read = True, want_write = False, want_close = False, incoming = [], outgoing = [],
      last_active_ms = now\<rparr>"
  have r: "ring (idle s) idle_list xs" and b: "\<forall>a \<in> set xs. a < ?a" "idle_list < ?a"
    and f: "fds_ok (fd2conn s) (conns s)" and d: "dom (conns s) = set xs" using ok by (auto simp: conns_ok_def)
  have new: "?a \<notin> insert idle_list (set xs)" using b by auto
  then have none: "conns s ?a = None" using d by blast
  let ?i = "(idle s)(?a \<mapsto> \<lparr>dprev = None, dnext = None\<rparr>)"
  have "ring ?i idle_list xs" using new by (intro ring_frame [OF r, of "{?a}"]) (auto simp: same_outside_def)
  from dlist_insert_ring [OF this _ new] obtain l where
    l: "dlist_insert_before ?i idle_list ?a = Some l" "ring l idle_list (xs @ [?a])" by auto
  define v where "v = (if length (fd2conn s) \<le> fd
      then fd2conn s @ replicate (fd + 1 - length (fd2conn s)) None else fd2conn s)"
  have fd: "fd_at v = fd_at (fd2conn s)" "fd < length v" by (simp_all add: v_def)
  have "fd_at (fd2conn s) fd = None"
    using fr fds_okE [OF f, of fd] Accept_fd by (cases "fd_at (fd2conn s) fd") (auto simp: fresh_fd_def ran_def)
  then have "fd_at v fd = None" by (simp only: fd(1))
  then have v: "v ! fd = None" using fd(2) by (simp add: fd_at_def)
  have "fds_ok v (conns s)" using f fd(1) by (simp add: fds_ok_def)
  then have f': "fds_ok (v[fd := Some ?a]) ((conns s)(?a \<mapsto> ?c))"
    using fds_ok_add [of v "conns s" ?c ?a] fd(2) v none by simp
  define s' where "s' = s\<lparr>conns := (conns s)(?a \<mapsto> ?c), idle := l, cbrk := ?a + 1, fd2conn := v[fd := Some ?a]\<rparr>"
  have "accept_conn s r now = Some (Running s')"
    using l(1) fd(2) v Accept_fd nb unfolding s'_def v_def
    by (cases "length (fd2conn s) \<le> fd") (simp_all add: accept_conn_def handle_accept_def Let_def)
  moreover have "conns_ok s' (xs @ [?a])"
    using l(2) f' b d ok by (auto simp: conns_ok_def s'_def flags_ok_def less_SucI)
  moreover have "pending (conns s') = pending (conns s)"
    using pending_new [OF conns_ok_finite [OF ok] none, of ?c] by (simp add: s'_def)
  moreover have "conns s' a = Some c" if "conns s a = Some c" for a c using that none by (auto simp: s'_def)
  ultimately show ?thesis by (intro exI [of _ s'] exI [of _ "xs @ [?a]"]) (auto simp: s'_def)
qed

text \<open>The events of one connection; \<open>poll\<close> reports only what was asked for, or an error condition.\<close>

definition poll_reports :: "u32 \<Rightarrow> u32 \<Rightarrow> bool" where
  "poll_reports events revents \<longleftrightarrow> revents AND NOT (events OR POLLERR OR POLLHUP OR POLLNVAL) = 0"

lemma poll_reports_bits:
  assumes "poll_reports (poll_events c) ready"
  shows "ready AND POLLIN \<noteq> 0 \<Longrightarrow> want_read c" and "ready AND POLLOUT \<noteq> 0 \<Longrightarrow> want_write c"
proof -
  have in_bit: "w AND POLLIN \<noteq> 0 \<longleftrightarrow> bit w 0" for w :: u32
    using and_exp_eq_0_iff_not_bit [of w 0] by (simp add: POLLIN_def)
  have out_bit: "w AND POLLOUT \<noteq> 0 \<longleftrightarrow> bit w 2" for w :: u32
    using and_exp_eq_0_iff_not_bit [of w 2] by (simp add: POLLOUT_def)
  have b: "\<not> bit (ready AND NOT (poll_events c OR POLLERR OR POLLHUP OR POLLNVAL)) n" for n
    using assms by (simp add: poll_reports_def)
  have masks: "\<not> bit (POLLERR OR POLLHUP OR POLLNVAL) 0" "\<not> bit (POLLERR OR POLLHUP OR POLLNVAL) 2"
    "\<not> bit POLLIN 2" "\<not> bit POLLOUT 0" "\<not> bit POLLERR 0" "\<not> bit POLLERR 2"
    by (simp_all add: POLLERR_def POLLHUP_def POLLNVAL_def POLLIN_def POLLOUT_def bit_simps)
  show "want_read c" if "ready AND POLLIN \<noteq> 0"
    using that b [of 0] masks unfolding in_bit
    by (auto simp: poll_events_def Let_def bit_or_iff bit_and_iff bit_not_iff split: if_splits)
  show "want_write c" if "ready AND POLLOUT \<noteq> 0"
    using that b [of 2] masks unfolding out_bit
    by (auto simp: poll_events_def Let_def bit_or_iff bit_and_iff bit_not_iff split: if_splits)
qed

text \<open>What passes over the connection in one iteration.\<close>

definition conn_read :: "conn_io \<Rightarrow> bytes" where
  "conn_read io = (if io_ready io AND POLLIN \<noteq> 0 then read_bytes (io_read io) else [])"

definition after_read :: "strtod \<Rightarrow> gdata \<Rightarrow> conn \<Rightarrow> conn_io \<Rightarrow> (gdata \<times> conn) outcome option" where
  "after_read strtod g c io =
     (if io_ready io AND POLLIN \<noteq> 0
      then handle_read strtod (io_req_clock io) (io_read io) (io_read_write io) g (c\<lparr>last_active_ms := io_clock io\<rparr>)
      else Some (Running (g, c\<lparr>last_active_ms := io_clock io\<rparr>)))"

definition conn_sent :: "strtod \<Rightarrow> gdata \<Rightarrow> conn \<Rightarrow> conn_io \<Rightarrow> bytes" where
  "conn_sent strtod g c io =
     (if io_ready io AND POLLIN \<noteq> 0
      then read_sent strtod (io_req_clock io) (io_read io) (io_read_write io) g (c\<lparr>last_active_ms := io_clock io\<rparr>) else []) @
     (if io_ready io AND POLLOUT \<noteq> 0
      then case after_read strtod g c io of Some (Running (g', c')) \<Rightarrow> taken (io_write io) (outgoing c') | _ \<Rightarrow> [] else [])"

text \<open>What happens on the connection makes the server write to a peer that has reset it.\<close>

definition conn_breaks :: "conn \<Rightarrow> conn_io \<Rightarrow> bool" where
  "conn_breaks c io \<longleftrightarrow> io_ready io AND POLLIN \<noteq> 0 \<and> read_breaks c (io_read io) (io_read_write io) \<or>
     io_ready io AND POLLOUT \<noteq> 0 \<and> io_write io = Write_sigpipe"

text \<open>A connection that is ready to be read has no output, and is not ready to be written.\<close>

lemma ready_out:
  assumes "flags_ok c" and "poll_reports (poll_events c) (io_ready io)"
  shows "io_ready io AND POLLIN \<noteq> 0 \<Longrightarrow> outgoing c = [] \<and> io_ready io AND POLLOUT = 0"
    and "io_ready io AND POLLOUT \<noteq> 0 \<Longrightarrow> outgoing c \<noteq> [] \<and> io_ready io AND POLLIN = 0"
  using poll_reports_bits [OF assms(2)] assms(1) by (auto simp: flags_ok_def)

lemma conn_events_ok:
  assumes fl: "flags_ok c" "\<not> want_close c" and i: "implements g ad" and n: "fits n ad"
    and p: "poll_reports (poll_events c) (io_ready io)"
    and room: "n + length (incoming c) + read_len (io_read io) < avl_max" and br: "\<not> conn_breaks c io"
  shows "\<exists>g' c1 c' ad' ts cmds bad reps. after_read strtod g c io = Some (Running (g', c1)) \<and>
    (if io_ready io AND POLLOUT \<noteq> 0 then handle_write (io_write io) c1 else Some (Running c1)) = Some (Running c') \<and>
    flags_ok c' \<and> cfd c' = cfd c \<and> requests_of (incoming c @ conn_read io) = (cmds, incoming c', bad) \<and>
    (bad \<longrightarrow> want_close c') \<and> length ts = length cmds \<and> commands strtod ad (zip ts cmds) ad' reps \<and> implements g' ad' \<and>
    conn_sent strtod g c io @ outgoing c' = outgoing c @ responses reps"
proof -
  let ?c = "c\<lparr>last_active_ms := io_clock io\<rparr>" and ?rd = "io_ready io AND POLLIN" and ?wr = "io_ready io AND POLLOUT"
  have fl': "flags_ok ?c" using fl by (simp add: flags_ok_def)
  have quiet: "requests_of (incoming c) = ([], incoming c, False)" using fl by (simp add: flags_ok_def)
  consider (rd) "?rd \<noteq> 0" | (wr) "?rd = 0" "?wr \<noteq> 0" | (none) "?rd = 0" "?wr = 0" by blast
  then show ?thesis
  proof cases
    case rd
    then have out: "outgoing ?c = []" using poll_reports_bits(1) [OF p] fl by (simp add: flags_ok_def)
    then have wr: "?wr = 0" using poll_reports_bits(2) [OF p] fl by (auto simp: flags_ok_def)
    have room': "n + length (incoming ?c) + read_len (io_read io) < avl_max" using room by simp
    have "\<not> want_close ?c" "\<not> read_breaks ?c (io_read io) (io_read_write io)"
      using fl br rd by (simp_all add: conn_breaks_def read_breaks_def)
    from handle_read_ok [OF fl' out this(1) i n room' this(2), of strtod "io_req_clock io"] obtain g' c' ad' cmds bad reps where
      h: "handle_read strtod (io_req_clock io) (io_read io) (io_read_write io) g ?c = Some (Running (g', c'))" "flags_ok c'" "cfd c' = cfd ?c"
        "requests_of (incoming ?c @ read_bytes (io_read io)) = (cmds, incoming c', bad)" "bad \<longrightarrow> want_close c'"
        "commands strtod ad (zip (map (io_req_clock io) [0..<length cmds]) cmds) ad' reps" "implements g' ad'"
        "read_sent strtod (io_req_clock io) (io_read io) (io_read_write io) g ?c @ outgoing c' = responses reps" by blast
    then show ?thesis using rd wr out
      by (intro exI [of _ g'] exI [of _ c'] exI [of _ c'] exI [of _ ad'] exI [of _ "map (io_req_clock io) [0..<length cmds]"]
          exI [of _ cmds] exI [of _ bad] exI [of _ reps]) (simp add: after_read_def conn_read_def conn_sent_def)
  next
    case wr
    then have out: "outgoing ?c \<noteq> []" using poll_reports_bits(2) [OF p] fl by (simp add: flags_ok_def)
    obtain c' where "handle_write (io_write io) ?c = Some (Running c')" "flags_ok c'" "incoming c' = incoming c" "cfd c' = cfd c"
      "taken (io_write io) (outgoing c) @ outgoing c' = outgoing c" using handle_write_ok [OF out fl', of "io_write io"] br wr by (auto simp: conn_breaks_def)
    then show ?thesis using wr i quiet
      by (intro exI [of _ g] exI [of _ ?c] exI [of _ c'] exI [of _ ad] exI [of _ "[]"] exI [of _ "[]"] exI [of _ False] exI [of _ "[]"])
        (simp add: commands.none after_read_def conn_read_def conn_sent_def)
  next
    case none
    then show ?thesis using i fl' quiet
      by (intro exI [of _ g] exI [of _ ?c] exI [of _ ?c] exI [of _ ad] exI [of _ "[]"] exI [of _ "[]"] exI [of _ False] exI [of _ "[]"])
        (simp add: commands.none after_read_def conn_read_def conn_sent_def)
  qed
qed

definition server_ok :: "server \<Rightarrow> addr list \<Rightarrow> adb \<Rightarrow> nat \<Rightarrow> bool" where
  "server_ok s xs ad n \<longleftrightarrow> conns_ok s xs \<and> implements (gd s) ad \<and> fits n ad"

lemma conn_room:
  assumes "conns_ok s xs" and "conns s a = Some c"
  shows "length (incoming c) \<le> pending (conns s)"
  unfolding pending_def using member_le_sum [of a "dom (conns s)" "\<lambda>a. length (incoming (the (conns s a)))"]
    conns_ok_finite [OF assms(1)] assms(2) by (auto simp: domIff)

lemma handle_conn_ok:
  assumes ok: "server_ok s xs ad n" and a: "conns s a = Some c"
    and p: "poll_reports (poll_events c) (io_ready io)"
    and room: "n + pending (conns s) + read_len (io_read io) < avl_max" and br: "\<not> conn_breaks c io"
  shows "\<exists>s' ys ad' m ts cmds bad reps rest out. handle_conn strtod s (cfd c) io = Some (Running s') \<and> server_ok s' ys ad' m \<and>
    m + pending (conns s') \<le> n + pending (conns s) + read_len (io_read io) \<and>
    requests_of (incoming c @ conn_read io) = (cmds, rest, bad) \<and> length ts = length cmds \<and>
    commands strtod ad (zip ts cmds) ad' reps \<and> outgoing c @ responses reps = conn_sent strtod (gd s) c io @ out \<and>
    (\<forall>c'. conns s' a = Some c' \<longrightarrow> incoming c' = rest \<and> outgoing c' = out \<and> \<not> bad) \<and>
    (\<forall>b. b \<noteq> a \<longrightarrow> conns s' b = conns s b) \<and> cbrk s' = cbrk s"
proof -
  have co: "conns_ok s xs" and i: "implements (gd s) ad" and n: "fits n ad" using ok by (auto simp: server_ok_def)
  then have r: "ring (idle s) idle_list xs" and d: "dom (conns s) = set xs" and b: "\<forall>a \<in> set xs. a < cbrk s"
    and z: "idle_list < cbrk s" and f: "fds_ok (fd2conn s) (conns s)"
    and fl: "\<forall>a c. conns s a = Some c \<longrightarrow> flags_ok c \<and> \<not> want_close c" by (auto simp: conns_ok_def)
  have ax: "a \<in> set xs" using a d by auto
  obtain l1 l where l: "dlist_detach (idle s) a = Some l1" "dlist_insert_before l1 idle_list a = Some l"
    "ring l idle_list (remove1 a xs @ [a])" using idle.move_to_end [OF r ax] by blast
  have "n + length (incoming c) + read_len (io_read io) < avl_max" using room conn_room [OF co a] by simp
  from conn_events_ok [OF _ _ i n p this br, of strtod] obtain g c1 c' ad' ts cmds bad reps where
    e: "after_read strtod (gd s) c io = Some (Running (g, c1))"
    "(if io_ready io AND POLLOUT \<noteq> 0 then handle_write (io_write io) c1 else Some (Running c1)) = Some (Running c')"
    "flags_ok c'" "cfd c' = cfd c" "requests_of (incoming c @ conn_read io) = (cmds, incoming c', bad)" "bad \<longrightarrow> want_close c'"
    "length ts = length cmds" "commands strtod ad (zip ts cmds) ad' reps" "implements g ad'"
    "conn_sent strtod (gd s) c io @ outgoing c' = outgoing c @ responses reps"
    using fl a by blast
  define s1 where "s1 = s\<lparr>gd := g, conns := (conns s)(a \<mapsto> c'), idle := l\<rparr>"
  have run: "handle_conn strtod s (cfd c) io =
      (if io_ready io AND POLLERR \<noteq> 0 \<or> want_close c' then map_option Running (conn_destroy s1 a) else Some (Running s1))"
    using fd_at_Some [OF fds_okD [OF f a]] a l(1,2) e(1,2) by (simp add: handle_conn_def after_read_def s1_def Let_def map_option_case bind_eq_Some_conv split: option.split)
  have fit: "fits (n + length cmds) ad'" using commands_fits [OF e(8) n] e(7) by simp
  have s1: "ring (idle s1) idle_list (remove1 a xs @ [a])" "dom (conns s1) = set (remove1 a xs @ [a])"
    "\<forall>a \<in> set (remove1 a xs @ [a]). a < cbrk s1" "idle_list < cbrk s1" "fds_ok (fd2conn s1) (conns s1)"
    "\<forall>b c. b \<noteq> a \<and> conns s1 b = Some c \<longrightarrow> flags_ok c \<and> \<not> want_close c" "conns s1 a = Some c'"
    using l(3) d b z fds_ok_upd [OF f a e(4)] fl ax r by (auto simp: s1_def ring_def)
  have "length cmds + length (incoming c') \<le> length (incoming c) + read_len (io_read io)"
    using requests_of_length [OF e(5)] by (simp add: conn_read_def split: if_splits)
  then have pend: "n + length cmds + pending (conns s1) \<le> n + pending (conns s) + read_len (io_read io)"
    using pending_upd [OF conns_ok_finite [OF co] a, of c'] by (simp add: s1_def)
  have "\<exists>s' ys. handle_conn strtod s (cfd c) io = Some (Running s') \<and> conns_ok s' ys \<and> gd s' = g \<and> pending (conns s') \<le> pending (conns s1) \<and>
      (\<forall>d. conns s' a = Some d \<longrightarrow> d = c' \<and> \<not> bad) \<and> (\<forall>b. b \<noteq> a \<longrightarrow> conns s' b = conns s b) \<and> cbrk s' = cbrk s"
  proof (cases "io_ready io AND POLLERR \<noteq> 0 \<or> want_close c'")
    case True
    obtain s' where "conn_destroy s1 a = Some s'" "conns_ok s' (remove1 a (remove1 a xs @ [a]))"
      "conns s' = (conns s1)(a := None)" "gd s' = gd s1" "cbrk s' = cbrk s1" using conn_destroy_ok [OF s1] by blast
    then show ?thesis using True run pending_del [of "conns s1" a] conns_ok_finite [OF co]
      by (intro exI [of _ s'] exI [of _ "remove1 a (remove1 a xs @ [a])"]) (simp add: s1_def)
  next
    case False
    have "conns_ok s1 (remove1 a xs @ [a])"
      unfolding conns_ok_def using s1 False e(3) by (metis option.inject)
    then show ?thesis using run False e(6) by (intro exI [of _ s1] exI [of _ "remove1 a xs @ [a]"]) (auto simp: s1_def)
  qed
  then obtain s' ys where s': "handle_conn strtod s (cfd c) io = Some (Running s')" "conns_ok s' ys" "gd s' = g"
    "pending (conns s') \<le> pending (conns s1)" "\<forall>d. conns s' a = Some d \<longrightarrow> d = c' \<and> \<not> bad" "\<forall>b. b \<noteq> a \<longrightarrow> conns s' b = conns s b"
    "cbrk s' = cbrk s" by blast
  then have "server_ok s' ys ad' (n + length cmds)" using e(9) fit by (simp add: server_ok_def)
  then show ?thesis using s' e(5,7,8,10) pend
    by (intro exI [of _ s'] exI [of _ ys] exI [of _ ad'] exI [of _ "n + length cmds"] exI [of _ ts] exI [of _ cmds] exI [of _ bad]
        exI [of _ reps] exI [of _ "incoming c'"] exI [of _ "outgoing c'"]) auto
qed

lemma handle_conn_dies:
  assumes ok: "server_ok s xs ad n" and a: "conns s a = Some c"
    and p: "poll_reports (poll_events c) (io_ready io)"
    and room: "n + pending (conns s) + read_len (io_read io) < avl_max" and br: "conn_breaks c io"
  shows "handle_conn strtod s (cfd c) io = Some Died"
proof -
  have co: "conns_ok s xs" and i: "implements (gd s) ad" and n: "fits n ad" using ok by (auto simp: server_ok_def)
  have r: "ring (idle s) idle_list xs" and ax: "a \<in> set xs" and f: "fds_ok (fd2conn s) (conns s)"
    and fl: "flags_ok c" "\<not> want_close c" using co a by (auto simp: conns_ok_def)
  obtain l1 l where l: "dlist_detach (idle s) a = Some l1" "dlist_insert_before l1 idle_list a = Some l"
    using idle.move_to_end [OF r ax] by blast
  let ?c = "c\<lparr>last_active_ms := io_clock io\<rparr>"
  show ?thesis
  proof (cases "io_ready io AND POLLIN \<noteq> 0")
    case True
    have "read_breaks ?c (io_read io) (io_read_write io)"
      using br ready_out(1) [OF fl(1) p True] by (simp add: conn_breaks_def read_breaks_def)
    moreover have "n + length (incoming ?c) + read_len (io_read io) < avl_max" using room conn_room [OF co a] by simp
    moreover have "flags_ok ?c" "outgoing ?c = []" "\<not> want_close ?c" using fl ready_out(1) [OF fl(1) p True] by (simp_all add: flags_ok_def)
    ultimately have "handle_read strtod (io_req_clock io) (io_read io) (io_read_write io) (gd s) ?c = Some Died"
      using handle_read_dies [OF _ _ _ i n] by blast
    then show ?thesis using fd_at_Some [OF fds_okD [OF f a]] a l True by (simp add: handle_conn_def Let_def)
  next
    case False
    then have "io_ready io AND POLLOUT \<noteq> 0" "io_write io = Write_sigpipe" using br by (auto simp: conn_breaks_def)
    moreover have "handle_write Write_sigpipe ?c = Some Died"
      using ready_out(2) [OF fl(1) p calculation(1)] by (intro handle_write_dies) simp
    ultimately show ?thesis using fd_at_Some [OF fds_okD [OF f a]] a l False by (simp add: handle_conn_def Let_def)
  qed
qed

end
