(* ===== verification/Timers_Correct.thy ===== *)
theory Timers_Correct
  imports Event_Loop_Correct
begin

text \<open>
  The timers of the event loop: \<open>process_timers\<close> removes the keys whose time has passed, the earliest
  first and a bounded number at once, and the connections at the front of the idle list that are too old;
  \<open>next_timer_ms\<close> is the time until the first of them.
\<close>

section \<open>Expiry of keys\<close>

definition due :: "u64 \<Rightarrow> adb \<Rightarrow> bytes set" where
  "due now s = {k. \<exists>v e. s k = Some (v, Some e) \<and> e < now}"

definition expiry :: "adb \<Rightarrow> bytes \<Rightarrow> u64" where
  "expiry s k = the (snd (the (s k)))"

text \<open>The keys \<open>K\<close> are due and expire before the due keys that are left.\<close>

definition first_due :: "u64 \<Rightarrow> nat \<Rightarrow> adb \<Rightarrow> bytes set \<Rightarrow> bool" where
  "first_due now r s K \<longleftrightarrow> K \<subseteq> due now s \<and> card K = min r (card (due now s)) \<and>
     (\<forall>k \<in> K. \<forall>k' \<in> due now s - K. expiry s k \<le> expiry s k')"

lemma srv_rel_finite: "srv_rel g A Z T s \<Longrightarrow> finite (dom s)"
  by (auto simp: srv_rel_def index_ok_def dest: hm_inv_finite)

lemma due_dom: "due now s \<subseteq> dom s"
  by (auto simp: due_def)

lemma due_del: "due now (s(k := None)) = due now s - {k}"
  by (auto simp: due_def)

lemma first_due_step:
  assumes k: "k \<in> due now s" and fin: "finite (due now s)"
    and least: "\<And>k'. k' \<in> due now s \<Longrightarrow> expiry s k \<le> expiry s k'"
    and K: "first_due now r (s(k := None)) K"
  shows "first_due now (Suc r) s (insert k K)"
proof -
  have K': "K \<subseteq> due now s - {k}" "card K = min r (card (due now s - {k}))"
    using K by (auto simp: first_due_def due_del)
  have c: "card (insert k K) = Suc (card K)"
    using K'(1) fin finite_subset [OF K'(1)] by (intro card_insert_disjoint) auto
  have "card (due now s) = Suc (card (due now s - {k}))" using fin k by (rule card.remove)
  then have "card (insert k K) = min (Suc r) (card (due now s))" using c K'(2) by (simp only: min_Suc_Suc)
  moreover have "expiry s i \<le> expiry s j" if "i \<in> K" "j \<in> due now s - insert k K" for i j
  proof -
    have "expiry (s(k := None)) i \<le> expiry (s(k := None)) j"
      using K that by (auto simp: first_due_def due_del)
    moreover have "i \<noteq> k" "j \<noteq> k" using that K'(1) by auto
    ultimately show ?thesis by (simp add: expiry_def)
  qed
  moreover have "insert k K \<subseteq> due now s" using k K'(1) by blast
  ultimately show ?thesis unfolding first_due_def using least by blast
qed

text \<open>One key that is due: it is in the index, so the branch for a timer without a key is never taken.\<close>

lemma heap_top_Cons: "heap_top (x # xs) = Some x"
  by (simp add: heap_top_def)

lemma expire_step:
  assumes r: "srv_rel g A Z T s" and h: "theap g = item # items"
  shows "\<exists>n hs hm g' v. db_nodes g (href item) = Some n \<and>
    hm_delete (db_nodes g) (db g) (hcode n) (hnode_same (href item)) = Some (hs, hm, Some (href item)) \<and>
    entry_del (g\<lparr>db_nodes := hs, db := hm\<rparr>) (href item) = Some g' \<and>
    s (ename g (href item)) = Some (v, Some (hval item)) \<and>
    srv_rel g' (A - {href item}) Z (T(href item := None)) (s(ename g (href item) := None))"
proof -
  let ?a = "href item"
  have c: "core_ok g A Z T" and i: "hm_inv (db_nodes g) (db g) A" "hm.keyed (db_nodes g) A (ename g) name_hash"
    using r by (auto simp: srv_rel_def index_ok_def)
  then have hr: "heap_rep (theap g) (idx g) T" by (simp add: core_ok_def)
  have T: "T ?a = Some (hval item)" using timer.top_law [OF hr] by (simp add: h heap_top_Cons)
  then have a: "?a \<in> A" using timers_dom [OF c] by blast
  then obtain n where n: "db_nodes g ?a = Some n" using i(2) by (auto simp: hm.keyed_def)
  have "unique_match (db_nodes g) (hcode n) (hnode_same ?a) A"
    by (auto simp: unique_match_def eq_defined_def hmatch_def hnode_same_def)
  from hm.delete_law [OF i(1) this] obtain hs hm p where
    d: "hm_delete (db_nodes g) (db g) (hcode n) (hnode_same ?a) = Some (hs, hm, p)"
      "hm_inv hs hm (A - set_option p)" "rehung A (db_nodes g) hs" "finds (db_nodes g) (hcode n) (hnode_same ?a) A p"
    by blast
  have p: "p = Some ?a"
    using d(4) a n by (auto simp: finds_def hmatch_def hnode_same_def split: option.splits)
  have "hm.keyed hs A (ename g) name_hash" using i(2) by (simp add: hm.keyed_rehung [OF d(3)])
  then have "hm.keyed hs (A - {?a}) (ename g) name_hash" by (auto simp: hm.keyed_def intro: inj_on_subset)
  from remove_entry_rel [OF r a _ this, of hm] show ?thesis
    using n d(1,2) p srv_rel_key(3) [OF r a] T by auto
qed

lemma srv_rel_timers:
  assumes r: "srv_rel g A Z T s" and k: "s k = Some (v, Some e)"
  shows "\<exists>a \<in> A. T a = Some e \<and> ename g a = k"
proof -
  obtain a where "a \<in> A" "ename g a = k" using srv_rel_key(1) [OF r, of k] k by auto
  then show ?thesis using srv_rel_key(3) [OF r] k by force
qed

lemma expire_keys_rel:
  assumes "srv_rel g A Z T s" and "w \<le> k_max_works"
  shows "\<exists>g' K. expire_keys g now w = Some g' \<and> first_due now (Suc (k_max_works - w)) s K \<and> implements g' (s |` (- K))"
  using assms
proof (induction "k_max_works - w" arbitrary: g A T s w rule: less_induct)
  case less
  note r = less.prems(1)
  have hr: "heap_rep (theap g) (idx g) T" using r by (simp add: srv_rel_def core_ok_def)
  have fin: "finite (due now s)" using srv_rel_finite [OF r] due_dom by (rule finite_subset [rotated])
  show ?case
  proof (cases "\<exists>item items. theap g = item # items \<and> hval item < now")
    case False
    have "\<not> e < now" if "T a = Some e" for a e
    proof (cases "theap g")
      case Nil
      then show ?thesis using timer.top_law [OF hr] that by (simp add: heap_top_def)
    next
      case (Cons x xs)
      then have "hval x \<le> e" using timer.top_law [OF hr] that by (simp add: heap_top_def)
      then show ?thesis using False Cons by (meson le_less_trans)
    qed
    then have "due now s = {}" using srv_rel_timers [OF r] unfolding due_def by blast
    moreover have "expire_keys g now w = Some g"
      using False by (subst expire_keys.simps) (auto split: list.split)
    ultimately show ?thesis using implementsI [OF r] by (intro exI [of _ g] exI [of _ "{}"]) (simp add: first_due_def restrict_map_def)
  next
    case True
    then obtain item items where h: "theap g = item # items" "hval item < now" by blast
    let ?a = "href item" and ?k = "ename g (href item)"
    obtain n hs hm g1 v where e: "db_nodes g ?a = Some n"
      "hm_delete (db_nodes g) (db g) (hcode n) (hnode_same ?a) = Some (hs, hm, Some ?a)"
      "entry_del (g\<lparr>db_nodes := hs, db := hm\<rparr>) ?a = Some g1" "s ?k = Some (v, Some (hval item))"
      "srv_rel g1 (A - {?a}) Z (T(?a := None)) (s(?k := None))" using expire_step [OF r h(1)] by blast
    have step: "expire_keys g now w = (if w \<ge> k_max_works then Some g1 else expire_keys g1 now (w + 1))"
      using h e(1-3) by (subst expire_keys.simps) simp
    have k: "?k \<in> due now s" using e(4) h(2) by (auto simp: due_def)
    have least: "expiry s ?k \<le> expiry s k'" if kd: "k' \<in> due now s" for k'
    proof -
      obtain v' e' where k': "s k' = Some (v', Some e')" using kd unfolding due_def by blast
      then obtain b where "T b = Some e'" using srv_rel_timers [OF r] by blast
      then have "hval item \<le> e'" using timer.top_law [OF hr] by (simp add: h heap_top_Cons)
      then show ?thesis using e(4) k' by (simp add: expiry_def)
    qed
    have res: "(s(?k := None)) |` (- K) = s |` (- insert ?k K)" for K
      by (auto simp: restrict_map_def)
    show ?thesis
    proof (cases "w \<ge> k_max_works")
      case True
      have "first_due now 0 (s(?k := None)) {}" by (simp add: first_due_def)
      moreover have "s(?k := None) = s |` (- {?k})" by (auto simp: restrict_map_def)
      ultimately show ?thesis
        using first_due_step [OF k fin least] step True less.prems(2) implementsI [OF e(5)]
        by (intro exI [of _ g1] exI [of _ "{?k}"]) simp
    next
      case False
      then have "k_max_works - (w + 1) < k_max_works - w" "w + 1 \<le> k_max_works" by simp_all
      from less.hyps [OF this(1) e(5) this(2)] obtain g' K where
        IH: "expire_keys g1 now (w + 1) = Some g'" "first_due now (Suc (k_max_works - (w + 1))) (s(?k := None)) K"
          "implements g' (s(?k := None) |` (- K))" by blast
      have "Suc (k_max_works - (w + 1)) = k_max_works - w" using False by simp
      then show ?thesis using first_due_step [OF k fin least IH(2)] step IH(1,3) False res [of K]
        by (intro exI [of _ g'] exI [of _ "insert ?k K"]) simp
    qed
  qed
qed

lemma fits_restrict: "fits n s \<Longrightarrow> fits n (s |` K)"
  unfolding fits_def dom_restrict by (auto simp: restrict_map_def split: if_splits intro: order_trans [OF card_mono [OF _ Int_lower1]])

section \<open>Idle connections\<close>

text \<open>A connection is too old when its time of inactivity is over.\<close>

definition too_old :: "server \<Rightarrow> u64 \<Rightarrow> addr \<Rightarrow> bool" where
  "too_old s now a \<longleftrightarrow> last_active_ms (the (conns s a)) + k_idle_timeout_ms \<le> now"

lemma idle_front_ring:
  assumes "conns_ok s (a # xs)"
  shows "idle_front s = Some (a, the (conns s a))"
proof -
  have "nextof (idle s) idle_list = Some (Some a)"
    using assms ring_first [of "idle s" idle_list "a # xs"] by (simp add: conns_ok_def)
  moreover have "a \<in> dom (conns s)" using assms by (simp add: conns_ok_def)
  ultimately show ?thesis by (auto simp: idle_front_def nextof_def)
qed

lemma conn_destroy_inv:
  assumes ok: "conns_ok s (a # xs)"
  shows "\<exists>s'. conn_destroy s a = Some s' \<and> conns_ok s' xs \<and> conns s' = (conns s)(a := None) \<and> gd s' = gd s \<and> cbrk s' = cbrk s"
proof -
  have "a \<in> dom (conns s)" using ok by (simp add: conns_ok_def)
  then obtain c where "conns s a = Some c" by blast
  moreover have "\<forall>b c. b \<noteq> a \<and> conns s b = Some c \<longrightarrow> flags_ok c \<and> \<not> want_close c"
    using ok by (auto simp: conns_ok_def)
  ultimately show ?thesis using conn_destroy_ok [of s "a # xs" a c] ok unfolding conns_ok_def by auto
qed

lemma expire_conns_rel:
  assumes "conns_ok s xs"
  shows "\<exists>s'. expire_conns s now = Some s' \<and> conns_ok s' (dropWhile (too_old s now) xs) \<and>
    conns s' = conns s |` set (dropWhile (too_old s now) xs) \<and> gd s' = gd s \<and> cbrk s' = cbrk s"
  using assms
proof (induction xs arbitrary: s)
  case Nil
  then have "dlist_empty (idle s) idle_list = Some True" "conns s = Map.empty"
    using dlist_empty_ring by (auto simp: conns_ok_def)
  then show ?case using Nil by (subst expire_conns.simps) (simp add: restrict_map_def)
next
  case (Cons a xs)
  have e: "dlist_empty (idle s) idle_list = Some False"
    using dlist_empty_ring [of "idle s" idle_list "a # xs"] Cons.prems by (simp add: conns_ok_def)
  note f = idle_front_ring [OF Cons.prems]
  show ?case
  proof (cases "too_old s now a")
    case False
    have "conns s |` set (a # xs) = conns s"
      using Cons.prems by (auto simp: conns_ok_def restrict_map_def fun_eq_iff domIff)
    moreover have "expire_conns s now = Some s"
      using e f False by (subst expire_conns.simps) (simp add: too_old_def not_le)
    ultimately show ?thesis using False Cons.prems by simp
  next
    case True
    obtain s1 where s1: "conn_destroy s a = Some s1" "conns_ok s1 xs" "conns s1 = (conns s)(a := None)" "gd s1 = gd s" "cbrk s1 = cbrk s"
      using conn_destroy_inv [OF Cons.prems] by blast
    have "a \<notin> set xs" using Cons.prems by (simp add: conns_ok_def ring_def)
    then have "dropWhile (too_old s1 now) xs = dropWhile (too_old s now) xs"
      by (intro dropWhile_cong) (auto simp: too_old_def s1(3))
    moreover have "(conns s)(a := None) |` B = conns s |` B" if "B \<subseteq> set xs" for B
      using that \<open>a \<notin> set xs\<close> by (auto simp: restrict_map_def fun_eq_iff)
    moreover have "set (dropWhile (too_old s now) xs) \<subseteq> set xs" by (meson set_dropWhileD subsetI)
    ultimately obtain s' where "expire_conns s1 now = Some s'" "conns_ok s' (dropWhile (too_old s now) xs)"
      "conns s' = conns s |` set (dropWhile (too_old s now) xs)" "gd s' = gd s" "cbrk s' = cbrk s"
      using Cons.IH [OF s1(2)] s1(3-5) by metis
    moreover have "expire_conns s now = expire_conns s1 now"
      using e f True s1(1) by (subst expire_conns.simps) (simp add: too_old_def not_less [symmetric])
    ultimately show ?thesis using True by simp
  qed
qed

lemma pending_restrict: "finite (dom cs) \<Longrightarrow> pending (cs |` B) \<le> pending cs"
  unfolding pending_def by (rule order_trans [OF eq_refl sum_mono2 [of "dom cs" "dom cs \<inter> B"]])
    (auto intro!: sum.cong)

lemma process_timers_rel:
  assumes c: "conns_ok s xs" and i: "implements (gd s) ad"
  shows "\<exists>s' K. process_timers s now = Some s' \<and> conns_ok s' (dropWhile (too_old s now) xs) \<and>
    conns s' = conns s |` set (dropWhile (too_old s now) xs) \<and>
    first_due now (Suc k_max_works) ad K \<and> implements (gd s') (ad |` (- K)) \<and> cbrk s' = cbrk s"
proof -
  obtain s1 where s1: "expire_conns s now = Some s1" "conns_ok s1 (dropWhile (too_old s now) xs)"
    "conns s1 = conns s |` set (dropWhile (too_old s now) xs)" "gd s1 = gd s" "cbrk s1 = cbrk s"
    using expire_conns_rel [OF c] by blast
  obtain A Z T where "srv_rel (gd s1) A Z T ad" using i s1(4) by (auto simp: implements_def)
  from expire_keys_rel [OF this, of 0 now] obtain g K where "expire_keys (gd s1) now 0 = Some g"
    "first_due now (Suc k_max_works) ad K" "implements g (ad |` (- K))" by auto
  then show ?thesis using s1
    by (intro exI [of _ "s1\<lparr>gd := g\<rparr>"] exI [of _ K]) (simp add: process_timers_def conns_ok_def)
qed

section \<open>The clock\<close>

text \<open>A normalised time that does not overflow the milliseconds.\<close>

definition timespec_ok :: "timespec \<Rightarrow> bool" where
  "timespec_ok tv \<longleftrightarrow> 0 \<le> tv_sec tv \<and> tv_sec tv * 1000 + 1000 \<le> 2 ^ 64 \<and> 0 \<le> tv_nsec tv \<and> tv_nsec tv < 10 ^ 9"

lemma uint_msec:
  assumes "timespec_ok tv"
  shows "uint (get_monotonic_msec tv) = tv_sec tv * 1000 + tv_nsec tv div 10 ^ 6"
proof -
  have d: "x sdiv 1000 = x div 1000" if "0 \<le> x" for x :: int using that by (cases "x = 0") (simp_all add: signed_divide_int_def)
  have "tv_nsec tv sdiv 1000 sdiv 1000 = tv_nsec tv div 10 ^ 6"
    using assms d [of "tv_nsec tv"] d [of "tv_nsec tv div 1000"] zdiv_zmult2_eq [of 1000 "tv_nsec tv" 1000]
    by (simp add: timespec_ok_def pos_imp_zdiv_nonneg_iff)
  then have "get_monotonic_msec tv = of_int (tv_sec tv * 1000 + tv_nsec tv div 10 ^ 6)"
    by (simp add: get_monotonic_msec_def)
  moreover have "0 \<le> tv_sec tv * 1000 + tv_nsec tv div 10 ^ 6" "tv_sec tv * 1000 + tv_nsec tv div 10 ^ 6 < 2 ^ 64"
    using assms by (auto simp: timespec_ok_def)
  moreover have "uint (of_int x :: u64) = x" if "0 \<le> x" "x < 2 ^ 64" for x
    using that by (simp add: unsigned_of_int take_bit_int_eq_self)
  ultimately show ?thesis by (simp only:)
qed

text \<open>Readings of the monotonic clock do not decrease.\<close>

lemma msec_mono:
  assumes "timespec_ok tv" and "timespec_ok tv'"
    and "tv_sec tv < tv_sec tv' \<or> tv_sec tv = tv_sec tv' \<and> tv_nsec tv \<le> tv_nsec tv'"
  shows "get_monotonic_msec tv \<le> get_monotonic_msec tv'"
proof -
  have "tv_nsec tv div 10 ^ 6 < 1000" "0 \<le> tv_nsec tv' div 10 ^ 6" using assms(1,2) by (auto simp: timespec_ok_def)
  moreover have "tv_nsec tv div 10 ^ 6 \<le> tv_nsec tv' div 10 ^ 6" if "tv_nsec tv \<le> tv_nsec tv'" using that by (simp add: zdiv_mono1)
  ultimately show ?thesis using assms by (auto simp: word_le_def uint_msec)
qed

end
