(* ===== verification/Sessions.thy ===== *)
theory Sessions
  imports Timers_Correct
begin

text \<open>
  What clients see: the bytes that pass over each connection, the requests in the order in which the server
  executes them, and how the two are related. Addresses of connections are not used again, so an address
  names one connection for ever.
\<close>

section \<open>Histories of the database\<close>

text \<open>A request of a connection at a time with its reply, or the removal of keys that are due, the earliest first.\<close>

datatype event = Request addr u64 "bytes list" reply | Expiry u64 "bytes set"

inductive history :: "strtod \<Rightarrow> adb \<Rightarrow> event list \<Rightarrow> adb \<Rightarrow> bool" for strtod where
  start: "history strtod s [] s"
| request: "command strtod t s cmd s1 rep \<Longrightarrow> history strtod s1 log s2 \<Longrightarrow> history strtod s (Request a t cmd rep # log) s2"
| expiry: "first_due t (Suc k_max_works) s K \<Longrightarrow> history strtod (s |` (- K)) log s2 \<Longrightarrow> history strtod s (Expiry t K # log) s2"

lemma history_append: "history strtod s log s1 \<Longrightarrow> history strtod s1 log' s2 \<Longrightarrow> history strtod s (log @ log') s2"
  by (induction rule: history.induct) (auto intro: history.request history.expiry)

fun cmds_of :: "addr \<Rightarrow> event list \<Rightarrow> bytes list list" where
  "cmds_of a [] = []"
| "cmds_of a (Request b t cmd rep # log) = (if b = a then cmd # cmds_of a log else cmds_of a log)"
| "cmds_of a (Expiry t K # log) = cmds_of a log"

fun reps_of :: "addr \<Rightarrow> event list \<Rightarrow> reply list" where
  "reps_of a [] = []"
| "reps_of a (Request b t cmd rep # log) = (if b = a then rep # reps_of a log else reps_of a log)"
| "reps_of a (Expiry t K # log) = reps_of a log"

lemma cmds_of_append [simp]: "cmds_of a (log @ log') = cmds_of a log @ cmds_of a log'"
  by (induction a log rule: cmds_of.induct) auto

lemma reps_of_append [simp]: "reps_of a (log @ log') = reps_of a log @ reps_of a log'"
  by (induction a log rule: reps_of.induct) auto

lemma commands_history:
  assumes "commands strtod s rs s' reps"
  shows "\<exists>log. history strtod s log s' \<and>
    (\<forall>b. cmds_of b log = (if b = a then map snd rs else [])) \<and> (\<forall>b. reps_of b log = (if b = a then reps else []))"
  using assms
proof (induction rule: commands.induct)
  case (none s)
  then show ?case using history.start by (intro exI [of _ "[]"]) auto
next
  case (more now s cmd s1 rep rs s2 reps)
  then obtain log where "history strtod s1 log s2" "\<forall>b. cmds_of b log = (if b = a then map snd rs else [])"
    "\<forall>b. reps_of b log = (if b = a then reps else [])" by blast
  then show ?case using history.request [OF more(1), of log s2 a] by (intro exI [of _ "Request a now cmd rep # log"]) auto
qed

section \<open>Traffic\<close>

text \<open>For each call on a connection, the bytes read from it and the bytes written to it.\<close>

type_synonym traffic = "(addr \<times> bytes \<times> bytes) list"

definition wire_in :: "addr \<Rightarrow> traffic \<Rightarrow> bytes" where
  "wire_in a tr = concat (map (\<lambda>(b, i, out). if b = a then i else []) tr)"

definition wire_out :: "addr \<Rightarrow> traffic \<Rightarrow> bytes" where
  "wire_out a tr = concat (map (\<lambda>(b, i, out). if b = a then out else []) tr)"

lemma wire_simps [simp]:
  "wire_in a [] = []" "wire_in a ((b, i, out) # tr) = (if b = a then i else []) @ wire_in a tr" "wire_in a (tr @ tr') = wire_in a tr @ wire_in a tr'"
  "wire_out a [] = []" "wire_out a ((b, i, out) # tr) = (if b = a then out else []) @ wire_out a tr" "wire_out a (tr @ tr') = wire_out a tr @ wire_out a tr'"
  by (simp_all add: wire_in_def wire_out_def)

fun conns_traffic :: "strtod \<Rightarrow> server \<Rightarrow> (nat \<times> conn_io) list \<Rightarrow> traffic" where
  "conns_traffic strtod s [] = []"
| "conns_traffic strtod s ((fd, io) # w) =
     (case fd_at (fd2conn s) fd of
        None \<Rightarrow> []
      | Some a \<Rightarrow> (a, conn_read io, conn_sent strtod (gd s) (the (conns s a)) io) #
          (case handle_conn strtod s fd io of Some (Running s') \<Rightarrow> conns_traffic strtod s' w | _ \<Rightarrow> []))"

definition traffic :: "strtod \<Rightarrow> server \<Rightarrow> wakeup \<Rightarrow> traffic" where
  "traffic strtod s wk = (case wk_poll wk of
     Woken listening ios \<Rightarrow>
       (case (poll_conns (conns s) (fd2conn s),
              if listening \<noteq> 0 then accept_conn s (wk_accept wk) (wk_accept_clock wk) else Some (Running s)) of
          (Some args, Some (Running s1)) \<Rightarrow> conns_traffic strtod s1 (zip (map fst args) ios)
        | _ \<Rightarrow> [])
   | _ \<Rightarrow> [])"

section \<open>Sessions\<close>

text \<open>
  One connection: the requests executed for it are those that its input has, in order, and the bytes
  written to it are the first bytes of their replies. While it is open, the rest is in its buffers.
\<close>

definition session :: "conn option \<Rightarrow> bytes \<Rightarrow> bytes \<Rightarrow> bytes list list \<Rightarrow> reply list \<Rightarrow> bool" where
  "session p i out cmds reps \<longleftrightarrow> fst (requests_of i) = cmds \<and> (\<exists>rest. responses reps = out @ rest) \<and>
     (\<forall>c. p = Some c \<longrightarrow> requests_of i = (cmds, incoming c, False) \<and> responses reps = out @ outgoing c)"

lemma session_closed: "session p i out cmds reps \<Longrightarrow> session None i out cmds reps"
  by (simp add: session_def)

lemma session_step:
  assumes "session (Some c) i out cmds reps" and "requests_of (incoming c @ i') = (cmds', rest, bad)"
    and "outgoing c @ responses reps' = out' @ unsent"
    and "\<And>c'. p = Some c' \<Longrightarrow> incoming c' = rest \<and> outgoing c' = unsent \<and> \<not> bad"
  shows "session p (i @ i') (out @ out') (cmds @ cmds') (reps @ reps')"
proof -
  have "requests_of i = (cmds, incoming c, False)" "responses reps = out @ outgoing c"
    using assms(1) by (auto simp: session_def)
  then have "requests_of (i @ i') = (cmds @ cmds', rest, bad)" "responses (reps @ reps') = (out @ out') @ unsent"
    using requests_of_append [of i cmds "incoming c" False i'] assms(2,3) by simp_all
  then show ?thesis unfolding session_def using assms(4) by auto
qed

text \<open>The whole server: the history leads to its database, and all connections that ever were have a session.\<close>

definition traced :: "strtod \<Rightarrow> server \<Rightarrow> adb \<Rightarrow> event list \<Rightarrow> traffic \<Rightarrow> bool" where
  "traced strtod s ad log tr \<longleftrightarrow> history strtod Map.empty log ad \<and>
     (\<forall>a. session (conns s a) (wire_in a tr) (wire_out a tr) (cmds_of a log) (reps_of a log)) \<and>
     (\<forall>a \<ge> cbrk s. wire_in a tr = [] \<and> wire_out a tr = [] \<and> cmds_of a log = [] \<and> reps_of a log = [])"

lemma traced_session:
  "traced strtod s ad log tr \<Longrightarrow> session (conns s a) (wire_in a tr) (wire_out a tr) (cmds_of a log) (reps_of a log)"
  by (simp add: traced_def)

text \<open>Events on one connection.\<close>

lemma traced_conn:
  assumes t: "traced strtod s ad log tr" and a: "conns s a = Some c" "a < cbrk s"
    and q: "requests_of (incoming c @ i') = (cmds, rest, bad)" and ts: "length ts = length cmds"
    and c: "commands strtod ad (zip ts cmds) ad' reps" and o: "outgoing c @ responses reps = out' @ unsent"
    and s': "\<And>c'. conns s' a = Some c' \<Longrightarrow> incoming c' = rest \<and> outgoing c' = unsent \<and> \<not> bad"
      "\<And>b. b \<noteq> a \<Longrightarrow> conns s' b = conns s b" "cbrk s' = cbrk s"
  shows "\<exists>log'. traced strtod s' ad' (log @ log') (tr @ [(a, i', out')])"
proof -
  obtain log' where l: "history strtod ad log' ad'" "\<forall>b. cmds_of b log' = (if b = a then cmds else [])"
    "\<forall>b. reps_of b log' = (if b = a then reps else [])" using commands_history [OF c, of a] ts by auto
  have "session (conns s' a) (wire_in a tr @ i') (wire_out a tr @ out') (cmds_of a log @ cmds) (reps_of a log @ reps)"
    using traced_session [OF t, of a] a(1) by (intro session_step [OF _ q o s'(1)]) simp_all
  then have "session (conns s' b) (wire_in b (tr @ [(a, i', out')])) (wire_out b (tr @ [(a, i', out')]))
      (cmds_of b (log @ log')) (reps_of b (log @ log'))" for b
    using traced_session [OF t, of b] s'(2) l(2,3) by (cases "b = a") auto
  moreover have "history strtod Map.empty (log @ log') ad'" using t l(1) history_append unfolding traced_def by blast
  ultimately show ?thesis using t a(2) s'(3) l(2,3) by (intro exI [of _ log']) (auto simp: traced_def)
qed

text \<open>New connections, closed connections, expired keys.\<close>

lemma traced_accept:
  assumes t: "traced strtod s ad log tr" and k: "\<And>a c. conns s a = Some c \<Longrightarrow> conns s' a = Some c" and b: "cbrk s \<le> cbrk s'"
    and new: "\<And>a c. conns s' a = Some c \<Longrightarrow> conns s a = Some c \<or> cbrk s \<le> a \<and> incoming c = [] \<and> outgoing c = []"
  shows "traced strtod s' ad log tr"
proof -
  have "session (conns s' a) (wire_in a tr) (wire_out a tr) (cmds_of a log) (reps_of a log)" for a
  proof (cases "conns s' a")
    case (Some c)
    then consider "conns s a = Some c" | "cbrk s \<le> a" "incoming c = []" "outgoing c = []" using new by blast
    then show ?thesis using traced_session [OF t, of a] t Some by cases (simp_all add: traced_def session_def)
  qed (use session_closed [OF traced_session [OF t]] in simp)
  then show ?thesis using t b by (auto simp: traced_def)
qed

lemma traced_timers:
  assumes t: "traced strtod s ad log tr" and k: "first_due now (Suc k_max_works) ad K" and c: "conns s' = conns s |` X" and b: "cbrk s' = cbrk s"
  shows "traced strtod s' (ad |` (- K)) (log @ [Expiry now K]) tr"
proof -
  have "session (conns s' a) (wire_in a tr) (wire_out a tr) (cmds_of a log) (reps_of a log)" for a
    using traced_session [OF t, of a] session_closed [OF traced_session [OF t]] c by (cases "a \<in> X") simp_all
  moreover have "history strtod Map.empty (log @ [Expiry now K]) (ad |` (- K))"
    using t history_append [OF _ history.expiry [OF k history.start]] unfolding traced_def by blast
  ultimately show ?thesis using t b by (simp add: traced_def)
qed

end
