(* ===== verification/Main_Loop_Correct.thy ===== *)
theory Main_Loop_Correct
  imports Sessions
begin

text \<open>
  The iterations of \<open>main\<close>: the states that the server reaches from its start, under what the kernel
  promises, satisfy the invariant of connections and database, and no iteration from such a state fails
  an assertion or follows a bad pointer.
\<close>

section \<open>The arguments of \<open>poll\<close>\<close>

lemma fd_at_Cons [simp]: "fd_at (p # v) (Suc i) = fd_at v i" "fd_at (p # v) 0 = p"
  by (simp_all add: fd_at_def)

lemma poll_conns_at:
  assumes "\<And>i a. fd_at v i = Some a \<Longrightarrow> \<exists>c. cs a = Some c \<and> cfd c = k + i"
  shows "\<exists>args. poll_conns cs v = Some args \<and> distinct (map fst args) \<and>
    (\<forall>fd ev. (fd, ev) \<in> set args \<longleftrightarrow> (\<exists>i a c. fd = k + i \<and> fd_at v i = Some a \<and> cs a = Some c \<and> ev = poll_events c))"
  using assms
proof (induction v arbitrary: k)
  case Nil
  then show ?case by (simp add: fd_at_def)
next
  case (Cons p v)
  have "\<exists>c. cs a = Some c \<and> cfd c = Suc k + i" if "fd_at v i = Some a" for i a
    using Cons.prems [of "Suc i" a] that by simp
  from Cons.IH [OF this] obtain args where args: "poll_conns cs v = Some args" "distinct (map fst args)"
    "\<And>fd ev. (fd, ev) \<in> set args \<longleftrightarrow> (\<exists>i a c. fd = Suc k + i \<and> fd_at v i = Some a \<and> cs a = Some c \<and> ev = poll_events c)"
    by blast
  have split: "(\<exists>i. P i) \<longleftrightarrow> P 0 \<or> (\<exists>i. P (Suc i))" for P :: "nat \<Rightarrow> bool" by (metis not0_implies_Suc)
  show ?case
  proof (cases p)
    case None
    then show ?thesis using args by (subst split) simp
  next
    case (Some a)
    obtain c where c: "cs a = Some c" "cfd c = k" using Cons.prems [of 0 a] Some by auto
    have "k \<notin> fst ` set args" using args(3) by fastforce
    then show ?thesis using args Some c by (subst split) auto
  qed
qed

lemma poll_conns_ok:
  assumes "conns_ok s xs"
  shows "\<exists>args. poll_conns (conns s) (fd2conn s) = Some args \<and> distinct (map fst args) \<and>
    (\<forall>fd ev. (fd, ev) \<in> set args \<longleftrightarrow> (\<exists>a c. conns s a = Some c \<and> cfd c = fd \<and> ev = poll_events c))"
proof -
  have f: "fds_ok (fd2conn s) (conns s)" using assms by (simp add: conns_ok_def)
  have "\<exists>c. conns s a = Some c \<and> cfd c = 0 + i" if "fd_at (fd2conn s) i = Some a" for i a
    using fds_okE [OF f that] by simp
  with poll_conns_at [of "fd2conn s" "conns s" 0] obtain args where
    args: "poll_conns (conns s) (fd2conn s) = Some args" "distinct (map fst args)"
      "\<And>fd ev. (fd, ev) \<in> set args \<longleftrightarrow>
        (\<exists>i a c. fd = 0 + i \<and> fd_at (fd2conn s) i = Some a \<and> conns s a = Some c \<and> ev = poll_events c)" by blast
  have "(fd, ev) \<in> set args \<longleftrightarrow> (\<exists>a c. conns s a = Some c \<and> cfd c = fd \<and> ev = poll_events c)" for fd ev
    unfolding args(3) using fds_okD [OF f] fds_okE [OF f] by (metis add_0 option.inject)
  then show ?thesis using args(1,2) by blast
qed

section \<open>The connections of an iteration\<close>

text \<open>Each pair of a descriptor and what happens on it is about an open connection and respects \<open>poll\<close>.\<close>

definition work_ok :: "(addr \<rightharpoonup> conn) \<Rightarrow> (nat \<times> conn_io) list \<Rightarrow> bool" where
  "work_ok cs w \<longleftrightarrow> distinct (map fst w) \<and>
     (\<forall>(fd, io) \<in> set w. \<exists>a c. cs a = Some c \<and> cfd c = fd \<and> poll_reports (poll_events c) (io_ready io))"

definition work_bytes :: "(nat \<times> conn_io) list \<Rightarrow> nat" where
  "work_bytes w = (\<Sum>(fd, io) \<leftarrow> w. read_len (io_read io))"

lemma work_ok_tail:
  assumes w: "work_ok cs ((fd, io) # w)" and a: "cs a = Some c" "cfd c = fd" and k: "\<And>b. b \<noteq> a \<Longrightarrow> cs' b = cs b"
  shows "work_ok cs' w"
proof -
  have "\<exists>b c. cs' b = Some c \<and> cfd c = fd' \<and> poll_reports (poll_events c) (io_ready io')"
    if q: "(fd', io') \<in> set w" for fd' io'
  proof -
    obtain b c' where b: "cs b = Some c'" "cfd c' = fd'" "poll_reports (poll_events c') (io_ready io')"
      using w q by (fastforce simp: work_ok_def)
    have "fd' \<noteq> fd" using w q by (force simp: work_ok_def)
    then have "b \<noteq> a" using a b by auto
    then show ?thesis using b k by (intro exI [of _ b] exI [of _ c']) simp
  qed
  then show ?thesis using w by (auto simp: work_ok_def)
qed

text \<open>On one of the connections the server writes to a peer that has reset it.\<close>

definition work_breaks :: "(addr \<rightharpoonup> conn) \<Rightarrow> (nat \<times> conn_io) list \<Rightarrow> bool" where
  "work_breaks cs w \<longleftrightarrow> (\<exists>(fd, io) \<in> set w. \<exists>a c. cs a = Some c \<and> cfd c = fd \<and> conn_breaks c io)"

lemma work_breaks_Nil [simp]: "\<not> work_breaks cs []"
  by (simp add: work_breaks_def)

text \<open>It depends only on the connections of the descriptors.\<close>

lemma fds_ok_inj: "fds_ok v cs \<Longrightarrow> cs a = Some c \<Longrightarrow> cs b = Some d \<Longrightarrow> cfd c = cfd d \<Longrightarrow> a = b"
  by (metis fds_okD option.inject)

lemma work_breaks_cong:
  assumes f: "fds_ok v cs" and f': "fds_ok v' cs'"
    and w: "\<And>fd io. (fd, io) \<in> set w \<Longrightarrow> \<exists>a c. cs a = Some c \<and> cfd c = fd \<and> cs' a = Some c"
  shows "work_breaks cs' w \<longleftrightarrow> work_breaks cs w"
proof -
  have "(\<exists>a c. cs' a = Some c \<and> cfd c = fd \<and> conn_breaks c io) \<longleftrightarrow> (\<exists>a c. cs a = Some c \<and> cfd c = fd \<and> conn_breaks c io)"
    if fd: "(fd, io) \<in> set w" for fd io
  proof -
    obtain a c where a: "cs a = Some c" "cfd c = fd" "cs' a = Some c" using w [OF fd] by blast
    have "b = a" if "cs b = Some d \<or> cs' b = Some d" "cfd d = fd" for b d
      using that a fds_ok_inj [OF f a(1)] fds_ok_inj [OF f' a(3)] by metis
    then show ?thesis using a by (metis option.inject)
  qed
  then show ?thesis unfolding work_breaks_def by fastforce
qed

lemma work_breaks_Cons:
  assumes f: "fds_ok v cs" and a: "cs a = Some c" "cfd c = fd"
  shows "work_breaks cs ((fd, io) # w) \<longleftrightarrow> conn_breaks c io \<or> work_breaks cs w"
proof -
  have "d = c" if "cs b = Some d" "cfd d = fd" for b d
    using that a fds_ok_inj [OF f a(1) that(1)] by auto
  then have "(\<exists>b d. cs b = Some d \<and> cfd d = fd \<and> conn_breaks d io) \<longleftrightarrow> conn_breaks c io" using a by blast
  then show ?thesis by (simp add: work_breaks_def)
qed

lemma work_breaks_tail:
  assumes f: "fds_ok v cs" and f': "fds_ok v' cs'" and w: "work_ok cs ((fd, io) # w)" and a: "cs a = Some c" "cfd c = fd"
    and k: "\<And>b. b \<noteq> a \<Longrightarrow> cs' b = cs b"
  shows "work_breaks cs' w \<longleftrightarrow> work_breaks cs w"
proof (rule work_breaks_cong [OF f f'])
  fix fd' io' assume q: "(fd', io') \<in> set w"
  then obtain b d where b: "cs b = Some d" "cfd d = fd'" using w by (fastforce simp: work_ok_def)
  have "fd' \<noteq> fd" using w q by (force simp: work_ok_def)
  then have "b \<noteq> a" using a b by auto
  then show "\<exists>a c. cs a = Some c \<and> cfd c = fd' \<and> cs' a = Some c" using b k [OF \<open>b \<noteq> a\<close>] by (intro exI [of _ b] exI [of _ d]) simp
qed

lemma handle_conns_ok:
  assumes "server_ok s xs ad n" and "work_ok (conns s) w" and "n + pending (conns s) + work_bytes w < avl_max"
    and "traced strtod s ad log tr" and "\<not> work_breaks (conns s) w"
  shows "\<exists>s' ys ad' m log'. handle_conns strtod s w = Some (Running s') \<and> server_ok s' ys ad' m \<and>
    m + pending (conns s') \<le> n + pending (conns s) + work_bytes w \<and>
    traced strtod s' ad' (log @ log') (tr @ conns_traffic strtod s w)"
  using assms
proof (induction w arbitrary: s xs ad n log tr)
  case Nil
  then show ?case
    by (intro exI [of _ s] exI [of _ xs] exI [of _ ad] exI [of _ n] exI [of _ "[]"]) (auto simp: work_bytes_def)
next
  case (Cons p w)
  obtain fd io where p: "p = (fd, io)" by fastforce
  obtain a c where a: "conns s a = Some c" "cfd c = fd" "poll_reports (poll_events c) (io_ready io)"
    using Cons.prems(2) p by (auto simp: work_ok_def)
  have co: "fds_ok (fd2conn s) (conns s)" "a < cbrk s" using Cons.prems(1) a(1) by (auto simp: server_ok_def conns_ok_def)
  have "n + pending (conns s) + read_len (io_read io) < avl_max" using Cons.prems(3) p by (simp add: work_bytes_def)
  moreover have br: "\<not> conn_breaks c io" "\<not> work_breaks (conns s) w"
    using Cons.prems(5) work_breaks_Cons [OF co(1) a(1,2)] p by simp_all
  ultimately obtain s1 ys1 ad1 m1 ts cmds bad reps rest out where
    s1: "handle_conn strtod s fd io = Some (Running s1)" "server_ok s1 ys1 ad1 m1"
      "m1 + pending (conns s1) \<le> n + pending (conns s) + read_len (io_read io)"
    and q: "requests_of (incoming c @ conn_read io) = (cmds, rest, bad)" "length ts = length cmds"
      "commands strtod ad (zip ts cmds) ad1 reps" "outgoing c @ responses reps = conn_sent strtod (gd s) c io @ out"
    and k: "\<And>c'. conns s1 a = Some c' \<Longrightarrow> incoming c' = rest \<and> outgoing c' = out \<and> \<not> bad"
      "\<And>b. b \<noteq> a \<Longrightarrow> conns s1 b = conns s b" "cbrk s1 = cbrk s"
    using handle_conn_ok [OF Cons.prems(1) a(1,3), of strtod] unfolding a(2) by blast
  obtain log1 where t: "traced strtod s1 ad1 (log @ log1) (tr @ [(a, conn_read io, conn_sent strtod (gd s) c io)])"
    using traced_conn [OF Cons.prems(4) a(1) co(2) q k] by blast
  have w: "work_ok (conns s1) w" using Cons.prems(2) a(1,2) k(2) unfolding p by (rule work_ok_tail)
  have "m1 + pending (conns s1) + work_bytes w < avl_max" using s1(3) Cons.prems(3) p by (simp add: work_bytes_def)
  moreover have "\<not> work_breaks (conns s1) w"
    using work_breaks_tail [OF co(1) _ Cons.prems(2) [unfolded p] a(1,2) k(2)] s1(2) br(2) by (auto simp: server_ok_def conns_ok_def)
  ultimately obtain s' ys ad' m log2 where s': "handle_conns strtod s1 w = Some (Running s')" "server_ok s' ys ad' m"
    "m + pending (conns s') \<le> m1 + pending (conns s1) + work_bytes w"
    "traced strtod s' ad' (log @ log1 @ log2) (tr @ (a, conn_read io, conn_sent strtod (gd s) c io) # conns_traffic strtod s1 w)"
    using Cons.IH [OF s1(2) w _ t] by auto
  have "conns_traffic strtod s (p # w) = (a, conn_read io, conn_sent strtod (gd s) c io) # conns_traffic strtod s1 w"
    using fds_okD [OF co(1) a(1)] a(1,2) s1(1) p by simp
  moreover have "m + pending (conns s') \<le> n + pending (conns s) + work_bytes (p # w)"
    using s'(3) s1(3) p by (simp add: work_bytes_def)
  ultimately show ?case using s' s1(1) p
    by (intro exI [of _ s'] exI [of _ ys] exI [of _ ad'] exI [of _ m] exI [of _ "log1 @ log2"]) simp
qed

lemma handle_conns_dies:
  assumes "server_ok s xs ad n" and "work_ok (conns s) w" and "n + pending (conns s) + work_bytes w < avl_max"
    and "work_breaks (conns s) w"
  shows "handle_conns strtod s w = Some Died"
  using assms
proof (induction w arbitrary: s xs ad n)
  case (Cons p w)
  obtain fd io where p: "p = (fd, io)" by fastforce
  obtain a c where a: "conns s a = Some c" "cfd c = fd" "poll_reports (poll_events c) (io_ready io)"
    using Cons.prems(2) p by (auto simp: work_ok_def)
  have f: "fds_ok (fd2conn s) (conns s)" using Cons.prems(1) by (simp add: server_ok_def conns_ok_def)
  have room: "n + pending (conns s) + read_len (io_read io) < avl_max" using Cons.prems(3) p by (simp add: work_bytes_def)
  show ?case
  proof (cases "conn_breaks c io")
    case True
    then show ?thesis using handle_conn_dies [OF Cons.prems(1) a(1,3) room] a(2) p by simp
  next
    case False
    then have br: "work_breaks (conns s) w" using Cons.prems(4) work_breaks_Cons [OF f a(1,2)] p by simp
    obtain s1 ys1 ad1 m1 where s1: "handle_conn strtod s fd io = Some (Running s1)" "server_ok s1 ys1 ad1 m1"
      "m1 + pending (conns s1) \<le> n + pending (conns s) + read_len (io_read io)" "\<And>b. b \<noteq> a \<Longrightarrow> conns s1 b = conns s b"
      using handle_conn_ok [OF Cons.prems(1) a(1,3) room False, of strtod] unfolding a(2) by blast
    have w: "work_ok (conns s1) w" using Cons.prems(2) a(1,2) s1(4) unfolding p by (rule work_ok_tail)
    have "m1 + pending (conns s1) + work_bytes w < avl_max" using s1(3) Cons.prems(3) p by (simp add: work_bytes_def)
    moreover have "work_breaks (conns s1) w"
      using work_breaks_tail [OF f _ Cons.prems(2) [unfolded p] a(1,2) s1(4)] s1(2) br by (auto simp: server_ok_def conns_ok_def)
    ultimately show ?thesis using Cons.IH [OF s1(2) w] s1(1) p by simp
  qed
qed simp

section \<open>The timeout of \<open>poll\<close>\<close>

text \<open>The times at which the server has to wake up.\<close>

definition deadlines :: "server \<Rightarrow> addr list \<Rightarrow> adb \<Rightarrow> u64 set" where
  "deadlines s xs ad = (case xs of [] \<Rightarrow> {} | a # _ \<Rightarrow> {last_active_ms (the (conns s a)) + k_idle_timeout_ms}) \<union>
     {e. \<exists>k v. ad k = Some (v, Some e)}"

definition is_first :: "u64 set \<Rightarrow> u64 \<Rightarrow> bool" where
  "is_first D d \<longleftrightarrow> (if D = {} then d = - 1 else d \<in> D \<and> (\<forall>e \<in> D. d \<le> e))"

lemma heap_top_ad:
  assumes i: "implements g ad"
  shows "case theap g of [] \<Rightarrow> {e. \<exists>k v. ad k = Some (v, Some e)} = {}
    | x # _ \<Rightarrow> (\<exists>k v. ad k = Some (v, Some (hval x))) \<and> (\<forall>k v e. ad k = Some (v, Some e) \<longrightarrow> hval x \<le> e)"
proof -
  obtain A Z T where r: "srv_rel g A Z T ad" using i by (auto simp: implements_def)
  then have hr: "heap_rep (theap g) (idx g) T" and c: "core_ok g A Z T" by (auto simp: srv_rel_def core_ok_def)
  show ?thesis
  proof (cases "theap g")
    case Nil
    then show ?thesis using timer.top_law [OF hr] srv_rel_timers [OF r] by (fastforce simp: heap_top_def)
  next
    case (Cons x xs)
    then have T: "T (href x) = Some (hval x)" "\<And>e v. T e = Some v \<Longrightarrow> hval x \<le> v"
      using timer.top_law [OF hr] by (auto simp: heap_top_Cons)
    then have "href x \<in> A" using timers_dom [OF c] by blast
    then have "ad (ename g (href x)) = Some (aval g Z (href x), Some (hval x))" using srv_rel_key(3) [OF r] T(1) by simp
    then show ?thesis using Cons T(2) srv_rel_timers [OF r] by fastforce
  qed
qed

lemma next_timer_ms_eq:
  assumes c: "conns_ok s xs" and i: "implements (gd s) ad"
  shows "\<exists>d. is_first (deadlines s xs ad) d \<and>
    next_timer_ms s now = Some (if d = - 1 then - 1 else if d \<le> now then 0 else ucast (d - now))"
proof -
  have e: "dlist_empty (idle s) idle_list = Some (xs = [])"
    using c by (intro dlist_empty_ring) (simp add: conns_ok_def)
  define d0 where "d0 = (case xs of [] \<Rightarrow> - 1 | a # _ \<Rightarrow> last_active_ms (the (conns s a)) + k_idle_timeout_ms)"
  define d where "d = (case theap (gd s) of item # _ \<Rightarrow> if hval item < d0 then hval item else d0 | [] \<Rightarrow> d0)"
  have "(if \<not> xs = [] then do { (a, c) \<leftarrow> idle_front s; Some (last_active_ms c + k_idle_timeout_ms) } else Some (- 1)) = Some d0"
    using idle_front_ring [of s "hd xs" "tl xs"] c by (cases xs) (simp_all add: d0_def)
  then have "next_timer_ms s now = Some (if d = - 1 then - 1 else if d \<le> now then 0 else ucast (d - now))"
    using e by (simp add: next_timer_ms_def d_def Let_def)
  moreover have "is_first (deadlines s xs ad) d"
  proof (cases "theap (gd s)")
    case Nil
    then show ?thesis using heap_top_ad [OF i] unfolding d_def d0_def deadlines_def is_first_def
      by (cases xs) auto
  next
    case (Cons x ys)
    then have h: "\<exists>k v. ad k = Some (v, Some (hval x))" "\<And>k v e. ad k = Some (v, Some e) \<Longrightarrow> hval x \<le> e"
      using heap_top_ad [OF i] by auto
    have m: "d = min (hval x) d0" using Cons by (simp add: d_def min_def not_le) (metis leD le_less order_antisym_conv)
    show ?thesis
    proof (cases xs)
      case Nil
      then have "d = hval x" using m by (simp add: d0_def min_def)
      then show ?thesis using h Nil by (auto simp: is_first_def deadlines_def)
    next
      case (Cons a zs)
      have "d \<le> e" if "ad k = Some (v, Some e)" for k v e using h(2) [OF that] m by (auto intro: min.coboundedI1)
      moreover have "d = hval x \<or> d = d0" "d \<le> d0" using m by (auto simp: min_def)
      ultimately show ?thesis using h(1) Cons by (auto simp: is_first_def deadlines_def d0_def)
    qed
  qed
  ultimately show ?thesis by blast
qed

section \<open>Iterations\<close>

text \<open>
  What the kernel promises for one iteration: \<open>poll\<close> reports on every descriptor it was given and only
  the events it was asked for or an error condition, and \<open>accept\<close> returns a descriptor that is not open.
\<close>

definition kernel_ok :: "server \<Rightarrow> wakeup \<Rightarrow> bool" where
  "kernel_ok s wk \<longleftrightarrow> fresh_fd s (wk_accept wk) \<and> (case wk_poll wk of
     Woken listening ios \<Rightarrow> (case poll_conns (conns s) (fd2conn s) of
         Some args \<Rightarrow> length ios = length args \<and>
           list_all2 (\<lambda>(fd, ev) io. poll_reports ev (io_ready io)) args ios
       | None \<Rightarrow> False)
   | _ \<Rightarrow> True)"

definition wk_bytes :: "wakeup \<Rightarrow> nat" where
  "wk_bytes wk = (case wk_poll wk of Woken listening ios \<Rightarrow> (\<Sum>io \<leftarrow> ios. read_len (io_read io)) | _ \<Rightarrow> 0)"

lemma work_bytes_zip: "work_bytes (zip fds ios) \<le> (\<Sum>io \<leftarrow> ios. read_len (io_read io))"
proof (induction fds arbitrary: ios)
  case (Cons fd fds)
  then show ?case using Cons.IH [of "tl ios"] by (cases ios) (auto simp: work_bytes_def)
qed (simp add: work_bytes_def)

lemma work_ok_zip:
  assumes c: "conns_ok s xs" and p: "poll_conns (conns s) (fd2conn s) = Some args"
    and r: "list_all2 (\<lambda>(fd, ev) io. poll_reports ev (io_ready io)) args ios"
    and keep: "\<And>a c. conns s a = Some c \<Longrightarrow> cs a = Some c"
  shows "work_ok cs (zip (map fst args) ios)"
proof -
  have a: "distinct (map fst args)" "\<And>fd ev. (fd, ev) \<in> set args \<Longrightarrow> \<exists>a c. conns s a = Some c \<and> cfd c = fd \<and> ev = poll_events c"
    using poll_conns_ok [OF c] p by auto
  have len: "length args = length ios" using r by (rule list_all2_lengthD)
  have "\<exists>a c. cs a = Some c \<and> cfd c = fd \<and> poll_reports (poll_events c) (io_ready io)"
    if q: "(fd, io) \<in> set (zip (map fst args) ios)" for fd io
  proof -
    obtain i where i: "i < length args" "fd = fst (args ! i)" "io = ios ! i" using q len by (auto simp: set_zip)
    obtain ev where ev: "args ! i = (fd, ev)" using i(2) by (cases "args ! i") auto
    have "poll_reports ev (io_ready io)" using list_all2_nthD [OF r i(1)] ev i(3) by simp
    moreover have "(fd, ev) \<in> set args" using i(1) ev by (metis nth_mem)
    ultimately show ?thesis using a(2) keep by blast
  qed
  then show ?thesis using a(1) len unfolding work_ok_def by (auto simp: distinct_map map_fst_zip)
qed

text \<open>The invariant, with the number of bytes received so far as a bound of the size of everything.\<close>

definition loop_inv :: "strtod \<Rightarrow> server \<Rightarrow> nat \<Rightarrow> traffic \<Rightarrow> bool" where
  "loop_inv strtod s b tr \<longleftrightarrow> (\<exists>xs ad n log. server_ok s xs ad n \<and> n + pending (conns s) \<le> b \<and> traced strtod s ad log tr)"

lemma loop_invI:
  "server_ok s xs ad n \<Longrightarrow> n + pending (conns s) \<le> b \<Longrightarrow> traced strtod s ad log tr \<Longrightarrow> loop_inv strtod s b tr"
  by (auto simp: loop_inv_def)

text \<open>The work of an iteration after \<open>poll\<close>: first a new connection, then what happened on the others.\<close>

lemma woken_start:
  assumes ok: "server_ok s xs ad n" and b: "n + pending (conns s) \<le> b" and k: "kernel_ok s wk"
    and room: "b + wk_bytes wk < avl_max" and t: "traced strtod s ad log tr" and wk: "wk_poll wk = Woken lis ios"
    and live: "lis \<noteq> 0 \<longrightarrow> \<not> accept_dies (wk_accept wk)" and args: "poll_conns (conns s) (fd2conn s) = Some args"
  obtains s1 xs1 where "(if lis \<noteq> 0 then accept_conn s (wk_accept wk) (wk_accept_clock wk) else Some (Running s)) = Some (Running s1)"
    "server_ok s1 xs1 ad n" "work_ok (conns s1) (zip (map fst args) ios)" "traced strtod s1 ad log tr"
    "n + pending (conns s1) + work_bytes (zip (map fst args) ios) \<le> b + wk_bytes wk"
    "\<forall>a c. conns s a = Some c \<longrightarrow> conns s1 a = Some c"
    "work_breaks (conns s1) (zip (map fst args) ios) \<longleftrightarrow> work_breaks (conns s) (zip (map fst args) ios)"
proof -
  have c: "conns_ok s xs" and i: "implements (gd s) ad" and n: "fits n ad" using ok by (auto simp: server_ok_def)
  have r: "list_all2 (\<lambda>(fd, ev) io. poll_reports ev (io_ready io)) args ios" using k args wk by (simp add: kernel_ok_def)
  have "\<exists>s1 xs1. (if lis \<noteq> 0 then accept_conn s (wk_accept wk) (wk_accept_clock wk) else Some (Running s)) = Some (Running s1) \<and>
      conns_ok s1 xs1 \<and> gd s1 = gd s \<and> pending (conns s1) = pending (conns s) \<and>
      (\<forall>a c. conns s a = Some c \<longrightarrow> conns s1 a = Some c) \<and> traced strtod s1 ad log tr"
  proof (cases "lis = 0")
    case True
    then show ?thesis using c t by auto
  next
    case False
    have "fresh_fd s (wk_accept wk)" using k by (simp add: kernel_ok_def)
    from accept_conn_ok [OF c this live [rule_format, OF False], of "wk_accept_clock wk"] obtain s1 xs1 where
      s1: "accept_conn s (wk_accept wk) (wk_accept_clock wk) = Some (Running s1)" "conns_ok s1 xs1" "gd s1 = gd s"
        "pending (conns s1) = pending (conns s)" and keep: "\<forall>a c. conns s a = Some c \<longrightarrow> conns s1 a = Some c" "cbrk s \<le> cbrk s1"
        "\<forall>a c. conns s1 a = Some c \<longrightarrow> conns s a = Some c \<or> cbrk s \<le> a \<and> incoming c = [] \<and> outgoing c = []" by blast
    have "traced strtod s1 ad log tr" using keep by (intro traced_accept [OF t]) blast+
    then show ?thesis using s1 keep(1) False by auto
  qed
  then obtain s1 xs1 where s1: "(if lis \<noteq> 0 then accept_conn s (wk_accept wk) (wk_accept_clock wk) else Some (Running s)) = Some (Running s1)"
    "conns_ok s1 xs1" "gd s1 = gd s" "pending (conns s1) = pending (conns s)"
    "\<forall>a c. conns s a = Some c \<longrightarrow> conns s1 a = Some c" "traced strtod s1 ad log tr" by blast
  show thesis
  proof (rule that [OF s1(1) _ _ s1(6) _ s1(5)])
    let ?w = "zip (map fst args) ios"
    have "work_ok (conns s) ?w" using work_ok_zip [OF c args r] by blast
    then have "\<exists>a c. conns s a = Some c \<and> cfd c = fd \<and> conns s1 a = Some c" if "(fd, io) \<in> set ?w" for fd io
      using that s1(5) by (fastforce simp: work_ok_def)
    then show "work_breaks (conns s1) ?w \<longleftrightarrow> work_breaks (conns s) ?w"
      using c s1(2) by (intro work_breaks_cong) (auto simp: conns_ok_def)
    show "server_ok s1 xs1 ad n" using s1(2,3) i n by (simp add: server_ok_def)
    show "work_ok (conns s1) (zip (map fst args) ios)" using work_ok_zip [OF c args r] s1(5) by blast
    show "n + pending (conns s1) + work_bytes (zip (map fst args) ios) \<le> b + wk_bytes wk"
      using work_bytes_zip [of "map fst args" ios] wk b s1(4) by (simp add: wk_bytes_def)
  qed
qed

lemma woken_ok:
  assumes ok: "server_ok s xs ad n" and b: "n + pending (conns s) \<le> b" and k: "kernel_ok s wk"
    and room: "b + wk_bytes wk < avl_max" and t: "traced strtod s ad log tr" and wk: "wk_poll wk = Woken lis ios"
    and live: "lis \<noteq> 0 \<longrightarrow> \<not> accept_dies (wk_accept wk)" and args: "poll_conns (conns s) (fd2conn s) = Some args"
    and br: "\<not> work_breaks (conns s) (zip (map fst args) ios)"
  shows "\<exists>s1 s2 s'. (if lis \<noteq> 0 then accept_conn s (wk_accept wk) (wk_accept_clock wk) else Some (Running s)) = Some (Running s1) \<and>
    handle_conns strtod s1 (zip (map fst args) ios) = Some (Running s2) \<and> process_timers s2 (wk_end_clock wk) = Some s' \<and>
    loop_inv strtod s' (b + wk_bytes wk) (tr @ traffic strtod s wk)"
proof -
  let ?w = "zip (map fst args) ios"
  obtain s1 xs1 where
    s1: "(if lis \<noteq> 0 then accept_conn s (wk_accept wk) (wk_accept_clock wk) else Some (Running s)) = Some (Running s1)"
      "server_ok s1 xs1 ad n" "work_ok (conns s1) ?w" "traced strtod s1 ad log tr"
      "n + pending (conns s1) + work_bytes ?w \<le> b + wk_bytes wk"
      "\<forall>a c. conns s a = Some c \<longrightarrow> conns s1 a = Some c" "work_breaks (conns s1) ?w \<longleftrightarrow> work_breaks (conns s) ?w"
    using woken_start [OF ok b k room t wk live args] .
  have "n + pending (conns s1) + work_bytes ?w < avl_max" using s1(5) room by simp
  moreover have "\<not> work_breaks (conns s1) ?w" using s1(7) br by simp
  ultimately obtain s2 xs2 ad2 m log2 where s2: "handle_conns strtod s1 ?w = Some (Running s2)" "server_ok s2 xs2 ad2 m"
    "m + pending (conns s2) \<le> n + pending (conns s1) + work_bytes ?w" "traced strtod s2 ad2 (log @ log2) (tr @ conns_traffic strtod s1 ?w)"
    using handle_conns_ok [OF s1(2,3) _ s1(4)] by blast
  then obtain s' K where s': "process_timers s2 (wk_end_clock wk) = Some s'"
    "conns_ok s' (dropWhile (too_old s2 (wk_end_clock wk)) xs2)"
    "conns s' = conns s2 |` set (dropWhile (too_old s2 (wk_end_clock wk)) xs2)"
    "first_due (wk_end_clock wk) (Suc k_max_works) ad2 K" "implements (gd s') (ad2 |` (- K))" "cbrk s' = cbrk s2"
    using process_timers_rel [of s2 xs2 ad2 "wk_end_clock wk"] by (auto simp: server_ok_def)
  have "traffic strtod s wk = conns_traffic strtod s1 ?w" using wk args s1(1) by (simp add: traffic_def)
  then have "traced strtod s' (ad2 |` (- K)) ((log @ log2) @ [Expiry (wk_end_clock wk) K]) (tr @ traffic strtod s wk)"
    using traced_timers [OF s2(4) s'(4,3,6)] by simp
  moreover have "server_ok s' (dropWhile (too_old s2 (wk_end_clock wk)) xs2) (ad2 |` (- K)) m"
    using s' s2(2) by (simp add: server_ok_def fits_restrict)
  moreover have "pending (conns s') \<le> pending (conns s2)"
    using s2(2) unfolding s'(3) by (intro pending_restrict) (simp add: server_ok_def conns_ok_def)
  then have "m + pending (conns s') \<le> b + wk_bytes wk" using s2(3) s1(5) by simp
  ultimately show ?thesis using s1(1) s2(1) s'(1) loop_invI by blast
qed

lemma woken_dies:
  assumes ok: "server_ok s xs ad n" and b: "n + pending (conns s) \<le> b" and k: "kernel_ok s wk"
    and room: "b + wk_bytes wk < avl_max" and t: "traced strtod s ad log tr" and wk: "wk_poll wk = Woken lis ios"
    and live: "lis \<noteq> 0 \<longrightarrow> \<not> accept_dies (wk_accept wk)" and args: "poll_conns (conns s) (fd2conn s) = Some args"
    and br: "work_breaks (conns s) (zip (map fst args) ios)"
  shows "\<exists>s1. (if lis \<noteq> 0 then accept_conn s (wk_accept wk) (wk_accept_clock wk) else Some (Running s)) = Some (Running s1) \<and>
    handle_conns strtod s1 (zip (map fst args) ios) = Some Died"
proof -
  let ?w = "zip (map fst args) ios"
  obtain s1 xs1 where
    s1: "(if lis \<noteq> 0 then accept_conn s (wk_accept wk) (wk_accept_clock wk) else Some (Running s)) = Some (Running s1)"
      "server_ok s1 xs1 ad n" "work_ok (conns s1) ?w" "traced strtod s1 ad log tr"
      "n + pending (conns s1) + work_bytes ?w \<le> b + wk_bytes wk" "\<forall>a c. conns s a = Some c \<longrightarrow> conns s1 a = Some c"
      "work_breaks (conns s1) ?w \<longleftrightarrow> work_breaks (conns s) ?w" using woken_start [OF ok b k room t wk live args] .
  have "n + pending (conns s1) + work_bytes ?w < avl_max" using s1(5) room by simp
  from handle_conns_dies [OF s1(2,3) this, of strtod] show ?thesis using s1(1,7) br by blast
qed

text \<open>
  The process ends when \<open>poll\<close> fails, when a new connection cannot be made non-blocking, or when the server writes to a
  connection that the peer has reset.
\<close>

definition wakeup_dies :: "server \<Rightarrow> wakeup \<Rightarrow> bool" where
  "wakeup_dies s wk = (case wk_poll wk of
     Poll_eintr \<Rightarrow> False
   | Poll_error \<Rightarrow> True
   | Woken listening ios \<Rightarrow> listening \<noteq> 0 \<and> accept_dies (wk_accept wk) \<or>
       (case poll_conns (conns s) (fd2conn s) of
          None \<Rightarrow> False
        | Some args \<Rightarrow> work_breaks (conns s) (zip (map fst args) ios)))"

lemma iteration_ok:
  assumes l: "loop_inv strtod s b tr" and k: "kernel_ok s wk" and room: "b + wk_bytes wk < avl_max"
  shows "(\<exists>s'. iteration strtod s wk = Some (Running s') \<and> loop_inv strtod s' (b + wk_bytes wk) (tr @ traffic strtod s wk)) \<and> \<not> wakeup_dies s wk \<or>
    wakeup_dies s wk \<and> iteration strtod s wk = Some Died"
proof -
  obtain xs ad n log where ok: "server_ok s xs ad n" and b: "n + pending (conns s) \<le> b" and t: "traced strtod s ad log tr"
    using l by (auto simp: loop_inv_def)
  have c: "conns_ok s xs" and i: "implements (gd s) ad" using ok by (auto simp: server_ok_def)
  obtain args where args: "poll_conns (conns s) (fd2conn s) = Some args" using poll_conns_ok [OF c] by blast
  obtain ms where ms: "next_timer_ms s (wk_timer_clock wk) = Some ms" using next_timer_ms_eq [OF c i] by blast
  show ?thesis
  proof (cases "wk_poll wk")
    case Poll_eintr
    then have "iteration strtod s wk = Some (Running s)" "traffic strtod s wk = []" "wk_bytes wk = 0"
      using args ms by (simp_all add: iteration_def traffic_def wk_bytes_def)
    then show ?thesis using l Poll_eintr by (simp add: wakeup_dies_def)
  next
    case Poll_error
    then show ?thesis using args ms by (simp add: iteration_def wakeup_dies_def)
  next
    case (Woken lis ios)
    let ?br = "work_breaks (conns s) (zip (map fst args) ios)"
    consider (acc) "lis \<noteq> 0" "accept_dies (wk_accept wk)" | (br) "lis \<noteq> 0 \<longrightarrow> \<not> accept_dies (wk_accept wk)" ?br
      | (live) "lis \<noteq> 0 \<longrightarrow> \<not> accept_dies (wk_accept wk)" "\<not> ?br" by blast
    then show ?thesis
    proof cases
      case acc
      then show ?thesis using args ms Woken by (simp add: iteration_def wakeup_dies_def accept_conn_dies)
    next
      case br
      from woken_dies [OF ok b k room t Woken br(1) args br(2)] show ?thesis
        using args ms Woken br by (auto simp: iteration_def wakeup_dies_def)
    next
      case live
      from woken_ok [OF ok b k room t Woken live(1) args live(2)] show ?thesis
        using args ms Woken live by (auto simp: iteration_def wakeup_dies_def)
    qed
  qed
qed

section \<open>Reachable states\<close>

text \<open>
  The states of the loop, with the number of bytes received and what passed over the connections: from the
  start, by iterations in which the kernel keeps its promises and the server has received fewer bytes than
  a sorted set can have pairs.
\<close>

inductive reachable :: "strtod \<Rightarrow> server \<Rightarrow> nat \<Rightarrow> traffic \<Rightarrow> bool" for strtod where
  start: "server_start socket_ok bind_ok listen_ok = Some (Running s) \<Longrightarrow> reachable strtod s 0 []"
| step: "reachable strtod s b tr \<Longrightarrow> kernel_ok s wk \<Longrightarrow> b + wk_bytes wk < avl_max \<Longrightarrow>
    iteration strtod s wk = Some (Running s') \<Longrightarrow> reachable strtod s' (b + wk_bytes wk) (tr @ traffic strtod s wk)"

lemma server_init_ok: "\<exists>s. server_init = Some s \<and> server_ok s [] Map.empty 0 \<and> conns s = Map.empty"
proof -
  obtain l where l: "dlist_init [idle_list \<mapsto> \<lparr>dprev = None, dnext = None\<rparr>] idle_list = Some l" "ring l idle_list []"
    using dlist_init_ring [of "[idle_list \<mapsto> \<lparr>dprev = None, dnext = None\<rparr>]" idle_list] by auto
  then show ?thesis using implements_init
    by (simp add: server_init_def server_ok_def conns_ok_def fds_ok_def fd_at_def fits_def idle_list_def)
qed

lemma reachable_inv: "reachable strtod s b tr \<Longrightarrow> loop_inv strtod s b tr"
proof (induction rule: reachable.induct)
  case (start socket_ok bind_ok listen_ok s)
  then have "server_init = Some s" by (auto simp: server_start_def split: bind_splits if_splits)
  then have s: "server_ok s [] Map.empty 0" "conns s = Map.empty" using server_init_ok by (metis option.inject)+
  moreover have "pending Map.empty = 0" by (simp add: pending_def)
  moreover have "traced strtod s Map.empty [] []" using s(2) history.start by (simp add: traced_def session_def)
  ultimately show ?case by (intro loop_invI) simp_all
next
  case (step s b tr wk s')
  then show ?case using iteration_ok [of strtod s b tr wk] by auto
qed

lemma reachable_server:
  assumes "reachable strtod s b tr"
  obtains xs ad n where "server_ok s xs ad n" "n + pending (conns s) \<le> b"
  using reachable_inv [OF assms] by (auto simp: loop_inv_def)

lemma reachable_sessions:
  assumes "reachable strtod s b tr"
  obtains log ad where "history strtod Map.empty log ad" "implements (gd s) ad"
    "\<forall>a. session (conns s a) (wire_in a tr) (wire_out a tr) (cmds_of a log) (reps_of a log)"
  using reachable_inv [OF assms] by (auto simp: loop_inv_def server_ok_def traced_def)

end
