(* ===== verification/Request_Properties.thy ===== *)
theory Request_Properties
  imports Server_Correct
begin

text \<open>
  What the commands of the server do, as properties of \<open>do_request\<close>: the refinement of the abstract
  database for one request and for a sequence of requests, and what a client sees from one command
  after another.
\<close>

lemma do_request_ok:
  assumes "implements g s" and "roomy s"
  shows "\<exists>g' s' rep. do_request strtod g now cmd out = Some (g', out @ enc rep) \<and>
    command strtod now s cmd s' rep \<and> implements g' s'"
  using assms do_request_rel [of g _ _ _ s] unfolding implements_def by blast

text \<open>Commands that need no room.\<close>

lemma request_set:
  assumes "implements g s"
  shows "\<exists>g'. do_request strtod g now [ascii ''set'', key, v] out = Some (g', out @ enc (snd (set_spec s key v))) \<and>
    implements g' (fst (set_spec s key v))"
  using assms do_set_rel [of g _ _ _ s "[ascii ''set'', key, v]" out]
  by (simp add: dispatch(2) is_cmd_def implements_def) blast

lemma request_get:
  assumes "implements g s"
  shows "\<exists>g'. do_request strtod g now [ascii ''get'', key] out = Some (g', out @ enc (get_reply s key)) \<and> implements g' s"
  using assms do_get_rel [of g _ _ _ s "[ascii ''get'', key]" out]
  by (simp add: dispatch(1) is_cmd_def implements_def) blast

lemma request_del:
  assumes "implements g s"
  shows "\<exists>g'. do_request strtod g now [ascii ''del'', key] out = Some (g', out @ enc (snd (del_spec s key))) \<and>
    implements g' (fst (del_spec s key))"
  using assms do_del_rel [of g _ _ _ s "[ascii ''del'', key]" out]
  by (simp add: dispatch(3) is_cmd_def implements_def) blast

lemma request_pttl:
  assumes "implements g s"
  shows "\<exists>g'. do_request strtod g now [ascii ''pttl'', key] out = Some (g', out @ enc (ttl_reply s now key)) \<and> implements g' s"
  using assms do_ttl_rel [of g _ _ _ s "[ascii ''pttl'', key]" now out]
  by (simp add: dispatch(10) is_cmd_def implements_def) blast

lemma request_pexpire:
  assumes "implements g s" and "roomy s"
  shows "\<exists>g'. do_request strtod g now [ascii ''pexpire'', key, arg] out =
      Some (g', out @ enc (snd (expire_spec s now key arg))) \<and> implements g' (fst (expire_spec s now key arg))"
  using assms do_expire_rel [of g _ _ _ s "[ascii ''pexpire'', key, arg]" now out]
  by (simp add: dispatch(9) is_cmd_def implements_def roomy_def) blast

lemma request_zadd:
  assumes "implements g s" and "roomy s"
  shows "\<exists>g'. do_request strtod g now [ascii ''zadd'', key, arg, nm] out =
      Some (g', out @ enc (snd (zadd_db strtod s key arg nm))) \<and> implements g' (fst (zadd_db strtod s key arg nm))"
  using assms do_zadd_rel [of g _ _ _ s "[ascii ''zadd'', key, arg, nm]" strtod out]
  by (simp add: dispatch(5) is_cmd_def implements_def) blast

lemma request_zscore:
  assumes "implements g s"
  shows "\<exists>g'. do_request strtod g now [ascii ''zscore'', key, nm] out =
      Some (g', out @ enc (zscore_reply s key nm)) \<and> implements g' s"
  using assms do_zscore_rel [of g _ _ _ s "[ascii ''zscore'', key, nm]" out]
  by (simp add: dispatch(7) is_cmd_def implements_def) blast

lemma request_zquery:
  assumes "implements g s" and cmd: "cmd = [ascii ''zquery'', key, arg, nm, off, lim]"
  shows "\<exists>g' rep. do_request strtod g now cmd out = Some (g', out @ enc rep) \<and>
    is_zquery_reply strtod s cmd rep \<and> implements g' s"
  using assms do_zquery_rel [of g _ _ _ s cmd strtod out]
  by (simp add: dispatch(8) is_cmd_def implements_def) blast

text \<open>The sorted list of the pairs of a set is unique.\<close>

lemma sorted_pairs_unique:
  assumes "sorted_pairs f ps" and "sorted_pairs f qs"
  shows "ps = qs"
proof -
  have so: "sorted (map pair_key xs) \<and> distinct (map pair_key xs)" if "sorted_pairs f xs" for xs
  proof -
    have "sorted_wrt (<) (map pair_key xs)" using that by (simp add: sorted_pairs_def sorted_wrt_map)
    then show ?thesis using strict_sorted_iff by blast
  qed
  have same: "set ps = set qs" using assms by (auto simp: sorted_pairs_def)
  have "inj_on pair_key (set ps \<union> set qs)" using so [OF assms(1)] same by (simp add: distinct_map)
  then show ?thesis using so [OF assms(1)] so [OF assms(2)] same map_sorted_distinct_set_unique by blast
qed

section \<open>A sample database\<close>

text \<open>A string with a timer, and a sorted set of two pairs.\<close>

definition sample_strtod :: strtod where
  "sample_strtod s = (if s = ascii ''1'' then (0x3FF0000000000000, 1)
     else if s = ascii ''2'' then (0x4000000000000000, 1) else (0, 0))"

definition sample_adb :: adb where
  "sample_adb = [ascii ''k'' \<mapsto> (AStr (ascii ''v''), Some 1003),
     ascii ''z'' \<mapsto> (AZset [ascii ''a'' \<mapsto> 0x4000000000000000, ascii ''b'' \<mapsto> 0x3FF0000000000000], None)]"

lemma sample_str2dbl:
  "str2dbl sample_strtod (ascii ''1'') = Some 0x3FF0000000000000"
  "str2dbl sample_strtod (ascii ''2'') = Some 0x4000000000000000"
  by code_simp+

lemma sample_str2int: "str2int (ascii ''1000'') = Some 1000" "str2int (ascii ''0'') = Some 0" "str2int (ascii ''10'') = Some 10"
  by code_simp+

lemma fits_empty: "fits n Map.empty"
  by (simp add: fits_def)

lemma sample_implements: "\<exists>g. implements g sample_adb"
proof -
  let ?k = "ascii ''k''" and ?z = "ascii ''z''"
  let ?s1 = "[?k \<mapsto> (AStr (ascii ''v''), None)] :: adb"
  let ?s2 = "?s1(?k \<mapsto> (AStr (ascii ''v''), Some 1003))"
  let ?s3 = "?s2(?z \<mapsto> (AZset [ascii ''a'' \<mapsto> 0x4000000000000000], None))"
  have k: "?z \<noteq> ?k" "ascii ''a'' \<noteq> ascii ''b''" by (simp_all add: ascii_inj)
  have room: "roomy ?s1" "roomy ?s2" "roomy ?s3"
    by (auto simp: roomy_def no_timer_def avl_max_def card_insert_if split: if_splits)
  obtain g1 where g1: "implements g1 ?s1"
    using request_set [OF implements_init, of undefined 0 ?k "ascii ''v''" "[]"] by (auto simp: set_spec_def)
  obtain g2 where g2: "implements g2 ?s2"
    using request_pexpire [OF g1 room(1), of undefined 3 ?k "ascii ''1000''" "[]"]
    by (auto simp: expire_spec_def sample_str2int)
  obtain g3 where g3: "implements g3 ?s3"
    using request_zadd [OF g2 room(2), of sample_strtod 0 ?z "ascii ''2''" "ascii ''a''" "[]"] k
    by (auto simp: zadd_db_def sample_str2dbl)
  show ?thesis
    using request_zadd [OF g3 room(3), of sample_strtod 0 ?z "ascii ''1''" "ascii ''b''" "[]"] k
    by (auto simp: zadd_db_def sample_str2dbl zadd_spec_def sample_adb_def)
qed

lemma sample_roomy: "roomy sample_adb"
  by (auto simp: sample_adb_def roomy_def no_timer_def avl_max_def card_insert_if split: if_splits)

section \<open>Decimal numbers\<close>

lemma digit_byte: "d < 10 \<Longrightarrow> unat (of_nat (48 + d) :: byte) = 48 + d"
  by (simp add: unat_of_nat del: of_nat_add)

lemma to_string_props:
  "digits_val (to_string n) = int n \<and> list_all isdigit_byte (to_string n) \<and> to_string n \<noteq> []"
proof (induction n rule: to_string.induct)
  case (1 n)
  have dig: "isdigit_byte (of_nat (48 + d))" "uint (of_nat (48 + d) :: byte) = 48 + int d" if "d < 10" for d
    using digit_byte [OF that] that
    by (simp_all add: isdigit_byte_def word_le_nat_alt uint_nat del: of_nat_add)
  show ?case
  proof (cases "n < 10")
    case True
    then show ?thesis using dig [of n] by (subst (1 2 3) to_string.simps) (simp add: digits_val_def del: of_nat_add)
  next
    case False
    have "int (n div 10) * 10 + int (n mod 10) = int n" by (simp add: zdiv_int zmod_int)
    with False show ?thesis using 1 dig [of "n mod 10"]
      by (subst (1 2 3) to_string.simps) (simp add: digits_val_def del: of_nat_add)
  qed
qed

section \<open>Properties\<close>

text \<open>C4. From the empty database, every sequence of fewer than \<open>2\<^sup>3\<^sup>2 - 2\<close> requests runs without a
  failed assertion, a bad pointer or a read out of range, and answers each request with the encoding
  of the reply that the abstract database gives.\<close>

theorem server_refines_map:
  assumes "length rs < avl_max"
  shows "\<exists>g s reps. requests strtod g_data_init rs = Some (g, map enc reps) \<and>
    commands strtod Map.empty rs s reps \<and> implements g s"
  using requests_rel [OF implements_init fits_empty, of 0 rs strtod] assms by simp

theorem server_refines_map_witness:
  "\<exists>g s rep. requests sample_strtod g_data_init [(0, [ascii ''get'', ascii ''k''])] = Some (g, [enc rep]) \<and>
    command sample_strtod 0 Map.empty [ascii ''get'', ascii ''k''] s rep \<and> implements g s"
  using server_refines_map [of "[(0, [ascii ''get'', ascii ''k''])]" sample_strtod]
  by (fastforce simp: avl_max_def commands_simps simp del: requests.simps)

text \<open>C12. One request: on a database that implements the map \<open>s\<close> and has room, \<open>do_request\<close> returns, appends
  the encoding of exactly one reply to the output, and the reply and the new database are those of the
  abstract command.\<close>

theorem do_request_refines:
  assumes "implements g s" and "roomy s"
  shows "\<exists>g' s' rep. do_request strtod g now cmd out = Some (g', out @ enc rep) \<and>
    command strtod now s cmd s' rep \<and> implements g' s'"
  using assms by (rule do_request_ok)

theorem do_request_refines_witness:
  "\<exists>g s rep. do_request sample_strtod g_data_init 0 [ascii ''foo''] [] = Some (g, enc rep) \<and>
    command sample_strtod 0 Map.empty [ascii ''foo''] s rep \<and> implements g s"
  using do_request_refines [OF implements_init fits_roomy [OF fits_empty, of 0],
      of sample_strtod 0 "[ascii ''foo'']" "[]"] by (simp add: avl_max_def)

text \<open>C14. \<open>set\<close> then \<open>get\<close>: unless the key holds a sorted set, \<open>set\<close> answers nil and a later \<open>get\<close> returns the
  value that was set.\<close>

theorem set_then_get:
  assumes "implements g s" and "\<nexists>f t. s key = Some (AZset f, t)"
  shows "\<exists>g1 g2. do_request strtod g now [ascii ''set'', key, v] out = Some (g1, out @ enc RNil) \<and>
    do_request strtod g1 now' [ascii ''get'', key] out' = Some (g2, out' @ enc (RStr v))"
proof -
  have sp: "snd (set_spec s key v) = RNil" "get_reply (fst (set_spec s key v)) key = RStr v"
    using assms(2) by (auto simp: set_spec_def get_reply_def split: option.splits avalue.splits)
  then show ?thesis using request_set [OF assms(1), of strtod now key v out]
      request_get [of _ "fst (set_spec s key v)" strtod now' key out'] by force
qed

theorem set_then_get_witness:
  "\<exists>g g1 g2. implements g sample_adb \<and>
    do_request sample_strtod g 0 [ascii ''set'', ascii ''k'', ascii ''w''] [] = Some (g1, enc RNil) \<and>
    do_request sample_strtod g1 1 [ascii ''get'', ascii ''k''] [] = Some (g2, enc (RStr (ascii ''w'')))"
proof -
  obtain g where g: "implements g sample_adb" using sample_implements by blast
  show ?thesis using g set_then_get [OF g, of "ascii ''k''" sample_strtod 0 "ascii ''w''" "[]" 1 "[]"]
    by (auto simp: sample_adb_def ascii_inj)
qed

text \<open>C15. \<open>zadd\<close> then \<open>zscore\<close>: on a key that is absent or holds a sorted set, \<open>zadd\<close> says whether the name is
  new, and a later \<open>zscore\<close> returns a score that compares equal to the one that was given.\<close>

theorem zadd_then_zscore:
  assumes "implements g s" and "roomy s" and "\<nexists>v t. s key = Some (AStr v, t)"
    and "str2dbl strtod arg = Some sc"
  shows "\<exists>g1 g2 d. do_request strtod g now [ascii ''zadd'', key, arg, nm] out =
      Some (g1, out @ enc (RInt (if \<exists>f t. s key = Some (AZset f, t) \<and> nm \<in> dom f then 0 else 1))) \<and>
    do_request strtod g1 now' [ascii ''zscore'', key, nm] out' = Some (g2, out' @ enc (RDbl d)) \<and> dbl_eq d sc"
proof -
  have nan: "\<not> isnan sc" using assms(4) by (auto simp: str2dbl_def Let_def split: if_splits prod.splits)
  let ?s = "fst (zadd_db strtod s key arg nm)"
  have "snd (zadd_db strtod s key arg nm) = RInt (if \<exists>f t. s key = Some (AZset f, t) \<and> nm \<in> dom f then 0 else 1)"
    using assms(3,4) by (auto simp: zadd_db_def split: option.splits avalue.splits)
  moreover obtain d where "zscore_reply ?s key nm = RDbl d" "dbl_eq d sc"
  proof (cases "s key")
    case None
    then show ?thesis using that [of sc] assms(4) nan by (simp add: zadd_db_def zscore_reply_def dbl_eq_def)
  next
    case (Some p)
    then obtain f t where f: "s key = Some (AZset f, t)" using assms(3) by (cases p; cases "fst p") auto
    show ?thesis
    proof (cases "f nm")
      case None
      then show ?thesis using that [of sc] f assms(4) nan by (simp add: zadd_db_def zscore_reply_def zadd_spec_same dbl_eq_def)
    next
      case (Some old)
      then show ?thesis using that [of "if dbl_eq old sc then old else sc"] f assms(4) nan
        by (auto simp: zadd_db_def zscore_reply_def zadd_spec_same dbl_eq_def)
    qed
  qed
  moreover obtain g1 where g1: "do_request strtod g now [ascii ''zadd'', key, arg, nm] out =
      Some (g1, out @ enc (snd (zadd_db strtod s key arg nm)))" "implements g1 ?s"
    using request_zadd [OF assms(1,2)] by blast
  ultimately show ?thesis using request_zscore [OF g1(2), of strtod now' key nm out'] by fastforce
qed

theorem zadd_then_zscore_witness:
  "\<exists>g g1 g2 d. implements g sample_adb \<and>
    do_request sample_strtod g 0 [ascii ''zadd'', ascii ''z'', ascii ''1'', ascii ''a''] [] = Some (g1, enc (RInt 0)) \<and>
    do_request sample_strtod g1 1 [ascii ''zscore'', ascii ''z'', ascii ''a''] [] = Some (g2, enc (RDbl d)) \<and>
    dbl_eq d 0x3FF0000000000000"
proof -
  obtain g where g: "implements g sample_adb" using sample_implements by blast
  show ?thesis using g zadd_then_zscore [OF g sample_roomy _ sample_str2dbl(1), of "ascii ''z''" 0 "ascii ''a''" "[]" 1 "[]"]
    by (auto simp: sample_adb_def ascii_inj)
qed

text \<open>C16. \<open>pexpire\<close> then \<open>pttl\<close>: on a key that exists, a time to live of \<open>ttl\<close> milliseconds set at \<open>t\<^sub>0\<close> is
  reported at \<open>t\<^sub>1\<close> as \<open>t\<^sub>0 + ttl - t\<^sub>1\<close>, or 0 when that time has passed; a negative one removes the timer,
  reported as -1. The clock is assumed not to be near the end of its 64-bit range.\<close>

theorem pexpire_then_pttl:
  assumes "implements g s" and "roomy s" and "key \<in> dom s" and "str2int arg = Some ttl"
    and "ttl < 0 \<or> uint t0 + ttl < 2 ^ 63" and "t0 \<le> t1"
  shows "\<exists>g1 g2. do_request strtod g t0 [ascii ''pexpire'', key, arg] out = Some (g1, out @ enc (RInt 1)) \<and>
    do_request strtod g1 t1 [ascii ''pttl'', key] out' =
      Some (g2, out' @ enc (RInt (if ttl < 0 then - 1 else max 0 (uint t0 + ttl - uint t1))))"
proof -
  let ?s = "fst (expire_spec s t0 key arg)"
  have "snd (expire_spec s t0 key arg) = RInt 1" using assms(3,4) by (auto simp: expire_spec_def)
  moreover have "ttl_reply ?s t1 key = RInt (if ttl < 0 then - 1 else max 0 (uint t0 + ttl - uint t1))"
  proof (cases "ttl < 0")
    case True
    then show ?thesis using assms(3,4) by (auto simp: expire_spec_def ttl_reply_def)
  next
    case False
    let ?e = "t0 + of_int ttl :: u64"
    have t1: "uint t0 \<le> uint t1" using assms(6) by (simp add: word_le_def)
    have "ttl mod 2 ^ 64 = ttl" "(uint t0 + ttl) mod 2 ^ 64 = uint t0 + ttl"
    proof -
      have "ttl < 2 ^ 63" "0 \<le> ttl" "uint t0 + ttl < 2 ^ 63" "0 \<le> uint t0 + ttl"
        using False assms(5) uint_ge_0 [of t0] by linarith+
      then show "ttl mod 2 ^ 64 = ttl" "(uint t0 + ttl) mod 2 ^ 64 = uint t0 + ttl" by simp_all
    qed
    then have e: "uint ?e = uint t0 + ttl" by (simp add: uint_word_ariths uint_word_of_int)
    have "sint (?e - t1) = uint t0 + ttl - uint t1" if "t1 < ?e"
    proof -
      have "uint (?e - t1) = uint t0 + ttl - uint t1" using less_imp_le [OF that] e by (simp only: uint_minus_simple_alt)
      moreover have "uint (?e - t1) < 2 ^ 63" using calculation assms(5) False uint_ge_0 [of t1] by linarith
      moreover have "0 \<le> uint t0 + ttl - uint t1" using that e by (simp add: word_less_def)
      ultimately show ?thesis using sint_u64_of_int [of "uint (?e - t1)"] by simp
    qed
    then show ?thesis using False assms(3,4) e
      by (auto simp: expire_spec_def ttl_reply_def word_less_def)
  qed
  moreover obtain g1 where g1: "do_request strtod g t0 [ascii ''pexpire'', key, arg] out =
      Some (g1, out @ enc (snd (expire_spec s t0 key arg)))" "implements g1 ?s"
    using request_pexpire [OF assms(1,2)] by blast
  ultimately show ?thesis using request_pttl [OF g1(2), of strtod t1 key out'] by auto
qed

theorem pexpire_then_pttl_witness:
  "\<exists>g g1 g2. implements g sample_adb \<and>
    do_request sample_strtod g 50 [ascii ''pexpire'', ascii ''k'', ascii ''1000''] [] = Some (g1, enc (RInt 1)) \<and>
    do_request sample_strtod g1 70 [ascii ''pttl'', ascii ''k''] [] = Some (g2, enc (RInt 980))"
proof -
  obtain g where g: "implements g sample_adb" using sample_implements by blast
  show ?thesis using g pexpire_then_pttl [OF g sample_roomy _ sample_str2int(1), of "ascii ''k''" 50 70 sample_strtod "[]" "[]"]
    by (auto simp: sample_adb_def)
qed

text \<open>C17. \<open>zquery\<close> on a sorted set: the reply lists name and score of the pairs from the first one that is not
  before (score, name) moved by \<open>offset\<close> ranks, as long as fewer than \<open>limit\<close> items are listed, in order; it
  is empty when the rank is outside the set.\<close>

theorem zquery_lists_window:
  assumes "implements g s" and "s key = Some (AZset f, t)" and "sorted_pairs f ps"
    and "str2dbl strtod arg = Some sc" and "str2int off = Some offset" and "str2int lim = Some limit"
  shows "\<exists>g'. do_request strtod g now [ascii ''zquery'', key, arg, nm, off, lim] out =
    Some (g', out @ enc (RArr (pair_replies (zquery_window ps sc nm offset limit)))) \<and> implements g' s"
proof -
  let ?cmd = "[ascii ''zquery'', key, arg, nm, off, lim]"
  obtain g' rep where r: "do_request strtod g now ?cmd out = Some (g', out @ enc rep)"
    "is_zquery_reply strtod s ?cmd rep" "implements g' s" using request_zquery [OF assms(1) refl] by blast
  then obtain qs where qs: "sorted_pairs f qs" "rep = RArr (pair_replies (zquery_window qs sc nm offset limit))"
    using assms(2,4-6) by (auto simp: is_zquery_reply_def)
  then show ?thesis using r sorted_pairs_unique [OF assms(3) qs(1)] by blast
qed

theorem zquery_lists_window_witness:
  "\<exists>g g'. implements g sample_adb \<and>
    do_request sample_strtod g 0 [ascii ''zquery'', ascii ''z'', ascii ''1'', [], ascii ''0'', ascii ''10''] [] =
    Some (g', enc (RArr [RStr (ascii ''b''), RDbl 0x3FF0000000000000, RStr (ascii ''a''), RDbl 0x4000000000000000]))"
proof -
  obtain g where g: "implements g sample_adb" using sample_implements by blast
  let ?f = "[ascii ''a'' \<mapsto> 0x4000000000000000, ascii ''b'' \<mapsto> 0x3FF0000000000000] :: bytes \<rightharpoonup> u64"
  let ?ps = "[(0x3FF0000000000000, ascii ''b''), (0x4000000000000000, ascii ''a'')]"
  have so: "sorted_pairs ?f ?ps"
    by (auto simp: sorted_pairs_def pair_key_def sample_numbers less_prod_def ascii_inj split: if_splits)
  have w: "zquery_window ?ps 0x3FF0000000000000 [] 0 10 = ?ps"
    by (simp add: zquery_window_def pair_key_def sample_numbers less_prod_def)
  show ?thesis using g zquery_lists_window [OF g _ so sample_str2dbl(1) sample_str2int(2,3), of "ascii ''z''" None 0 "[]" "[]"]
    unfolding w by (auto simp: sample_adb_def ascii_inj pair_replies_def)
qed

text \<open>The error that a command must answer with, on a database that holds \<open>s\<close>: first for bad arguments, then for a key
  that holds the wrong kind of value.\<close>

definition holds_string :: "adb \<Rightarrow> bytes \<Rightarrow> bool" where
  "holds_string s key \<longleftrightarrow> (case s key of Some (AStr _, _) \<Rightarrow> True | _ \<Rightarrow> False)"

definition holds_zset :: "adb \<Rightarrow> bytes \<Rightarrow> bool" where
  "holds_zset s key \<longleftrightarrow> (case s key of Some (AZset _, _) \<Rightarrow> True | _ \<Rightarrow> False)"

definition error_code :: "strtod \<Rightarrow> adb \<Rightarrow> bytes list \<Rightarrow> u32 option" where
  "error_code strtod s cmd =
     (if is_cmd cmd 2 ''get'' \<or> is_cmd cmd 3 ''set'' then (if holds_zset s (cmd ! 1) then Some ERR_BAD_TYP else None)
      else if is_cmd cmd 4 ''zadd'' then
        (if str2dbl strtod (cmd ! 2) = None then Some ERR_BAD_ARG
         else if holds_string s (cmd ! 1) then Some ERR_BAD_TYP else None)
      else if is_cmd cmd 3 ''zrem'' \<or> is_cmd cmd 3 ''zscore'' then (if holds_string s (cmd ! 1) then Some ERR_BAD_TYP else None)
      else if is_cmd cmd 6 ''zquery'' then
        (if str2dbl strtod (cmd ! 2) = None \<or> str2int (cmd ! 4) = None \<or> str2int (cmd ! 5) = None then Some ERR_BAD_ARG
         else if holds_string s (cmd ! 1) then Some ERR_BAD_TYP else None)
      else if is_cmd cmd 3 ''pexpire'' then (if str2int (cmd ! 2) = None then Some ERR_BAD_ARG else None)
      else if known cmd then None
      else Some ERR_UNKNOWN)"

lemma command_error:
  assumes "command strtod now s cmd s' rep"
  shows "case error_code strtod s cmd of
    Some code \<Rightarrow> s' = s \<and> (\<exists>m. rep = RErr code m) | None \<Rightarrow> \<forall>code m. rep \<noteq> RErr code m"
  using assms
proof cases
  case (unknown)
  then show ?thesis by (auto simp: error_code_def known_def)
qed (auto simp: error_code_def is_cmd_def ascii_inj known_def holds_string_def holds_zset_def get_reply_def set_spec_def
  del_spec_def is_keys_reply_def zadd_db_def zrem_db_def zscore_reply_def is_zquery_reply_def expect_zset_err_def
  expire_spec_def ttl_reply_def split: option.splits avalue.splits prod.splits)

text \<open>C18. Errors, exactly. A request is answered with an error if and only if it is unknown or has the wrong number of
  arguments, has an argument that is not the number it should be, or names a key that holds the wrong kind of value
  (\<open>get\<close> and \<open>set\<close> a sorted set; \<open>zadd\<close>, \<open>zrem\<close>, \<open>zscore\<close> and \<open>zquery\<close> a string); the code of the error is the one for that
  case, and a request that fails leaves the database as it was.\<close>

theorem errors_exact:
  assumes "implements g s" and "roomy s"
  shows "\<exists>g' s' rep. do_request strtod g now cmd out = Some (g', out @ enc rep) \<and> implements g' s' \<and>
    (case error_code strtod s cmd of
       Some code \<Rightarrow> s' = s \<and> (\<exists>m. rep = RErr code m)
     | None \<Rightarrow> \<forall>code m. rep \<noteq> RErr code m)"
  using do_request_ok [OF assms] command_error by blast

theorem errors_exact_witness:
  "\<exists>g g' m. implements g sample_adb \<and>
    do_request sample_strtod g 0 [ascii ''zadd'', ascii ''k'', ascii ''1'', ascii ''a''] [] = Some (g', enc (RErr ERR_BAD_TYP m)) \<and>
    implements g' sample_adb"
proof -
  obtain g where g: "implements g sample_adb" using sample_implements by blast
  have "error_code sample_strtod sample_adb [ascii ''zadd'', ascii ''k'', ascii ''1'', ascii ''a''] = Some ERR_BAD_TYP"
    by (simp add: error_code_def is_cmd_def ascii_inj sample_str2dbl holds_string_def sample_adb_def)
  then show ?thesis
    using g errors_exact [OF g sample_roomy, of sample_strtod 0 "[ascii ''zadd'', ascii ''k'', ascii ''1'', ascii ''a'']" "[]"]
    by auto
qed

text \<open>C19. \<open>del\<close> removes the key and its timer, whatever it holds: it says whether the key was there, a later
  \<open>get\<close> answers nil and a later \<open>pttl\<close> answers -2, and \<open>keys\<close> lists every other key once.\<close>

theorem del_removes:
  assumes "implements g s"
  shows "\<exists>g1 g2 g3 g4 ks. do_request strtod g t [ascii ''del'', key] out =
      Some (g1, out @ enc (RInt (if key \<in> dom s then 1 else 0))) \<and>
    do_request strtod g1 t1 [ascii ''get'', key] out = Some (g2, out @ enc RNil) \<and>
    do_request strtod g2 t2 [ascii ''pttl'', key] out = Some (g3, out @ enc (RInt (- 2))) \<and>
    do_request strtod g3 t3 [ascii ''keys''] out = Some (g4, out @ enc (RArr (map RStr ks))) \<and>
    distinct ks \<and> set ks = dom s - {key}"
proof -
  let ?s = "s(key := None)"
  obtain g1 where g1: "do_request strtod g t [ascii ''del'', key] out =
      Some (g1, out @ enc (RInt (if key \<in> dom s then 1 else 0)))" "implements g1 ?s"
  proof -
    have "snd (del_spec s key) = RInt (if key \<in> dom s then 1 else 0)" "fst (del_spec s key) = ?s"
      by (auto simp: del_spec_def)
    then show ?thesis using that request_del [OF assms, of strtod t key out] by auto
  qed
  obtain g2 where g2: "do_request strtod g1 t1 [ascii ''get'', key] out = Some (g2, out @ enc RNil)" "implements g2 ?s"
    using request_get [OF g1(2), of strtod t1 key out] by (auto simp: get_reply_def)
  obtain g3 where g3: "do_request strtod g2 t2 [ascii ''pttl'', key] out = Some (g3, out @ enc (RInt (- 2)))"
    "implements g3 ?s"
    using request_pttl [OF g2(2), of strtod t2 key out] by (auto simp: ttl_reply_def)
  obtain A Z T where "srv_rel g3 A Z T ?s" using g3(2) by (auto simp: implements_def)
  from do_keys_rel [OF this, of out] obtain ks where
    "do_keys g3 out = Some (g3, out @ enc (RArr (map RStr ks)))" "distinct ks" "set ks = dom s - {key}"
    by (auto simp: is_keys_reply_def)
  then show ?thesis using g1(1) g2(1) g3(1) by (fastforce simp: dispatch(4) is_cmd_def simp del: enc.simps)
qed

theorem del_removes_witness:
  "\<exists>g g1. implements g sample_adb \<and>
    do_request sample_strtod g 0 [ascii ''del'', ascii ''z''] [] = Some (g1, enc (RInt 1))"
proof -
  obtain g where g: "implements g sample_adb" using sample_implements by blast
  show ?thesis using g del_removes [OF g, of sample_strtod 0 "ascii ''z''" "[]" 0 0 0]
    by (auto simp: sample_adb_def simp del: enc.simps)
qed

text \<open>\<open>str2int\<close> reads back the decimal representation of every 64-bit integer.\<close>

theorem str2int_decimal:
  assumes "- (2 ^ 63) \<le> v" and "v < 2 ^ 63"
  shows "str2int (show_int v) = Some v"
proof -
  have nosp: "\<not> isspace_byte b" "b \<noteq> 43" "b \<noteq> 45" if "isdigit_byte b" for b
    using that by (auto simp: isdigit_byte_def isspace_byte_def word_le_nat_alt)
  have digits: "takeWhile isspace_byte (to_string n) = []" "takeWhile isdigit_byte (to_string n) = to_string n"
    "hd (to_string n) \<noteq> 43" "hd (to_string n) \<noteq> 45" for n
  proof -
    obtain d ds where d: "to_string n = d # ds" using to_string_props [of n] by (cases "to_string n") auto
    then have "isdigit_byte d" using to_string_props [of n] by simp
    then show "takeWhile isspace_byte (to_string n) = []" "hd (to_string n) \<noteq> 43" "hd (to_string n) \<noteq> 45"
      using d nosp by auto
    show "takeWhile isdigit_byte (to_string n) = to_string n" using to_string_props [of n] by (simp add: list_all_iff)
  qed
  have minus: "\<not> isspace_byte 45" by (simp add: isspace_byte_def)
  have "clamp_i64 v = v" using assms by (simp add: clamp_i64_def)
  moreover have "digits_val (to_string n) = int n" "to_string n \<noteq> []" for n using to_string_props [of n] by simp_all
  ultimately show ?thesis
    by (simp add: str2int_def strtoll_def show_int_def Let_def minus digits del: takeWhile_eq_all_conv)
qed

theorem str2int_decimal_witness: "str2int (show_int (- 120)) = Some (- 120)"
  by (rule str2int_decimal) simp_all

text \<open>\<open>str2int\<close> also accepts the empty string, as 0, and numbers out of range, as the nearest one in range.\<close>

theorem str2int_lenient:
  "str2int [] = Some 0 \<and> str2int (ascii ''9223372036854775808'') = Some (2 ^ 63 - 1)"
  by code_simp

end
