(* ===== verification/Loop_Properties.thy ===== *)
theory Loop_Properties
  imports Main_Loop_Correct Request_Properties
begin

text \<open>
  Properties of the connections, the timers and the event loop, with a sample run in which a client
  connects and sends requests.
\<close>

section \<open>A sample run\<close>

definition sample_s0 :: server where
  "sample_s0 = the server_init"

text \<open>A client connects and gets descriptor 5.\<close>

definition sample_wk1 :: wakeup where
  "sample_wk1 = \<lparr>wk_timer_clock = 0, wk_poll = Woken POLLIN [], wk_accept = Accept_fd 5 (Some 2) True, wk_accept_clock = 10,
     wk_end_clock = 11\<rparr>"

definition outcome_server :: "server outcome option \<Rightarrow> server" where
  "outcome_server r = (case r of Some (Running s) \<Rightarrow> s | _ \<Rightarrow> sample_s0)"

definition sample_s1 :: server where
  "sample_s1 = outcome_server (iteration sample_strtod sample_s0 sample_wk1)"

text \<open>It sends two requests and the first bytes of a third in one segment; the socket takes six bytes back.\<close>

definition sample_in :: bytes where
  "sample_in = framed (enc_cmd [ascii ''get'', ascii ''k'']) @ framed (enc_cmd [ascii ''foo'']) @ [9, 0]"

definition sample_io :: conn_io where
  "sample_io = \<lparr>io_ready = POLLIN, io_clock = 20, io_req_clock = (\<lambda>_. 20), io_read = Read_bytes sample_in,
     io_read_write = Write_upto 6, io_write = Write_again\<rparr>"

definition sample_wk2 :: wakeup where
  "sample_wk2 = \<lparr>wk_timer_clock = 12, wk_poll = Woken 0 [sample_io], wk_accept = Accept_error, wk_accept_clock = 0,
     wk_end_clock = 21\<rparr>"

lemma sample_server1:
  "conns sample_s1 1 = Some \<lparr>cfd = 5, want_read = True, want_write = False, want_close = False, incoming = [],
     outgoing = [], last_active_ms = 10\<rparr>"
  "fd2conn sample_s1 = [None, None, None, None, None, Some 1]"
  by code_simp+

lemma sample_init: "server_init = Some sample_s0" "server_ok sample_s0 [] Map.empty 0" "conns sample_s0 = Map.empty"
proof -
  obtain s where s: "server_init = Some s" "server_ok s [] Map.empty 0" "conns s = Map.empty"
    using server_init_ok by blast
  have "sample_s0 = s" unfolding sample_s0_def s(1) by simp
  then show "server_init = Some sample_s0" "server_ok sample_s0 [] Map.empty 0" "conns sample_s0 = Map.empty"
    using s by simp_all
qed

lemma sample_reachable0: "reachable sample_strtod sample_s0 0 []"
  by (rule reachable.start [of True True True]) (simp add: server_start_def sample_init(1))

text \<open>A wake-up in which no call raises the signal, and \<open>accept\<close> and \<open>poll\<close> succeed, does not end the process.\<close>

lemma wakeup_lives:
  assumes "wk_poll wk = Woken lis ios" and "lis = 0 \<or> \<not> accept_dies (wk_accept wk)"
    and "\<forall>io \<in> set ios. io_read_write io \<noteq> Write_sigpipe \<and> io_write io \<noteq> Write_sigpipe"
  shows "\<not> wakeup_dies s wk"
proof -
  have "\<not> work_breaks cs (zip fds ios)" for cs fds
    using assms(3) by (auto simp: work_breaks_def conn_breaks_def read_breaks_def dest: set_zip_rightD)
  then show ?thesis using assms(1,2) by (auto simp: wakeup_dies_def split: option.split)
qed

lemma sample_kernel1: "kernel_ok sample_s0 sample_wk1" "wk_bytes sample_wk1 = 0" "traffic sample_strtod sample_s0 sample_wk1 = []"
proof -
  have "poll_conns (conns sample_s0) (fd2conn sample_s0) = Some []" by code_simp
  then show "kernel_ok sample_s0 sample_wk1" "wk_bytes sample_wk1 = 0" "traffic sample_strtod sample_s0 sample_wk1 = []"
    using sample_init(3) by (simp_all add: kernel_ok_def sample_wk1_def fresh_fd_def wk_bytes_def traffic_def split: option.split outcome.split)
qed

lemma reachable_step:
  assumes "reachable strtod s b tr" and "kernel_ok s wk" and "b + wk_bytes wk < avl_max" and "\<not> wakeup_dies s wk"
  shows "\<exists>s'. iteration strtod s wk = Some (Running s') \<and> reachable strtod s' (b + wk_bytes wk) (tr @ traffic strtod s wk)"
  using iteration_ok [OF reachable_inv [OF assms(1)] assms(2,3)] assms(4) reachable.step [OF assms(1-3)] by blast

lemma sample_reachable1: "reachable sample_strtod sample_s1 0 []"
proof -
  have "\<not> wakeup_dies sample_s0 sample_wk1"
    by (rule wakeup_lives [of _ POLLIN "[]"]) (simp_all add: sample_wk1_def accept_dies_def)
  from reachable_step [OF sample_reachable0 sample_kernel1(1) _ this] show ?thesis
    by (auto simp: sample_kernel1(2,3) avl_max_def sample_s1_def outcome_server_def)
qed

lemma sample_kernel2: "kernel_ok sample_s1 sample_wk2" "wk_bytes sample_wk2 = length sample_in"
  "wire_in 1 (traffic sample_strtod sample_s1 sample_wk2) = sample_in"
proof -
  have "poll_conns (conns sample_s1) (fd2conn sample_s1) = Some [(5, POLLERR OR POLLIN)]"
    using sample_server1(1) by (simp add: sample_server1(2) poll_events_def)
  moreover have "poll_reports (POLLERR OR POLLIN) POLLIN" by code_simp
  ultimately show "kernel_ok sample_s1 sample_wk2" "wk_bytes sample_wk2 = length sample_in"
    "wire_in 1 (traffic sample_strtod sample_s1 sample_wk2) = sample_in"
    by (simp_all add: kernel_ok_def sample_wk2_def fresh_fd_def wk_bytes_def sample_io_def read_bytes_def traffic_def
        fd_at_def sample_server1(2) conn_read_def POLLIN_def split: option.split outcome.split)
qed

lemma sample_lives2: "\<not> wakeup_dies s sample_wk2"
  by (rule wakeup_lives [of _ 0 "[sample_io]"]) (simp_all add: sample_wk2_def sample_io_def)

section \<open>Reading\<close>

text \<open>The connection after \<open>handle_read\<close>, with the requests in its input and the replies to them.\<close>

definition after_reading :: "conn \<Rightarrow> read_res \<Rightarrow> write_res \<Rightarrow> bytes \<Rightarrow> bool \<Rightarrow> reply list \<Rightarrow> conn" where
  "after_reading c r w rest bad reps = (
     let unsent = drop (case w of Write_upto k \<Rightarrow> k | _ \<Rightarrow> 0) (responses reps)
     in c\<lparr>want_read := unsent = [], want_write := unsent \<noteq> [],
          want_close := bad \<or> r = Read_error \<or> r = Read_bytes [] \<or> reps \<noteq> [] \<and> w = Write_error,
          incoming := rest, outgoing := unsent\<rparr>)"

lemma conn_upd_same: "want_read c \<Longrightarrow> \<not> want_write c \<Longrightarrow> outgoing c = [] \<Longrightarrow>
    c\<lparr>want_read := True, want_write := False, want_close := b, incoming := i, outgoing := []\<rparr> = c\<lparr>incoming := i, want_close := b\<rparr>"
  by (cases c) simp

lemma handle_read_exact:
  assumes fl: "flags_ok c" "outgoing c = []" "\<not> want_close c" and i: "implements g s" and n: "fits n s"
    and q: "requests_of (incoming c @ read_bytes r) = (cmds, rest, bad)" and room: "n + length cmds < avl_max"
  shows "\<exists>g' s' reps. commands strtod s (zip (map clk [0..<length cmds]) cmds) s' reps \<and> implements g' s' \<and>
    handle_read strtod clk r w g c =
      Some (if cmds \<noteq> [] \<and> w = Write_sigpipe then Died else Running (g', after_reading c r w rest bad reps)) \<and>
    read_sent strtod clk r w g c = taken w (responses reps)"
proof (cases "\<exists>bs. r = Read_bytes bs \<and> bs \<noteq> []")
  case False
  then have rb: "read_bytes r = []" by (auto simp: read_bytes_def split: read_res.splits)
  then have "cmds = []" "rest = incoming c" "bad = False" using q fl by (simp_all add: flags_ok_def)
  moreover have "want_read c" "\<not> want_write c" using fl by (simp_all add: flags_ok_def)
  then have "c\<lparr>want_read := True, want_write := False, want_close := b, incoming := incoming c, outgoing := []\<rparr> = c\<lparr>want_close := b\<rparr>" for b
    using fl(2) by (cases c) simp
  moreover have "c\<lparr>want_close := False\<rparr> = c" using fl(3) by (cases c) simp
  moreover have "read_sent strtod clk r w g c = taken w (responses [])"
    by (cases w) (simp_all add: read_sent_def rb taken_def)
  ultimately show ?thesis using False i
    by (intro exI [of _ g] exI [of _ s] exI [of _ "[]"])
      (cases r; simp add: handle_read_def after_reading_def commands.none)
next
  case True
  then obtain bs where r: "r = Read_bytes bs" "bs \<noteq> []" by blast
  obtain g' s' reps where v: "serve_requests strtod clk 0 g (c\<lparr>incoming := incoming c @ bs\<rparr>) =
      Some (g', c\<lparr>incoming := rest, outgoing := responses reps, want_close := bad\<rparr>)"
    "commands strtod s (zip (map clk [0..<length cmds]) cmds) s' reps" "implements g' s'"
    using serve_requests_rel [of "c\<lparr>incoming := incoming c @ bs\<rparr>" cmds rest bad g s n strtod clk 0] q i n room fl(2,3) r
    by (auto simp: read_bytes_def)
  have e: "reps = [] \<longleftrightarrow> cmds = []"
    using v(2) by (cases cmds) (auto simp: commands_simps upt_conv_Cons simp del: upt_Suc)
  have "want_read c" "\<not> want_write c" using fl by (simp_all add: flags_ok_def)
  then have c: "c\<lparr>want_read := True, want_write := False, want_close := b, incoming := rest, outgoing := []\<rparr> =
      c\<lparr>incoming := rest, outgoing := [], want_close := b\<rparr>" for b by (cases c) simp
  have "handle_read strtod clk r w g c =
      Some (if cmds \<noteq> [] \<and> w = Write_sigpipe then Died else Running (g', after_reading c r w rest bad reps))"
  proof (cases "reps = []")
    case True
    then show ?thesis using v(1) r e c by (simp add: handle_read_def buf_append_def after_reading_def)
  next
    case False
    then have "responses reps \<noteq> []" by (simp add: responses_Nil)
    then show ?thesis using v(1) r e False
      by (cases w) (auto simp: handle_read_def handle_write_def buf_append_def buf_consume_def after_reading_def Let_def min_def)
  qed
  moreover have "read_sent strtod clk r w g c = taken w (responses reps)"
    using v(1) r by (simp add: read_sent_def read_bytes_def buf_append_def)
  ultimately show ?thesis using v(2,3) by blast
qed

section \<open>Reading in pieces\<close>

text \<open>The bytes of a connection arrive in pieces, each with the times that its requests read.\<close>

fun feed :: "strtod \<Rightarrow> gdata \<Rightarrow> conn \<Rightarrow> ((nat \<Rightarrow> u64) \<times> bytes) list \<Rightarrow> (gdata \<times> conn) option" where
  "feed strtod g c [] = Some (g, c)"
| "feed strtod g c ((clk, bs) # ps) = do {
     (g, c) \<leftarrow> serve_requests strtod clk 0 g (c\<lparr>incoming := buf_append (incoming c) bs\<rparr>);
     feed strtod g c ps }"

lemma feed_rel:
  assumes "requests_of (incoming c @ concat (map snd ps)) = (cmds, rest, False)" and "requests_of (incoming c) = ([], incoming c, False)"
    and "implements g s" and "fits n s" and "n + length cmds < avl_max"
  shows "\<exists>g' s' reps ts. feed strtod g c ps = Some (g', c\<lparr>incoming := rest,
      outgoing := outgoing c @ responses reps\<rparr>) \<and> length ts = length cmds \<and>
    commands strtod s (zip ts cmds) s' reps \<and> implements g' s'"
  using assms
proof (induction ps arbitrary: c g s n cmds)
  case Nil
  then show ?case by (auto intro!: exI [of _ "[]"] commands.none)
next
  case (Cons p ps)
  obtain clk bs where p: "p = (clk, bs)" by fastforce
  obtain cmds1 rest1 bad1 where q1: "requests_of (incoming c @ bs) = (cmds1, rest1, bad1)"
    by (cases "requests_of (incoming c @ bs)") auto
  have "requests_of ((incoming c @ bs) @ concat (map snd ps)) = (cmds, rest, False)" using Cons.prems(1) p by simp
  then obtain cmds2 where q2: "\<not> bad1" "requests_of (rest1 @ concat (map snd ps)) = (cmds2, rest, False)" "cmds = cmds1 @ cmds2"
    unfolding requests_of_append [OF q1] by (auto split: if_splits prod.splits)
  have q3: "requests_of rest1 = ([], rest1, False)"
    using requests_of_rest [OF q1] q2(1) by simp
  obtain g1 s1 reps1 where v: "serve_requests strtod clk 0 g (c\<lparr>incoming := incoming c @ bs\<rparr>) =
      Some (g1, c\<lparr>incoming := rest1, outgoing := outgoing c @ responses reps1\<rparr>)"
    "commands strtod s (zip (map clk [0..<length cmds1]) cmds1) s1 reps1" "implements g1 s1"
    using serve_requests_rel [of "c\<lparr>incoming := incoming c @ bs\<rparr>" cmds1 rest1 bad1 g s n strtod clk 0] q1 q2(1,3) Cons.prems(3-5)
    by auto
  let ?c = "c\<lparr>incoming := rest1, outgoing := outgoing c @ responses reps1\<rparr>"
  have "fits (n + length cmds1) s1" using commands_fits [OF v(2) Cons.prems(4)] by simp
  from Cons.IH [of ?c cmds2 g1 s1, OF _ _ v(3) this] obtain g' s' reps2 ts2 where
    w: "feed strtod g1 ?c ps = Some (g', c\<lparr>incoming := rest, outgoing := outgoing c @ responses (reps1 @ reps2)\<rparr>)"
      "length ts2 = length cmds2" "commands strtod s1 (zip ts2 cmds2) s' reps2" "implements g' s'"
    using q2(2,3) q3 Cons.prems(5) by auto
  have "commands strtod s (zip (map clk [0..<length cmds1] @ ts2) cmds) s' (reps1 @ reps2)"
    using commands_append [OF v(2) w(3)] q2(3) by simp
  moreover have "feed strtod g c (p # ps) = Some (g', c\<lparr>incoming := rest, outgoing := outgoing c @ responses (reps1 @ reps2)\<rparr>)"
    using v(1) w(1) p by (simp add: buf_append_def)
  ultimately show ?case using w(2,4) q2(3)
    by (intro exI [of _ g'] exI [of _ s'] exI [of _ "reps1 @ reps2"] exI [of _ "map clk [0..<length cmds1] @ ts2"]) simp
qed

text \<open>
  The calls that the event loop makes for one connection, with what happens on its socket: it reads only when the
  connection waits to read and writes only when it waits to write. The result has the bytes that the socket took.
\<close>

datatype conn_call = Readable "nat \<Rightarrow> u64" bytes write_res | Writable write_res

fun drive :: "strtod \<Rightarrow> gdata \<Rightarrow> conn \<Rightarrow> conn_call list \<Rightarrow> (gdata \<times> conn \<times> bytes) option" where
  "drive strtod g c [] = Some (g, c, [])"
| "drive strtod g c (Readable clk bs w # es) = do {
     require (want_read c);
     h \<leftarrow> handle_read strtod clk (Read_bytes bs) w g c;
     case h of
       Died \<Rightarrow> None
     | Running (g', c') \<Rightarrow> do {
         (g2, c2, out) \<leftarrow> drive strtod g' c' es;
         Some (g2, c2, read_sent strtod clk (Read_bytes bs) w g c @ out) } }"
| "drive strtod g c (Writable w # es) = do {
     require (want_write c);
     h \<leftarrow> handle_write w c;
     case h of
       Died \<Rightarrow> None
     | Running c' \<Rightarrow> do {
         (g2, c2, out) \<leftarrow> drive strtod g c' es;
         Some (g2, c2, taken w (outgoing c) @ out) } }"

text \<open>The socket is open: \<open>write\<close> takes some bytes, or none for now.\<close>

definition socket_open :: "write_res \<Rightarrow> bool" where
  "socket_open w \<longleftrightarrow> w \<noteq> Write_error \<and> w \<noteq> Write_sigpipe"

lemma socket_open_taken: "socket_open w \<Longrightarrow> taken w out @ drop (case w of Write_upto k \<Rightarrow> k | _ \<Rightarrow> 0) out = out"
  by (cases w) (simp_all add: socket_open_def taken_def)

text \<open>The connection with a number of bytes left to write.\<close>

definition with_output :: "conn \<Rightarrow> bytes \<Rightarrow> conn" where
  "with_output c out = c\<lparr>want_read := out = [], want_write := out \<noteq> [], incoming := [], outgoing := out\<rparr>"

text \<open>One request arrives in pieces.\<close>

lemma drive_request:
  assumes "flags_ok c" and "outgoing c = []" and "\<not> want_close c"
    and "requests_of (incoming c @ concat (map (\<lambda>(clk, bs, w). bs) ps)) = ([cmd], [], False)"
    and "\<forall>(clk, bs, w) \<in> set ps. bs \<noteq> [] \<and> socket_open w"
    and "implements g s" and "fits n s" and "n + 1 < avl_max"
  shows "\<exists>g' s' rep t sent unsent. drive strtod g c (map (\<lambda>(clk, bs, w). Readable clk bs w) ps) = Some (g', with_output c unsent, sent) \<and>
    sent @ unsent = frame (enc rep) \<and> command strtod t s cmd s' rep \<and> implements g' s'"
  using assms
proof (induction ps arbitrary: c g)
  case Nil
  then show ?case by (simp add: flags_ok_def)
next
  case (Cons p ps)
  obtain clk bs w where p: "p = (clk, bs, w)" by (cases p)
  let ?more = "concat (map (\<lambda>(clk, bs, w). bs) ps)"
  obtain cmds1 rest1 bad1 where q1: "requests_of (incoming c @ bs) = (cmds1, rest1, bad1)"
    by (cases "requests_of (incoming c @ bs)") auto
  have "requests_of ((incoming c @ bs) @ ?more) = ([cmd], [], False)" using Cons.prems(4) p by simp
  then obtain cmds2 where q2: "\<not> bad1" "requests_of (rest1 @ ?more) = (cmds2, [], False)" "[cmd] = cmds1 @ cmds2"
    unfolding requests_of_append [OF q1] by (auto split: if_splits prod.splits)
  have bs: "bs \<noteq> []" and w: "socket_open w" using Cons.prems(5) p by auto
  have "requests_of (incoming c @ read_bytes (Read_bytes bs)) = (cmds1, rest1, bad1)" using q1 by (simp add: read_bytes_def)
  moreover have "n + length cmds1 < avl_max" using Cons.prems(8) q2(3) by (cases cmds1) auto
  ultimately obtain g1 s1 reps where h: "commands strtod s (zip (map clk [0..<length cmds1]) cmds1) s1 reps" "implements g1 s1"
    "handle_read strtod clk (Read_bytes bs) w g c = Some (Running (g1, after_reading c (Read_bytes bs) w rest1 bad1 reps))"
    "read_sent strtod clk (Read_bytes bs) w g c = taken w (responses reps)"
    using handle_read_exact [OF Cons.prems(1-3,6,7), of "Read_bytes bs" cmds1 rest1 bad1 strtod clk w] w by (auto simp: socket_open_def)
  have wr: "want_read c" "\<not> want_write c" using Cons.prems(1,2) by (simp_all add: flags_ok_def)
  show ?case
  proof (cases cmds1)
    case Nil
    then have reps: "reps = []" "s1 = s" using h(1) by (simp_all add: commands_simps)
    let ?c = "c\<lparr>incoming := rest1\<rparr>"
    have c: "after_reading c (Read_bytes bs) w rest1 bad1 reps = ?c"
      using wr Cons.prems(2,3) q2(1) bs reps(1) by (cases c) (simp add: after_reading_def)
    have "taken w (responses reps) = []" using reps(1) by (cases w) (simp_all add: taken_def)
    moreover have "flags_ok ?c" using Cons.prems(1-3) requests_of_rest [OF q1] q2(1) by (simp add: flags_ok_def)
    moreover have "requests_of (incoming ?c @ ?more) = ([cmd], [], False)" using q2(2,3) Nil by simp
    moreover have "with_output ?c u = with_output c u" for u by (cases c) (simp add: with_output_def)
    moreover have "\<forall>(clk, bs, w) \<in> set ps. bs \<noteq> [] \<and> socket_open w" using Cons.prems(5) by simp
    ultimately show ?thesis
      using Cons.IH [of ?c g1] Cons.prems(2,3,7,8) h(2,3,4) c p wr(1) reps(2) by auto
  next
    case (Cons d ds)
    then have d: "cmds1 = [cmd]" "cmds2 = []" using q2(3) by auto
    have more: "rest1 = []" "?more = []" using requests_of_Nil_cmds [OF q2(2) [unfolded d(2)]] by auto
    then have ps: "ps = []" using \<open>\<forall>(clk, bs, w) \<in> set (p # ps). bs \<noteq> [] \<and> socket_open w\<close> by (cases ps) auto
    obtain rep where rep: "reps = [rep]" "command strtod (clk 0) s cmd s1 rep" using h(1) d(1) by (auto simp: commands_simps)
    let ?unsent = "drop (case w of Write_upto k \<Rightarrow> k | _ \<Rightarrow> 0) (responses reps)"
    have "after_reading c (Read_bytes bs) w rest1 bad1 reps = with_output c ?unsent"
      using \<open>\<not> want_close c\<close> q2(1) bs w more(1)
      by (cases c) (auto simp: after_reading_def with_output_def socket_open_def Let_def)
    then have "drive strtod g c (map (\<lambda>(clk, bs, w). Readable clk bs w) (p # ps)) = Some (g1, with_output c ?unsent, taken w (responses reps))"
      using h(3,4) wr(1) p ps by simp
    then show ?thesis using socket_open_taken [OF w, of "responses reps"] rep h(2) by fastforce
  qed
qed

lemma drive_append:
  assumes "drive strtod g c es = Some (g1, c1, out1)" and "drive strtod g1 c1 es' = Some (g2, c2, out2)"
  shows "drive strtod g c (es @ es') = Some (g2, c2, out1 @ out2)"
  using assms
proof (induction es arbitrary: g c out1)
  case (Cons e es)
  then show ?case by (cases e) (auto split: bind_splits outcome.splits)
qed simp

lemma drive_writes:
  assumes "0 \<notin> set ks" and "sum_list ks = length (outgoing c)" and "outgoing c \<noteq> []" and "want_write c"
  shows "drive strtod g c (map (\<lambda>k. Writable (Write_upto k)) ks) =
    Some (g, c\<lparr>want_read := True, want_write := False, outgoing := []\<rparr>, outgoing c)"
  using assms
proof (induction ks arbitrary: c)
  case (Cons k ks)
  let ?c = "c\<lparr>outgoing := drop k (outgoing c)\<rparr>"
  show ?case
  proof (cases "k = length (outgoing c)")
    case True
    then have "ks = []" using Cons.prems(1,2) by (cases ks) auto
    moreover have "c\<lparr>outgoing := [], want_read := True, want_write := False\<rparr> = c\<lparr>want_read := True, want_write := False, outgoing := []\<rparr>"
      by (cases c) simp
    ultimately show ?thesis using Cons.prems True
      by (simp add: handle_write_def buf_consume_def taken_def Let_def)
  next
    case False
    then have k: "k < length (outgoing c)" using Cons.prems(2) by simp
    have "drive strtod g ?c (map (\<lambda>k. Writable (Write_upto k)) ks) =
        Some (g, ?c\<lparr>want_read := True, want_write := False, outgoing := []\<rparr>, outgoing ?c)"
      using Cons.prems k by (intro Cons.IH) auto
    moreover have "?c\<lparr>want_read := True, want_write := False, outgoing := []\<rparr> = c\<lparr>want_read := True, want_write := False, outgoing := []\<rparr>"
      by (cases c) simp
    ultimately show ?thesis using Cons.prems k
      by (simp add: handle_write_def buf_consume_def taken_def Let_def min_def)
  qed
qed simp

section \<open>Iterations without events\<close>

text \<open>A wake-up without events on a connection only moves it to the end of the idle list.\<close>

lemma handle_conn_quiet:
  assumes ok: "conns_ok s xs" and a: "conns s a = Some c" and q: "io_ready io = 0"
  shows "\<exists>s'. handle_conn strtod s (cfd c) io = Some (Running s') \<and> conns_ok s' (remove1 a xs @ [a]) \<and> gd s' = gd s \<and>
    conns s' = (conns s)(a \<mapsto> c\<lparr>last_active_ms := io_clock io\<rparr>)"
proof -
  have r: "ring (idle s) idle_list xs" and d: "dom (conns s) = set xs" and b: "\<forall>a \<in> set xs. a < cbrk s"
    and z: "idle_list < cbrk s" and f: "fds_ok (fd2conn s) (conns s)"
    and fl: "\<forall>a c. conns s a = Some c \<longrightarrow> flags_ok c \<and> \<not> want_close c" using ok by (auto simp: conns_ok_def)
  have ax: "a \<in> set xs" using a d by auto
  obtain l1 l where l: "dlist_detach (idle s) a = Some l1" "dlist_insert_before l1 idle_list a = Some l"
    "ring l idle_list (remove1 a xs @ [a])" using idle.move_to_end [OF r ax] by blast
  let ?c = "c\<lparr>last_active_ms := io_clock io\<rparr>"
  let ?s = "s\<lparr>gd := gd s, conns := (conns s)(a \<mapsto> ?c), idle := l\<rparr>"
  have "handle_conn strtod s (cfd c) io = Some (Running ?s)"
    using fd_at_Some [OF fds_okD [OF f a]] a l(1,2) q fl by (simp add: handle_conn_def Let_def)
  moreover have "conns_ok ?s (remove1 a xs @ [a])"
    using l(3) d b z fds_ok_upd [OF f a, of ?c] fl a ax r by (auto simp: conns_ok_def flags_ok_def ring_def)
  ultimately show ?thesis by (intro exI [of _ ?s]) simp
qed

definition stamped :: "(nat \<times> conn_io) list \<Rightarrow> conn \<Rightarrow> conn \<Rightarrow> bool" where
  "stamped w c c' \<longleftrightarrow> cfd c' = cfd c \<and>
     (if cfd c \<in> fst ` set w then \<exists>io. (cfd c, io) \<in> set w \<and> last_active_ms c' = io_clock io else c' = c)"

lemma handle_conns_quiet:
  assumes "conns_ok s xs" and "work_ok (conns s) w" and "\<forall>(fd, io) \<in> set w. io_ready io = 0"
  shows "\<exists>s' ys. handle_conns strtod s w = Some (Running s') \<and> conns_ok s' ys \<and> gd s' = gd s \<and> dom (conns s') = dom (conns s) \<and>
    (\<forall>a c c'. conns s a = Some c \<longrightarrow> conns s' a = Some c' \<longrightarrow> stamped w c c')"
  using assms
proof (induction w arbitrary: s xs)
  case Nil
  then show ?case by (auto simp: stamped_def)
next
  case (Cons p w)
  obtain fd io where p: "p = (fd, io)" by fastforce
  obtain a c where a: "conns s a = Some c" "cfd c = fd" using Cons.prems(2) p by (auto simp: work_ok_def)
  have q: "io_ready io = 0" using Cons.prems(3) p by simp
  obtain s1 where s1: "handle_conn strtod s fd io = Some (Running s1)" "conns_ok s1 (remove1 a xs @ [a])" "gd s1 = gd s"
    "conns s1 = (conns s)(a \<mapsto> c\<lparr>last_active_ms := io_clock io\<rparr>)"
    using handle_conn_quiet [OF Cons.prems(1) a(1) q] a(2) by blast
  have fresh: "fd \<notin> fst ` set w" using Cons.prems(2) p by (auto simp: work_ok_def)
  have ev: "poll_events (c\<lparr>last_active_ms := t\<rparr>) = poll_events c" for t by (simp add: poll_events_def)
  have "work_ok (conns s1) w"
  proof -
    have "\<exists>b d. conns s1 b = Some d \<and> cfd d = fd' \<and> poll_reports (poll_events d) (io_ready io')"
      if w: "(fd', io') \<in> set w" for fd' io'
    proof -
      obtain b d where b: "conns s b = Some d" "cfd d = fd'" "poll_reports (poll_events d) (io_ready io')"
        using Cons.prems(2) w by (fastforce simp: work_ok_def)
      then have "b \<noteq> a" using a fresh w by force
      then show ?thesis using b s1(4) by (intro exI [of _ b] exI [of _ d]) simp
    qed
    then show ?thesis using Cons.prems(2) by (auto simp: work_ok_def)
  qed
  moreover have "\<forall>(fd, io) \<in> set w. io_ready io = 0" using Cons.prems(3) by simp
  ultimately obtain s' ys where
    s': "handle_conns strtod s1 w = Some (Running s')" "conns_ok s' ys" "gd s' = gd s1" "dom (conns s') = dom (conns s1)"
      "\<And>a c c'. conns s1 a = Some c \<Longrightarrow> conns s' a = Some c' \<Longrightarrow> stamped w c c'"
    using Cons.IH [OF s1(2)] by blast
  have "stamped (p # w) d d'"
    if d: "conns s b = Some d" "conns s' b = Some d'" for b d d'
  proof (cases "b = a")
    case True
    then have "d' = c\<lparr>last_active_ms := io_clock io\<rparr>"
      using s'(5) [of a "c\<lparr>last_active_ms := io_clock io\<rparr>" d'] s1(4) d a fresh True by (auto simp: stamped_def)
    then show ?thesis using True d a p by (auto simp: stamped_def)
  next
    case False
    have f: "fds_ok (fd2conn s) (conns s)" using Cons.prems(1) by (simp add: conns_ok_def)
    have "cfd d \<noteq> fd" using fds_okD [OF f a(1)] fds_okD [OF f d(1)] a(2) False by auto
    then show ?thesis using s'(5) [of b d d'] s1(4) d False p by (auto simp: stamped_def)
  qed
  then show ?case using s1 s' p a by (intro exI [of _ s'] exI [of _ ys]) auto
qed

section \<open>Properties\<close>



text \<open>A client can end the server: it sends a request and resets the connection before the reply is written.\<close>

definition sample_reset :: wakeup where
  "sample_reset = sample_wk2\<lparr>wk_poll := Woken 0 [sample_io\<lparr>io_read_write := Write_sigpipe\<rparr>]\<rparr>"

theorem reset_ends_server: "iteration sample_strtod sample_s1 sample_reset = Some Died"
proof -
  have "map_option (\<lambda>h. case h of Died \<Rightarrow> True | Running s \<Rightarrow> False) (iteration sample_strtod sample_s1 sample_reset) = Some True"
    by code_simp
  then obtain h where "iteration sample_strtod sample_s1 sample_reset = Some h" "case h of Died \<Rightarrow> True | Running s \<Rightarrow> False" by auto
  then show ?thesis by (cases h) simp_all
qed

text \<open>C7. Everything in memory has the type that the code takes it for: an entry is either a string, without a
  set, or a sorted set that is well formed, never of type \<open>T_INIT\<close>; exactly the entries have a \<open>heap_idx\<close>; every
  item of the heap points to the \<open>heap_idx\<close> of an entry that is allocated, which holds the position of the item.\<close>

theorem entries_typed:
  assumes "reachable strtod s b tr"
  shows "(\<forall>a e. ents (gd s) a = Some e \<longrightarrow> entry_typed (gd s) e) \<and> dom (idx (gd s)) = dom (ents (gd s)) \<and>
    (\<forall>i < length (theap (gd s)). href (theap (gd s) ! i) \<in> dom (ents (gd s)) \<and>
      idx (gd s) (href (theap (gd s) ! i)) = Some i)"
proof -
  obtain log ad where "implements (gd s) ad" using reachable_sessions [OF assms] by metis
  from implements_typed [OF this] show ?thesis by blast
qed

theorem entries_typed_witness:
  "reachable sample_strtod sample_s1 0 [] \<and> dom (idx (gd sample_s1)) = dom (ents (gd sample_s1))"
  using entries_typed [OF sample_reachable1] sample_reachable1 by blast

text \<open>C8. Nothing leaks: in every reachable state, with \<open>ad\<close> the database that the history of requests and expiries
  gives, there is one allocated entry for each key and no other, the index counts them, the heap holds one
  item for each key that has a time to live, and the nodes that are allocated are as many as the pairs of all sorted sets.\<close>

theorem no_leaks:
  assumes "reachable strtod s b tr"
  shows "\<exists>log ad. history strtod Map.empty log ad \<and> implements (gd s) ad \<and> finite (dom ad) \<and>
    bij_betw (\<lambda>a. ekey (the (ents (gd s) a))) (dom (ents (gd s))) (dom ad) \<and>
    hm_size (db (gd s)) = card (dom ad) \<and> length (theap (gd s)) = card {k. \<exists>v t. ad k = Some (v, Some t)} \<and>
    card (dom (zdat (zm (gd s)))) = (\<Sum>k \<in> dom ad. value_nodes (fst (the (ad k))))"
proof -
  obtain log ad where "history strtod Map.empty log ad" "implements (gd s) ad" using reachable_sessions [OF assms] by metis
  with implements_allocated [OF this(2)] show ?thesis by blast
qed

theorem no_leaks_witness:
  "\<exists>log ad. history sample_strtod Map.empty log ad \<and> hm_size (db (gd sample_s1)) = card (dom ad)"
  using no_leaks [OF sample_reachable1] by blast

text \<open>C6. The invariant of the event loop: in every reachable state the idle list holds exactly the open
  connections, each is found under its descriptor and no other descriptor is occupied, it waits to write
  exactly when it has output and to read exactly when it has none, no complete request waits in its input
  buffer, none is marked for closing, and the database implements some map.\<close>

theorem loop_invariant:
  assumes "reachable strtod s b tr"
  shows "\<exists>xs ad. ring (idle s) idle_list xs \<and> set xs = dom (conns s) \<and> implements (gd s) ad \<and>
    (\<forall>i a. fd_at (fd2conn s) i = Some a \<longleftrightarrow> map_option cfd (conns s a) = Some i) \<and>
    (\<forall>c \<in> ran (conns s). (want_read c \<longleftrightarrow> outgoing c = []) \<and> (want_write c \<longleftrightarrow> outgoing c \<noteq> []) \<and> \<not> want_close c \<and>
      requests_of (incoming c) = ([], incoming c, False))"
proof -
  obtain xs ad n where "server_ok s xs ad n" using reachable_server [OF assms] .
  then show ?thesis
    by (intro exI [of _ xs] exI [of _ ad]) (auto simp: server_ok_def conns_ok_def fds_ok_def flags_ok_def ran_def)
qed

theorem loop_invariant_witness:
  "\<exists>xs. ring (idle sample_s1) idle_list xs \<and> set xs = dom (conns sample_s1) \<and> conns sample_s1 1 \<noteq> None"
  using loop_invariant [OF sample_reachable1] sample_server1(1) by auto

text \<open>C2. What clients see. In every reachable state there is one history of the database, a sequence of
  requests and expiries from the empty map to the map that the database now implements, such that for each
  connection, open or closed, the requests of that history are exactly the complete requests of the bytes
  received on it, in order, and the bytes sent on it are the first bytes of the framed replies, in order. While
  the connection is open the rest of both is in its buffers: no request and no reply is lost or repeated.\<close>

theorem connections_linearize:
  assumes "reachable strtod s b tr"
  shows "\<exists>log ad. history strtod Map.empty log ad \<and> implements (gd s) ad \<and>
    (\<forall>a. cmds_of a log = fst (requests_of (wire_in a tr)) \<and> (\<exists>rest. responses (reps_of a log) = wire_out a tr @ rest)) \<and>
    (\<forall>a c. conns s a = Some c \<longrightarrow> requests_of (wire_in a tr) = (cmds_of a log, incoming c, False) \<and>
      responses (reps_of a log) = wire_out a tr @ outgoing c)"
proof -
  obtain log ad where "history strtod Map.empty log ad" "implements (gd s) ad"
    "\<forall>a. session (conns s a) (wire_in a tr) (wire_out a tr) (cmds_of a log) (reps_of a log)"
    using reachable_sessions [OF assms] .
  then show ?thesis unfolding session_def by (intro exI [of _ log] exI [of _ ad]) simp
qed

theorem connections_linearize_witness:
  "\<exists>s log ad. iteration sample_strtod sample_s1 sample_wk2 = Some (Running s) \<and> history sample_strtod Map.empty log ad \<and>
    implements (gd s) ad \<and> cmds_of 1 log = [[ascii ''get'', ascii ''k''], [ascii ''foo'']]"
proof -
  have "0 + wk_bytes sample_wk2 < avl_max" unfolding sample_kernel2(2) by code_simp
  from reachable_step [OF sample_reachable1 sample_kernel2(1) this] obtain s where
    s: "iteration sample_strtod sample_s1 sample_wk2 = Some (Running s)"
      "reachable sample_strtod s (0 + wk_bytes sample_wk2) ([] @ traffic sample_strtod sample_s1 sample_wk2)"
    using sample_lives2 by auto
  have "requests_of sample_in = ([[ascii ''get'', ascii ''k''], [ascii ''foo'']], [9, 0], False)" by code_simp
  then have "fst (requests_of (wire_in 1 ([] @ traffic sample_strtod sample_s1 sample_wk2))) = [[ascii ''get'', ascii ''k''], [ascii ''foo'']]"
    using sample_kernel2(3) by simp
  then show ?thesis using connections_linearize [OF s(2)] s(1) by metis
qed

text \<open>C9. Pipelining: a client's requests are answered in order, one framed reply each, and all of them, however
  the stream of bytes is cut into pieces by the network; nothing is left in the input buffer and the
  connection stays open.\<close>

theorem pipelined_requests:
  assumes "implements g s" and "fits n s" and "n + length cmds < avl_max"
    and "list_all (\<lambda>cmd. cmd_ok cmd \<and> length (enc_cmd cmd) \<le> k_max_msg) cmds"
    and "concat (map snd ps) = messages cmds"
    and "incoming c = []"
  shows "\<exists>g' s' reps ts. feed strtod g c ps =
      Some (g', c\<lparr>incoming := [], outgoing := outgoing c @ responses reps\<rparr>) \<and>
    length ts = length cmds \<and> commands strtod s (zip ts cmds) s' reps \<and> implements g' s'"
proof -
  have nil: "requests_of [] = ([], [], False)" by (simp add: requests_of.simps)
  have "requests_of (messages cmds @ []) = (cmds @ [], [], False)"
    using assms(4) nil by (intro requests_of_msgs) (auto simp: list_all_iff)
  then show ?thesis using feed_rel [of c ps cmds "[]" g s n strtod] assms nil by auto
qed

theorem pipelined_requests_witness:
  "\<exists>g c rep. feed sample_strtod g_data_init \<lparr>cfd = 5, want_read = True, want_write = False, want_close = False,
      incoming = [], outgoing = [], last_active_ms = 0\<rparr>
     [(\<lambda>_. 1, [11, 0]), (\<lambda>_. 2, [0, 0, 1, 0, 0, 0, 3, 0, 0]), (\<lambda>_. 3, [0, 102, 111, 111])] = Some (g, c) \<and>
    outgoing c = frame (enc rep) \<and> incoming c = []"
proof -
  let ?c = "\<lparr>cfd = 5, want_read = True, want_write = False, want_close = False,
      incoming = [], outgoing = [], last_active_ms = 0\<rparr>"
  let ?ps = "[(\<lambda>_. 1, [11, 0]), (\<lambda>_. 2, [0, 0, 1, 0, 0, 0, 3, 0, 0]), (\<lambda>_. 3, [0, 102, 111, 111])]"
  have "list_all (\<lambda>cmd. cmd_ok cmd \<and> length (enc_cmd cmd) \<le> k_max_msg) [[ascii ''foo'']]"
    "concat (map snd ?ps) = messages [[ascii ''foo'']]" by code_simp+
  moreover have "0 + length [[ascii ''foo'']] < avl_max" by (simp add: avl_max_def)
  ultimately obtain g s reps ts where f: "feed sample_strtod g_data_init ?c ?ps =
      Some (g, ?c\<lparr>incoming := [], outgoing := outgoing ?c @ responses reps\<rparr>)"
    "length ts = length [[ascii ''foo'']]" "commands sample_strtod Map.empty (zip ts [[ascii ''foo'']]) s reps"
    using pipelined_requests [OF implements_init fits_empty, of 0 "[[ascii ''foo'']]" ?ps ?c sample_strtod] by auto
  then obtain rep where "reps = [rep]" by (cases ts) (auto simp: commands_simps)
  then show ?thesis using f(1) by (auto simp del: feed.simps)
qed

text \<open>C10. One call of \<open>handle_read\<close>, whatever \<open>read\<close> and \<open>write\<close> return. With new bytes it executes exactly the complete
  requests at the front of the input, in order, and keeps the rest of the input; what is left of their replies
  after the socket took its share is in the output buffer, and the connection then waits to write if there is
  something left and to read if not. It marks the connection for closing exactly when a message is too long or
  malformed, when reading fails, at the end of the stream, or when writing the replies fails; if the peer has
  reset the connection, writing the replies ends the process. If nothing can be read now, nothing changes.\<close>

theorem handle_read_replies:
  assumes "flags_ok c" and "outgoing c = []" and "\<not> want_close c" and "implements g s" and "fits n s"
    and "requests_of (incoming c @ read_bytes r) = (cmds, rest, bad)" and "n + length cmds < avl_max"
  shows "\<exists>g' s' reps. commands strtod s (zip (map clk [0..<length cmds]) cmds) s' reps \<and> implements g' s' \<and>
    handle_read strtod clk r w g c = Some (
      let unsent = drop (case w of Write_upto k \<Rightarrow> k | _ \<Rightarrow> 0) (responses reps)
      in if cmds \<noteq> [] \<and> w = Write_sigpipe then Died
         else Running (g', c\<lparr>want_read := unsent = [], want_write := unsent \<noteq> [],
           want_close := bad \<or> r = Read_error \<or> r = Read_bytes [] \<or> reps \<noteq> [] \<and> w = Write_error,
           incoming := rest, outgoing := unsent\<rparr>))"
  using handle_read_exact [OF assms, of strtod clk w] unfolding after_reading_def Let_def by metis

theorem handle_read_replies_witness:
  "\<exists>g c rep1 rep2. handle_read sample_strtod (\<lambda>_. 20) (Read_bytes sample_in) (Write_upto 6) (gd sample_s1)
      (the (conns sample_s1 1)) = Some (Running (g, c)) \<and>
    incoming c = [9, 0] \<and> outgoing c = drop 6 (responses [rep1, rep2]) \<and> \<not> want_close c"
proof -
  obtain xs ad n where sv: "server_ok sample_s1 xs ad n" "n + pending (conns sample_s1) \<le> 0"
    using reachable_server [OF sample_reachable1] .
  then have i: "implements (gd sample_s1) ad" "fits n ad" and n: "n = 0" by (simp_all add: server_ok_def)
  let ?c = "the (conns sample_s1 1)"
  have c: "flags_ok ?c" "outgoing ?c = []" "\<not> want_close ?c"
    using sample_server1(1) by (simp_all add: flags_ok_def requests_of.simps)
  have "requests_of sample_in = ([[ascii ''get'', ascii ''k''], [ascii ''foo'']], [9, 0], False)" by code_simp
  then have q: "requests_of (incoming ?c @ read_bytes (Read_bytes sample_in)) = ([[ascii ''get'', ascii ''k''], [ascii ''foo'']], [9, 0], False)"
    using sample_server1(1) by (simp add: read_bytes_def)
  have ne: "sample_in \<noteq> []" by code_simp
  have "n + length [[ascii ''get'', ascii ''k''], [ascii ''foo'']] < avl_max" by (simp add: avl_max_def n)
  from handle_read_replies [OF c i q this, of sample_strtod "\<lambda>_. 20" "Write_upto 6"] obtain g' s' reps where
    h: "commands sample_strtod ad [(20, [ascii ''get'', ascii ''k'']), (20, [ascii ''foo''])] s' reps"
    "handle_read sample_strtod (\<lambda>_. 20) (Read_bytes sample_in) (Write_upto 6) (gd sample_s1) ?c =
      Some (Running (g', ?c\<lparr>want_read := drop 6 (responses reps) = [], want_write := drop 6 (responses reps) \<noteq> [],
        want_close := False, incoming := [9, 0], outgoing := drop 6 (responses reps)\<rparr>))"
    using ne by (auto simp: Let_def)
  from h(1) obtain rep1 rep2 where "reps = [rep1, rep2]" by (auto simp: commands_simps)
  then show ?thesis using h(2) by (intro exI [of _ g'] exI [of _ "?c\<lparr>want_read := drop 6 (responses reps) = [],
      want_write := drop 6 (responses reps) \<noteq> [], want_close := False, incoming := [9, 0],
      outgoing := drop 6 (responses reps)\<rparr>"] exI [of _ rep1] exI [of _ rep2]) simp
qed

text \<open>C11. \<open>process_timers\<close> returns; it removes from the database keys that are due, as many as there are but at most
  2001, and the earliest ones; the other keys and all values are unchanged. It closes the connections at
  the front of the idle list that are too old, and no other.\<close>

theorem process_timers_correct:
  assumes "conns_ok s xs" and "implements (gd s) ad"
  shows "\<exists>s' K. process_timers s now = Some s' \<and>
    K \<subseteq> due now ad \<and> card K = min 2001 (card (due now ad)) \<and>
    (\<forall>k \<in> K. \<forall>k' \<in> due now ad - K. expiry ad k \<le> expiry ad k') \<and> implements (gd s') (ad |` (- K)) \<and>
    conns_ok s' (dropWhile (too_old s now) xs) \<and> conns s' = conns s |` set (dropWhile (too_old s now) xs)"
proof -
  have "Suc k_max_works = 2001" by (simp add: k_max_works_def)
  with process_timers_rel [OF assms, of now] obtain s' K where "process_timers s now = Some s'" "first_due now 2001 ad K"
    "implements (gd s') (ad |` (- K))" "conns_ok s' (dropWhile (too_old s now) xs)"
    "conns s' = conns s |` set (dropWhile (too_old s now) xs)" by auto
  then show ?thesis unfolding first_due_def by blast
qed

theorem process_timers_correct_witness:
  "\<exists>s s'. implements (gd s) sample_adb \<and> process_timers s 2000 = Some s' \<and>
    implements (gd s') (sample_adb |` (- {ascii ''k''}))"
proof -
  obtain g where g: "implements g sample_adb" using sample_implements by blast
  let ?s = "sample_s0\<lparr>gd := g\<rparr>"
  have "conns_ok sample_s0 []" using sample_init(2) by (simp add: server_ok_def)
  then have "conns_ok ?s []" by simp
  moreover have due: "due 2000 sample_adb = {ascii ''k''}" by (auto simp: due_def sample_adb_def ascii_inj split: if_splits)
  ultimately obtain s' K where s': "process_timers ?s 2000 = Some s'" "K \<subseteq> {ascii ''k''}" "card K = 1"
    "implements (gd s') (sample_adb |` (- K))" using process_timers_correct [of ?s "[]" sample_adb 2000] g by auto
  moreover have "K = {ascii ''k''}" using s'(2,3) by (auto dest: subset_singletonD)
  ultimately show ?thesis using g by (intro exI [of _ ?s] exI [of _ s']) simp
qed

text \<open>C24. A connection on which nothing happens is never closed for being idle. When the loop wakes up without any
  event, as it does when the time of the oldest connection is over, it first stamps every connection as
  active, so \<open>process_timers\<close> closes none of them, no matter how long they have been idle.\<close>

theorem idle_connections_survive:
  assumes "reachable strtod s b tr" and "kernel_ok s wk" and "wk_poll wk = Woken 0 ios"
    and "list_all (\<lambda>io. io_ready io = 0 \<and> wk_end_clock wk < io_clock io + k_idle_timeout_ms) ios"
  shows "\<exists>s'. iteration strtod s wk = Some (Running s') \<and> dom (conns s') = dom (conns s)"
proof -
  obtain xs ad n where ok: "server_ok s xs ad n" using reachable_server [OF assms(1)] .
  then have c: "conns_ok s xs" and i: "implements (gd s) ad" by (auto simp: server_ok_def)
  obtain args where args: "poll_conns (conns s) (fd2conn s) = Some args"
    "\<And>fd ev. (fd, ev) \<in> set args \<longleftrightarrow> (\<exists>a c. conns s a = Some c \<and> cfd c = fd \<and> ev = poll_events c)"
    using poll_conns_ok [OF c] by blast
  obtain t where t: "next_timer_ms s (wk_timer_clock wk) = Some t" using next_timer_ms_eq [OF c i] by blast
  have r: "list_all2 (\<lambda>(fd, ev) io. poll_reports ev (io_ready io)) args ios"
    using assms(2,3) args(1) by (simp add: kernel_ok_def)
  let ?w = "zip (map fst args) ios"
  have w: "work_ok (conns s) ?w" using work_ok_zip [OF c args(1) r] by blast
  have sets: "io \<in> set ios" if "(fd, io) \<in> set ?w" for fd io using that by (rule set_zip_rightD)
  then have "\<forall>(fd, io) \<in> set ?w. io_ready io = 0" using assms(4) by (auto simp: list_all_iff)
  from handle_conns_quiet [OF c w this] obtain s1 ys where
    s1: "handle_conns strtod s ?w = Some (Running s1)" "conns_ok s1 ys" "gd s1 = gd s" "dom (conns s1) = dom (conns s)"
      "\<And>a c c'. conns s a = Some c \<Longrightarrow> conns s1 a = Some c' \<Longrightarrow> stamped ?w c c'" by blast
  have all: "cfd c \<in> fst ` set ?w" if "conns s a = Some c" for a c
  proof -
    have "cfd c \<in> fst ` set args" using args(2) that by force
    moreover have "map fst ?w = map fst args" using list_all2_lengthD [OF r] by simp
    ultimately show ?thesis by (metis list.set_map)
  qed
  have "\<not> too_old s1 (wk_end_clock wk) a" if "a \<in> set ys" for a
  proof -
    have "a \<in> dom (conns s1)" "a \<in> dom (conns s)" using that s1(2,4) by (auto simp: conns_ok_def)
    then obtain c c' where cc: "conns s a = Some c" "conns s1 a = Some c'" by blast
    then obtain io where "(cfd c, io) \<in> set ?w" "last_active_ms c' = io_clock io" using s1(5) [OF cc] all [OF cc(1)] by (auto simp: stamped_def)
    then show ?thesis using cc(2) sets assms(4) by (fastforce simp: too_old_def list_all_iff not_le)
  qed
  then have dw: "dropWhile (too_old s1 (wk_end_clock wk)) ys = ys" by (cases ys) auto
  obtain s' where s': "process_timers s1 (wk_end_clock wk) = Some s'" "conns s' = conns s1 |` set ys"
    using process_timers_rel [OF s1(2), of ad "wk_end_clock wk"] i s1(3) unfolding dw by auto
  have "iteration strtod s wk = Some (Running s')" using args(1) t assms(3) s1(1) s'(1) by (simp add: iteration_def)
  moreover have "dom (conns s') = dom (conns s)" using s'(2) s1(2,4) by (simp add: conns_ok_def)
  ultimately show ?thesis by blast
qed

definition sample_quiet :: wakeup where
  "sample_quiet = \<lparr>wk_timer_clock = 100000, wk_poll = Woken 0 [\<lparr>io_ready = 0, io_clock = 100000, io_req_clock = (\<lambda>_. 0),
      io_read = Read_again, io_read_write = Write_again, io_write = Write_again\<rparr>],
     wk_accept = Accept_error, wk_accept_clock = 0, wk_end_clock = 100001\<rparr>"

theorem idle_connections_survive_witness:
  "\<exists>s'. iteration sample_strtod sample_s1 sample_quiet = Some (Running s') \<and> conns s' 1 \<noteq> None \<and>
    last_active_ms (the (conns sample_s1 1)) + k_idle_timeout_ms < 100000"
proof -
  have "poll_conns (conns sample_s1) (fd2conn sample_s1) = Some [(5, POLLERR OR POLLIN)]"
    using sample_server1(1) by (simp add: sample_server1(2) poll_events_def)
  then have "kernel_ok sample_s1 sample_quiet"
    by (simp add: kernel_ok_def sample_quiet_def fresh_fd_def poll_reports_def)
  moreover have "wk_poll sample_quiet = Woken 0 [\<lparr>io_ready = 0, io_clock = 100000, io_req_clock = (\<lambda>_. 0),
      io_read = Read_again, io_read_write = Write_again, io_write = Write_again\<rparr>]" by (simp add: sample_quiet_def)
  ultimately have "\<exists>s'. iteration sample_strtod sample_s1 sample_quiet = Some (Running s') \<and>
      dom (conns s') = dom (conns sample_s1)"
    by (rule idle_connections_survive [OF sample_reachable1]) (simp add: sample_quiet_def k_idle_timeout_ms_def)
  moreover have "1 \<in> dom (conns sample_s1)" using sample_server1(1) by blast
  ultimately show ?thesis using sample_server1(1) by (auto simp: k_idle_timeout_ms_def)
qed

text \<open>The timeout of \<open>poll\<close>: -1 when there is no timer; 0 when the first deadline, of the oldest connection or of
  the earliest key, has passed; otherwise the time until it, if that is less than \<open>2\<^sup>3\<^sup>1\<close> milliseconds.\<close>

theorem next_timer_ms_correct:
  assumes "conns_ok s xs" and "implements (gd s) ad" and "is_first (deadlines s xs ad) d"
    and "d = - 1 \<or> d \<le> now \<or> unat (d - now) < 2 ^ 31"
  shows "\<exists>w. next_timer_ms s now = Some w \<and> sint w = (if d = - 1 then - 1 else if d \<le> now then 0 else uint d - uint now)"
proof -
  obtain d' where d': "is_first (deadlines s xs ad) d'"
    "next_timer_ms s now = Some (if d' = - 1 then - 1 else if d' \<le> now then 0 else ucast (d' - now))"
    using next_timer_ms_eq [OF assms(1,2)] by blast
  have "d' = d" using d'(1) assms(3) unfolding is_first_def by (metis order_antisym)
  moreover have "sint (ucast (d - now) :: u32) = uint d - uint now" if "d \<noteq> - 1" "\<not> d \<le> now"
  proof -
    have "now \<le> d" using that(2) by simp
    then have "uint (d - now) = uint d - uint now" by (simp only: uint_minus_simple_alt)
    moreover have "ucast (d - now) = (of_nat (unat (d - now)) :: u32)" by (simp add: word_eq_iff_unsigned unat_of_nat unsigned_ucast_eq)
    ultimately show ?thesis using sint_u32_small [of "unat (d - now)"] assms(4) that by simp
  qed
  ultimately show ?thesis using d'(2) by auto
qed

theorem next_timer_ms_correct_witness:
  "\<exists>s w. implements (gd s) sample_adb \<and> next_timer_ms s 3 = Some w \<and> sint w = 1000"
proof -
  obtain g where g: "implements g sample_adb" using sample_implements by blast
  let ?s = "sample_s0\<lparr>gd := g\<rparr>"
  have "conns_ok ?s []" using sample_init(2) by (simp add: server_ok_def)
  moreover have "deadlines ?s [] sample_adb = {1003}"
    by (auto simp: deadlines_def sample_adb_def ascii_inj split: if_splits)
  then have "is_first (deadlines ?s [] sample_adb) 1003" by (simp add: is_first_def)
  ultimately obtain w where "next_timer_ms ?s 3 = Some w" "sint w = 1000"
    using next_timer_ms_correct [of ?s "[]" sample_adb 1003 3] g by auto
  then show ?thesis using g by (intro exI [of _ ?s] exI [of _ w]) simp
qed

text \<open>The timeout is truncated to 32 bits: with no connection open and a key that expires in \<open>2\<^sup>3\<^sup>1\<close>
  milliseconds (about 25 days), the value passed to \<open>poll\<close> is negative, which means to wait without limit.\<close>

theorem next_timer_ms_truncated:
  "map_option sint (next_timer_ms (sample_s0\<lparr>gd := g_data_init\<lparr>theap := [\<lparr>hval = 2 ^ 31 + 7, href = 0\<rparr>]\<rparr>\<rparr>) 7) =
     Some (- (2 ^ 31))"
  by code_simp

text \<open>The fallback of \<open>process_timers\<close> for a timer whose key is not in the index does not work: it sets the entry's
  heap index to -1 first, so that \<open>entry_del\<close> leaves the timer in the heap, and the loop follows its
  dangling reference. The invariant keeps the branch from being taken.\<close>

theorem ghost_timer_fallback_fails:
  assumes "theap g = item # items" and "hval item < now" and "db_nodes g (href item) = Some n"
    and "hm_delete (db_nodes g) (db g) (hcode n) (hnode_same (href item)) = Some (hs, h, None)"
  shows "expire_keys g now w = None"
proof -
  let ?a = "href item"
  have dead: "expire_keys g' now w = None" if "theap g' = item # items" "db_nodes g' ?a = None" for g'
    using that assms(2) by (subst expire_keys.simps) simp
  have "theap g' = theap g1 \<and> db_nodes g' ?a = None" if "entry_del g1 ?a = Some g'" "idx g1 ?a = Some no_timer" for g1 g'
    using that by (auto simp: entry_del_def split: bind_splits if_splits prod.splits)
  then have "expire_keys g' now w = None"
    if "modify (idx g) ?a (\<lambda>_. no_timer) = Some rs" "entry_del (g\<lparr>db_nodes := hs, db := h, idx := rs\<rparr>) ?a = Some g'" for rs g'
    using that assms(1) dead by (fastforce simp: modify_eq_Some)
  then show ?thesis using assms
    by (subst expire_keys.simps) (auto simp: Let_def split: bind_splits)
qed

theorem ghost_timer_fallback_fails_witness:
  "expire_keys (g_data_init\<lparr>theap := [\<lparr>hval = 1, href = 0\<rparr>], idx := [0 \<mapsto> 0], db_nodes := [0 \<mapsto> \<lparr>hnext = None, hcode = 9\<rparr>],
     ents := [0 \<mapsto> \<lparr>ekey = [], etype = T_STR, estr = [], ezset = zset_empty\<rparr>]\<rparr>) 5 0 = None"
proof -
  let ?g = "g_data_init\<lparr>theap := [\<lparr>hval = 1, href = 0\<rparr>], idx := [0 \<mapsto> 0], db_nodes := [0 \<mapsto> \<lparr>hnext = None, hcode = 9\<rparr>],
     ents := [0 \<mapsto> \<lparr>ekey = [], etype = T_STR, estr = [], ezset = zset_empty\<rparr>]\<rparr>"
  have "hm_delete (db_nodes ?g) (db ?g) 9 (hnode_same 0) = Some (db_nodes ?g, hmap_empty, None)"
    by (simp add: g_data_init_def hm_delete_def hm_help_rehashing_def hm_help_loop.simps h_lookup_def hmap_empty_def htab_empty_def)
  then show ?thesis using ghost_timer_fallback_fails [of ?g "\<lparr>hval = 1, href = 0\<rparr>" "[]" 5] by simp
qed

end
