(* ===== verification/Benchmark_Correct.thy ===== *)
theory Benchmark_Correct
  imports Benchmark Client_Correct Loop_Properties
begin

text \<open>
  The benchmark and the server fit together: the requests are well formed and the replies have the sizes that the
  benchmark waits for.
\<close>

lemma pack_command_enc:
  assumes "length (enc_cmd cmd) < 2 ^ 32"
  shows "pack_command buf cmd = buf @ framed (enc_cmd cmd)"
proof -
  have l: "send_len cmd = of_nat (length (enc_cmd cmd))" using send_len_enc [OF assms] using unat_eq_u32 [of "length (enc_cmd cmd)" "send_len cmd"] by simp
  have "foldl (\<lambda>buf s. buf_append (buf_append buf (u32_bytes (of_nat (length s)))) s) b ss = b @ concat (map enc_str ss)" for b ss
    by (induction ss arbitrary: b) (simp_all add: buf_append_def enc_str_def)
  then show ?thesis using l by (simp add: pack_command_def send_len_def buf_append_def framed_def enc_cmd_def Let_def)
qed

section \<open>The loops\<close>

text \<open>The calls move \<open>n\<close> bytes in all, at least one each.\<close>

definition moves :: "nat list \<Rightarrow> nat \<Rightarrow> bool" where
  "moves ks n \<longleftrightarrow> 0 \<notin> set ks \<and> sum_list ks = n"

lemma bench_write_all:
  assumes "0 \<notin> set ks" and "written + sum_list ks = length buf"
  shows "bench_write (map Some ks) buf written = (drop written buf, True)"
  using assms
proof (induction ks arbitrary: written)
  case (Cons k ks)
  then have "bench_write (map Some ks) buf (written + k) = (drop (written + k) buf, True)" "0 < k" "written < length buf" by auto
  then show ?case by (simp add: drop_drop [symmetric] add.commute del: drop_drop)
qed simp

lemma bench_read_all:
  assumes "0 \<notin> set ks" and "tot + sum_list ks = expected"
  shows "bench_read (map Some ks) expected tot = (expected, True)"
  using assms by (induction ks arbitrary: tot) auto

lemma run_benchmark_all:
  assumes "moves ks (length buf)" and "moves rs expected"
  shows "run_benchmark (map Some ks) (map Some rs) buf expected n = (buf, [Starting, Requests_done n])"
  using bench_write_all [of ks 0 buf] bench_read_all [of rs 0 expected] assms by (simp add: run_benchmark_def moves_def)

section \<open>The requests\<close>

lemma bench_buf_messages:
  assumes "\<And>i. i < n \<Longrightarrow> length (enc_cmd (args i)) < 2 ^ 32"
  shows "bench_buf args n = messages (map args [0..<n])"
  using assms
proof (induction n)
  case (Suc n)
  have "bench_buf args (Suc n) = pack_command (bench_buf args n) (args n)" by (simp add: bench_buf_def)
  then show ?case using Suc pack_command_enc [of "args n" "bench_buf args n"] by (simp add: messages_def)
qed (simp add: bench_buf_def)

lemma length_to_string: "length (to_string n) \<le> Suc n"
proof (induction n rule: to_string.induct)
  case (1 n)
  then show ?case by (subst to_string.simps) (auto simp: not_less)
qed

lemma bench_args_ok:
  assumes "i < num_requests" and "args = set_args \<or> args = get_args \<or> args = zadd_args"
  shows "cmd_ok (args i)" and "length (enc_cmd (args i)) \<le> k_max_msg"
  using assms length_to_string [of i]
  by (auto simp: cmd_ok_def k_max_args_def k_max_msg_def length_enc_cmd set_args_def get_args_def zadd_args_def num_requests_def ascii_def)

section \<open>The replies\<close>

lemma commands_appendD:
  assumes "commands strtod s (rs @ rs') s2 reps"
  obtains s1 reps1 reps2 where "commands strtod s rs s1 reps1" "commands strtod s1 rs' s2 reps2" "reps = reps1 @ reps2"
  using assms
proof (induction rs arbitrary: s reps thesis)
  case Nil
  then show ?case by (auto intro: commands.none)
next
  case (Cons r rs)
  obtain t cmd where p: "r = (t, cmd)" by fastforce
  then obtain s1 rep reps' where r: "command strtod t s cmd s1 rep" "commands strtod s1 (rs @ rs') s2 reps'"
    "reps = rep # reps'" using Cons.prems(2) by (auto simp: commands_simps)
  from Cons.IH [OF _ r(2)] obtain s3 reps1 reps2 where
    "commands strtod s1 rs s3 reps1" "commands strtod s3 rs' s2 reps2" "reps' = reps1 @ reps2" by blast
  then show ?case using Cons.prems(1) [of s3 "rep # reps1" reps2] r p commands.more by fastforce
qed

lemma command_iffs:
  "command strtod t s [ascii ''set'', key, v] s' rep \<longleftrightarrow> (s', rep) = set_spec s key v"
  "command strtod t s [ascii ''get'', key] s' rep \<longleftrightarrow> s' = s \<and> rep = get_reply s key"
  "command strtod t s [ascii ''zadd'', key, arg, nm] s' rep \<longleftrightarrow> (s', rep) = zadd_db strtod s key arg nm"
  by (auto simp: ascii_inj known_def is_cmd_def prod_eq_iff elim!: command.cases
      intro: command.get command.set command.zadd)

text \<open>A database on which the benchmark runs: its keys hold the value or nothing, and the leaderboard is a sorted set
  or nothing.\<close>

definition bench_db :: "adb \<Rightarrow> bool" where
  "bench_db s \<longleftrightarrow> (\<forall>i f t. s (ascii ''key_'' @ to_string i) \<noteq> Some (AZset f, t)) \<and>
     (\<forall>v t. s (ascii ''leaderboard'') \<noteq> Some (AStr v, t))"

definition has_value :: "adb \<Rightarrow> nat \<Rightarrow> bool" where
  "has_value s i \<longleftrightarrow> (\<exists>t. s (ascii ''key_'' @ to_string i) = Some (AStr (ascii ''bench_value''), t))"

lemma bench_keys_differ [simp]:
  "ascii ''key_'' @ to_string i \<noteq> ascii ''leaderboard''" "ascii ''leaderboard'' \<noteq> ascii ''key_'' @ to_string i"
  by (simp_all add: ascii_def)

lemma bench_set:
  assumes "commands strtod s (zip ts (map set_args is)) s' reps" and "length ts = length is" and "bench_db s"
  shows "reps = replicate (length is) RNil \<and> bench_db s' \<and> (\<forall>i. has_value s i \<or> i \<in> set is \<longrightarrow> has_value s' i)"
  using assms
proof (induction "is" arbitrary: s ts reps)
  case (Cons i "is")
  let ?k = "ascii ''key_'' @ to_string i"
  obtain t ts' where ts: "ts = t # ts'" using Cons.prems(2) by (cases ts) auto
  obtain s1 rep reps' where st: "(s1, rep) = set_spec s ?k (ascii ''bench_value'')"
    "commands strtod s1 (zip ts' (map set_args is)) s' reps'" "reps = rep # reps'"
    using Cons.prems(1) by (auto simp: ts commands_simps set_args_def [of i] command_iffs)
  have "rep = RNil \<and> (\<exists>t'. s1 = s(?k \<mapsto> (AStr (ascii ''bench_value''), t')))"
    using st(1) Cons.prems(3) by (auto simp: set_spec_def bench_db_def split: option.splits avalue.splits)
  then have "rep = RNil" "bench_db s1" "has_value s1 i" "\<forall>j. has_value s j \<longrightarrow> has_value s1 j"
    using Cons.prems(3) by (auto simp: bench_db_def has_value_def split: if_splits)
  then show ?case using Cons.IH [OF st(2)] Cons.prems(2) ts st(3) by auto
qed (simp add: commands_simps)

lemma bench_get:
  assumes "commands strtod s (zip ts (map get_args is)) s' reps" and "length ts = length is" and "\<forall>i \<in> set is. has_value s i"
  shows "reps = replicate (length is) (RStr (ascii ''bench_value'')) \<and> s' = s"
  using assms
proof (induction "is" arbitrary: ts reps)
  case (Cons i "is")
  obtain t ts' where ts: "ts = t # ts'" using Cons.prems(2) by (cases ts) auto
  then show ?case using Cons
    by (auto simp: commands_simps get_args_def [of i] command_iffs get_reply_def has_value_def)
qed (simp add: commands_simps)

lemma bench_zadd:
  assumes "commands strtod s (zip ts (map zadd_args is)) s' reps" and "length ts = length is" and "bench_db s"
    and "\<forall>i \<in> set is. str2dbl strtod (to_string i @ ascii ''.0'') \<noteq> None"
  shows "length reps = length is \<and> (\<forall>rep \<in> set reps. \<exists>v. rep = RInt v)"
  using assms
proof (induction "is" arbitrary: s ts reps)
  case (Cons i "is")
  obtain t ts' where ts: "ts = t # ts'" using Cons.prems(2) by (cases ts) auto
  obtain sc where sc: "str2dbl strtod (to_string i @ ascii ''.0'') = Some sc" using Cons.prems(4) by auto
  obtain s1 rep reps' where st: "(s1, rep) = zadd_db strtod s (ascii ''leaderboard'') (to_string i @ ascii ''.0'') (ascii ''player_'' @ to_string i)"
    "commands strtod s1 (zip ts' (map zadd_args is)) s' reps'" "reps = rep # reps'"
    using Cons.prems(1) by (auto simp: ts commands_simps zadd_args_def [of i] command_iffs)
  have "(\<exists>v. rep = RInt v) \<and> (\<exists>f t'. s1 = s(ascii ''leaderboard'' \<mapsto> (AZset f, t')))"
    using st(1) sc Cons.prems(3) by (force simp: zadd_db_def bench_db_def split: option.splits avalue.splits prod.splits)
  then have "\<exists>v. rep = RInt v" "bench_db s1"
    using Cons.prems(3) by (auto simp: bench_db_def)
  then show ?case using Cons.IH [OF st(2)] Cons.prems(2,4) ts st(3) by auto
qed (simp add: commands_simps)

lemma length_responses:
  assumes "\<forall>rep \<in> set reps. length (frame (enc rep)) = k"
  shows "length (responses reps) = length reps * k"
  using assms by (induction reps) auto

lemma reply_sizes:
  "length (frame (enc RNil)) = 5" "length (frame (enc (RStr (ascii ''bench_value'')))) = 20" "length (frame (enc (RInt v))) = 13"
  by (simp_all add: frame_def framed_def k_max_msg_def ascii_def)

text \<open>The replies to a part of the requests: some of the first run, and so on.\<close>

lemma bench_replies:
  assumes "commands strtod Map.empty (zip ts (map set_args is1 @ map get_args is2 @ map zadd_args is3)) s reps"
    and "length ts = length is1 + (length is2 + length is3)" and "set is2 \<subseteq> set is1"
    and "\<And>i. i \<in> set is3 \<Longrightarrow> str2dbl strtod (to_string i @ ascii ''.0'') \<noteq> None"
  shows "length (responses reps) = length is1 * 5 + length is2 * 20 + length is3 * 13"
proof -
  obtain t1 t2 t3 where ts: "ts = t1 @ t2 @ t3" "length t1 = length is1" "length t2 = length is2" "length t3 = length is3"
  proof
    show "ts = take (length is1) ts @ take (length is2) (drop (length is1) ts) @ drop (length is2) (drop (length is1) ts)"
      by (simp only: append_take_drop_id)
  qed (use assms(2) in simp_all)
  have "commands strtod Map.empty (zip t1 (map set_args is1) @ zip t2 (map get_args is2) @ zip t3 (map zadd_args is3)) s reps"
    using assms(1) ts by simp
  then obtain s1 s2 reps1 reps2 reps3 where c: "commands strtod Map.empty (zip t1 (map set_args is1)) s1 reps1"
    "commands strtod s1 (zip t2 (map get_args is2)) s2 reps2" "commands strtod s2 (zip t3 (map zadd_args is3)) s reps3"
    "reps = reps1 @ reps2 @ reps3" by (elim commands_appendD) blast
  have r1: "reps1 = replicate (length is1) RNil" "bench_db s1" "\<forall>i \<in> set is1. has_value s1 i"
    using bench_set [OF c(1) ts(2)] by (auto simp: bench_db_def)
  have r2: "reps2 = replicate (length is2) (RStr (ascii ''bench_value''))" "s2 = s1"
    using bench_get [OF c(2) ts(3)] r1(3) assms(3) by auto
  have r3: "length reps3 = length is3" "\<forall>rep \<in> set reps3. \<exists>v. rep = RInt v"
    using bench_zadd [OF c(3) ts(4)] r1(2) r2(2) assms(4) by auto
  then have "\<forall>rep \<in> set reps3. length (frame (enc rep)) = 13" using reply_sizes(3) by metis
  then show ?thesis using length_responses [of reps1 5] length_responses [of reps2 20] length_responses [of reps3 13]
      r1(1) r2(1) r3(1) reply_sizes(1,2) c(4) by auto
qed

end
