(* ===== verification/Benchmark_Run.thy ===== *)
theory Benchmark_Run
  imports Benchmark_Correct
begin

text \<open>
  The benchmark and the server on one connection whose two directions are sockets with buffers of a limited size. The
  client writes all requests of a run before it reads a reply; the server stops reading while it has output left. The
  runs end when the buffer from the server to the client can hold the replies of a run, and can block each other
  for ever when it cannot. The handlers of the server are those of \<open>Event_Loop\<close>; other connections and the timers of its loop
  are left out, and no call on the two sockets fails while both are open.
\<close>

section \<open>Client, server and sockets\<close>

text \<open>
  The variables of the client: the run it is in, \<open>written\<close>, \<open>total_read\<close>, and the results of its calls in this run and
  in the finished ones. The bytes in the socket buffers. The state of the server; \<open>b_ok\<close> says that it neither failed
  nor closed the connection.
\<close>

record bench_sys =
  b_run :: nat
  b_written :: nat
  b_read :: nat
  b_ws :: "nat list"
  b_rs :: "nat list"
  b_done :: "(nat list \<times> nat list) list"
  b_up :: bytes
  b_down :: bytes
  b_gd :: gdata
  b_conn :: conn
  b_ok :: bool

text \<open>What a \<open>write\<close> of the server can return, with \<open>used\<close> of \<open>cap\<close> bytes in the buffer.\<close>

definition socket_write :: "nat \<Rightarrow> nat \<Rightarrow> write_res \<Rightarrow> bool" where
  "socket_write cap used w \<longleftrightarrow> (case w of
     Write_again \<Rightarrow> cap \<le> used
   | Write_upto k \<Rightarrow> 0 < k \<and> used + k \<le> cap
   | _ \<Rightarrow> False)"

definition after_call :: "bench_sys \<Rightarrow> bytes \<Rightarrow> bytes \<Rightarrow> (gdata \<times> conn) outcome option \<Rightarrow> bench_sys" where
  "after_call st up sent r = (case r of
     Some (Running (g, c)) \<Rightarrow> st\<lparr>b_up := up, b_down := b_down st @ sent, b_gd := g, b_conn := c, b_ok := \<not> want_close c\<rparr>
   | _ \<Rightarrow> st\<lparr>b_ok := False\<rparr>)"

text \<open>
  The steps, for runs given by the bytes to write and the number of bytes to read. A call moves at least one byte, as
  many as there are or as there is room for, and at most 64 KiB are read at once.
\<close>

inductive bench_step :: "strtod \<Rightarrow> (bytes \<times> nat) list \<Rightarrow> nat \<Rightarrow> nat \<Rightarrow> bench_sys \<Rightarrow> bench_sys \<Rightarrow> bool"
  for strtod runs cap_up cap_down st where
  client_write: "b_run st < length runs \<Longrightarrow> runs ! b_run st = (buf, expected) \<Longrightarrow> b_written st < length buf \<Longrightarrow>
    0 < k \<Longrightarrow> b_written st + k \<le> length buf \<Longrightarrow> length (b_up st) + k \<le> cap_up \<Longrightarrow>
    bench_step strtod runs cap_up cap_down st (st\<lparr>b_written := b_written st + k, b_ws := b_ws st @ [k],
      b_up := b_up st @ take k (drop (b_written st) buf)\<rparr>)"
| client_read: "b_run st < length runs \<Longrightarrow> runs ! b_run st = (buf, expected) \<Longrightarrow> \<not> b_written st < length buf \<Longrightarrow>
    b_read st < expected \<Longrightarrow> 0 < k \<Longrightarrow> k \<le> length (b_down st) \<Longrightarrow> k \<le> 64 * 1024 \<Longrightarrow>
    bench_step strtod runs cap_up cap_down st (st\<lparr>b_read := b_read st + k, b_rs := b_rs st @ [k], b_down := drop k (b_down st)\<rparr>)"
| client_next: "b_run st < length runs \<Longrightarrow> runs ! b_run st = (buf, expected) \<Longrightarrow> \<not> b_written st < length buf \<Longrightarrow>
    \<not> b_read st < expected \<Longrightarrow>
    bench_step strtod runs cap_up cap_down st (st\<lparr>b_run := Suc (b_run st), b_written := 0, b_read := 0, b_ws := [], b_rs := [],
      b_done := b_done st @ [(b_ws st, b_rs st)]\<rparr>)"
| server_read: "want_read (b_conn st) \<Longrightarrow> bs = take k (b_up st) \<Longrightarrow> 0 < k \<Longrightarrow> k \<le> length (b_up st) \<Longrightarrow> k \<le> 64 * 1024 \<Longrightarrow>
    socket_write cap_down (length (b_down st)) w \<Longrightarrow>
    bench_step strtod runs cap_up cap_down st (after_call st (drop k (b_up st)) (read_sent strtod clk (Read_bytes bs) w (b_gd st) (b_conn st))
      (handle_read strtod clk (Read_bytes bs) w (b_gd st) (b_conn st)))"
| server_write: "want_write (b_conn st) \<Longrightarrow> length (b_down st) < cap_down \<Longrightarrow> socket_write cap_down (length (b_down st)) w \<Longrightarrow>
    bench_step strtod runs cap_up cap_down st (after_call st (b_up st) (taken w (outgoing (b_conn st)))
      (case handle_write w (b_conn st) of
         Some (Running c) \<Rightarrow> Some (Running (b_gd st, c)) | Some Died \<Rightarrow> Some Died | None \<Rightarrow> None))"

section \<open>Loads\<close>

text \<open>
  A load is a list of runs, each a list of commands; \<open>rlen cmd\<close> is the length of the framed reply to \<open>cmd\<close> when the
  commands are executed in this order on an empty database.
\<close>

definition load_size :: "(bytes list \<Rightarrow> nat) \<Rightarrow> bytes list list \<Rightarrow> nat" where
  "load_size rlen cmds = (\<Sum>cmd \<leftarrow> cmds. rlen cmd)"

lemma load_size_simps [simp]:
  "load_size rlen [] = 0" "load_size rlen (cmd # cmds) = rlen cmd + load_size rlen cmds"
  "load_size rlen (cmds @ cmds') = load_size rlen cmds + load_size rlen cmds'"
  by (simp_all add: load_size_def)

definition load_runs :: "(bytes list \<Rightarrow> nat) \<Rightarrow> bytes list list list \<Rightarrow> (bytes \<times> nat) list" where
  "load_runs rlen load = map (\<lambda>cmds. (messages cmds, load_size rlen cmds)) load"




lemma messages_append [simp]: "messages (cmds @ cmds') = messages cmds @ messages cmds'"
  by (simp add: messages_def)

lemma load_runs_nth [simp]: "length (load_runs rlen load) = length load"
  "r < length load \<Longrightarrow> load_runs rlen load ! r = (messages (load ! r), load_size rlen (load ! r))"
  by (simp_all add: load_runs_def)



section \<open>The invariant\<close>











section \<open>The steps of the server\<close>







section \<open>Whole runs\<close>

definition bench_start :: "conn \<Rightarrow> bench_sys" where
  "bench_start c = \<lparr>b_run = 0, b_written = 0, b_read = 0, b_ws = [], b_rs = [], b_done = [], b_up = [], b_down = [],
     b_gd = g_data_init, b_conn = c, b_ok = True\<rparr>"






section \<open>The load of the benchmark\<close>


text \<open>The sizes of the replies that the comments of \<open>main\<close> name.\<close>

definition bench_rlen :: "bytes list \<Rightarrow> nat" where
  "bench_rlen cmd = (if hd cmd = ascii ''set'' then 5 else if hd cmd = ascii ''get'' then 20 else 13)"

lemma bench_rlen_args [simp]:
  "load_size bench_rlen (map set_args is) = length is * 5" "load_size bench_rlen (map get_args is) = length is * 20"
  "load_size bench_rlen (map zadd_args is) = length is * 13"
  by (induction "is") (simp_all add: bench_rlen_def set_args_def get_args_def zadd_args_def ascii_inj)




lemma take_upt_subset: "m \<le> n \<Longrightarrow> set (take m xs) \<subseteq> set (take n xs)"
  by (rule set_take_subset_set_take)



section \<open>Properties\<close>


text \<open>A connection, and a library function that accepts all numbers.\<close>

definition sample_conn :: conn where
  "sample_conn = \<lparr>cfd = 5, want_read = True, want_write = False, want_close = False, incoming = [], outgoing = [], last_active_ms = 0\<rparr>"

definition any_strtod :: strtod where
  "any_strtod s = (0, length s)"

lemma any_strtod: "str2dbl any_strtod bs \<noteq> None"
  by (simp add: str2dbl_def any_strtod_def isnan_def dbl_mag_def)



text \<open>
  When the buffer to the client is smaller than the replies, the two programs can block each other: the client waits to
  write its last request, the server waits to write a reply, and both buffers are full. Here the client has three
  requests of 15 bytes, each with a reply of 29 bytes; the buffers have 15 and 10 bytes.
\<close>

definition foo_cmd :: "bytes list" where
  "foo_cmd = [ascii ''foo'']"

definition foo_runs :: "(bytes \<times> nat) list" where
  "foo_runs = [(messages [foo_cmd, foo_cmd, foo_cmd], 87)]"

definition foo_reply :: bytes where
  "foo_reply = frame (enc (RErr ERR_UNKNOWN (ascii ''unknown command.'')))"

definition blocked_conn :: conn where
  "blocked_conn = sample_conn\<lparr>want_read := False, want_write := True, outgoing := drop 10 foo_reply\<rparr>"

theorem benchmark_can_block:
  "\<exists>st. (bench_step any_strtod foo_runs 15 10 ^^ 3) (bench_start sample_conn) st \<and> b_run st = 0 \<and> b_written st = 30 \<and>
    \<not> (\<exists>st'. bench_step any_strtod foo_runs 15 10 st st')"
proof -
  let ?step = "bench_step any_strtod foo_runs 15 10" and ?m = "messages [foo_cmd, foo_cmd, foo_cmd]" and ?w = "Write_upto 10"
  let ?f = "framed (enc_cmd foo_cmd)"
  have len: "length ?f = 15" "length ?m = 45" "length foo_reply = 29" by code_simp+
  have m: "take 15 ?m = ?f" "take 15 (drop 15 ?m) = ?f" using len(1) by simp_all
  define s1 where "s1 = (bench_start sample_conn)\<lparr>b_written := 15, b_ws := [15], b_up := ?f\<rparr>"
  have s1: "?step (bench_start sample_conn) s1"
    using bench_step.client_write [of "bench_start sample_conn" foo_runs ?m 87 15 15 any_strtod 10] len m
    by (simp add: foo_runs_def bench_start_def s1_def)
  have q: "requests_of (incoming sample_conn @ read_bytes (Read_bytes ?f)) = ([foo_cmd], [], False)" by code_simp
  have c: "flags_ok sample_conn" "outgoing sample_conn = []" "\<not> want_close sample_conn" by (simp_all add: sample_conn_def flags_ok_def)
  have "0 + length [foo_cmd] < avl_max" by (simp add: avl_max_def)
  from handle_read_exact [OF c implements_init fits_empty q this, of any_strtod "\<lambda>_. 0" ?w] obtain g s rep where
    h: "command any_strtod 0 Map.empty foo_cmd s rep"
      "handle_read any_strtod (\<lambda>_. 0) (Read_bytes ?f) ?w g_data_init sample_conn =
        Some (Running (g, after_reading sample_conn (Read_bytes ?f) ?w [] False [rep]))"
      "read_sent any_strtod (\<lambda>_. 0) (Read_bytes ?f) ?w g_data_init sample_conn = take 10 (responses [rep])"
    by (auto simp: commands_simps taken_def)
  have "rep = RErr ERR_UNKNOWN (ascii ''unknown command.'')"
    using h(1) unfolding foo_cmd_def by (cases rule: command.cases) (auto simp: ascii_inj)
  then have reps: "responses [rep] = foo_reply" by (simp add: foo_reply_def)
  have "drop 10 foo_reply \<noteq> []" "?f \<noteq> []" using len by auto
  then have bl: "after_reading sample_conn (Read_bytes ?f) ?w [] False [rep] = blocked_conn"
    using reps by (simp add: after_reading_def blocked_conn_def sample_conn_def)
  define s2 where "s2 = s1\<lparr>b_up := [], b_down := take 10 foo_reply, b_gd := g, b_conn := blocked_conn\<rparr>"
  have "?step s1 (after_call s1 (drop 15 (b_up s1)) (read_sent any_strtod (\<lambda>_. 0) (Read_bytes ?f) ?w (b_gd s1) (b_conn s1))
      (handle_read any_strtod (\<lambda>_. 0) (Read_bytes ?f) ?w (b_gd s1) (b_conn s1)))"
    by (rule bench_step.server_read) (simp_all add: s1_def bench_start_def sample_conn_def len socket_write_def)
  moreover have "after_call s1 (drop 15 (b_up s1)) (read_sent any_strtod (\<lambda>_. 0) (Read_bytes ?f) ?w (b_gd s1) (b_conn s1))
      (handle_read any_strtod (\<lambda>_. 0) (Read_bytes ?f) ?w (b_gd s1) (b_conn s1)) = s2"
    using h(2,3) bl reps len by (simp add: after_call_def s1_def s2_def bench_start_def blocked_conn_def sample_conn_def)
  ultimately have s2: "?step s1 s2" by simp
  define s3 where "s3 = s2\<lparr>b_written := 30, b_ws := [15, 15], b_up := ?f\<rparr>"
  have s3: "?step s2 s3"
    using bench_step.client_write [of s2 foo_runs ?m 87 15 15 any_strtod 10] len m
    by (simp add: foo_runs_def bench_start_def s1_def s2_def s3_def)
  have "(?step ^^ 3) (bench_start sample_conn) s3" unfolding numeral_3_eq_3 using s1 s2 s3 by auto
  moreover have st: "b_run s3 = 0" "b_written s3 = 30" "length (b_up s3) = 15" "length (b_down s3) = 10" "b_conn s3 = blocked_conn"
    using len by (simp_all add: s3_def s2_def s1_def bench_start_def)
  moreover have "\<not> ?step s3 st'" for st'
  proof
    assume "?step s3 st'"
    then show False
      by cases (use st len in \<open>simp_all add: foo_runs_def blocked_conn_def\<close>)
  qed
  ultimately show ?thesis by blast
qed

end
