(* ===== verification/Progress.thy ===== *)
theory Progress
  imports Loop_Properties
begin

text \<open>
  Progress: over a run of the loop, all replies of a connection leave the server when its socket keeps taking bytes.
\<close>

section \<open>One connection in an iteration\<close>

lemma handle_conns_other:
  assumes "server_ok s xs ad n" and "work_ok (conns s) w" and "n + pending (conns s) + work_bytes w < avl_max"
    and "\<not> work_breaks (conns s) w" and "conns s a = Some c" and "cfd c \<notin> fst ` set w"
  shows "\<exists>s' ys ad' m. handle_conns strtod s w = Some (Running s') \<and> server_ok s' ys ad' m \<and> conns s' a = Some c"
  using assms
proof (induction w arbitrary: s xs ad n)
  case (Cons p w)
  obtain fd io where p: "p = (fd, io)" by fastforce
  obtain b d where b: "conns s b = Some d" "cfd d = fd" "poll_reports (poll_events d) (io_ready io)"
    using Cons.prems(2) p by (auto simp: work_ok_def)
  have "n + pending (conns s) + read_len (io_read io) < avl_max" using Cons.prems(3) p by (simp add: work_bytes_def)
  moreover have f: "fds_ok (fd2conn s) (conns s)" using Cons.prems(1) by (simp add: server_ok_def conns_ok_def)
  then have br: "\<not> conn_breaks d io" "\<not> work_breaks (conns s) w" using Cons.prems(4) work_breaks_Cons [OF f b(1,2)] p by simp_all
  ultimately obtain s1 ys1 ad1 m1 where
    s1: "handle_conn strtod s fd io = Some (Running s1)" "server_ok s1 ys1 ad1 m1"
      "m1 + pending (conns s1) \<le> n + pending (conns s) + read_len (io_read io)" "\<And>a. a \<noteq> b \<Longrightarrow> conns s1 a = conns s a"
    using handle_conn_ok [OF Cons.prems(1) b(1,3), of strtod] unfolding b(2) by blast
  have "a \<noteq> b" using b(1,2) Cons.prems(5,6) p by auto
  then have a: "conns s1 a = Some c" using s1(4) Cons.prems(5) by simp
  have w: "work_ok (conns s1) w" using Cons.prems(2) b(1,2) s1(4) unfolding p by (rule work_ok_tail)
  have "m1 + pending (conns s1) + work_bytes w < avl_max" using s1(3) Cons.prems(3) p by (simp add: work_bytes_def)
  moreover have "\<not> work_breaks (conns s1) w"
    using work_breaks_tail [OF f _ Cons.prems(2) [unfolded p] b(1,2) s1(4)] s1(2) br(2) by (auto simp: server_ok_def conns_ok_def)
  ultimately show ?case using Cons.IH [OF s1(2) w _ _ a] Cons.prems(6) s1(1) p by simp
qed auto

text \<open>The socket of a connection with output takes some of it.\<close>

definition writes :: "conn_io \<Rightarrow> nat \<Rightarrow> bool" where
  "writes io k \<longleftrightarrow> io_ready io AND POLLIN = 0 \<and> io_ready io AND POLLOUT \<noteq> 0 \<and> io_ready io AND POLLERR = 0 \<and> io_write io = Write_upto k"

definition written :: "conn \<Rightarrow> conn_io \<Rightarrow> nat \<Rightarrow> conn" where
  "written c io k = (let c = c\<lparr>last_active_ms := io_clock io, outgoing := drop k (outgoing c)\<rparr>
     in if outgoing c = [] then c\<lparr>want_read := True, want_write := False\<rparr> else c)"

lemma handle_conn_writes:
  assumes ok: "conns_ok s xs" and a: "conns s a = Some c" and w: "writes io k" and o: "outgoing c \<noteq> []"
    and h: "handle_conn strtod s (cfd c) io = Some (Running s')"
  shows "conns s' a = Some (written c io k)"
proof -
  have f: "fds_ok (fd2conn s) (conns s)" and nc: "\<not> want_close c" using ok a by (auto simp: conns_ok_def)
  have "handle_write (io_write io) (c\<lparr>last_active_ms := io_clock io\<rparr>) = Some (Running (written c io k))"
    using o w by (auto simp: handle_write_def writes_def written_def buf_consume_def min_def Let_def)
  moreover have "\<not> want_close (written c io k)" using nc by (simp add: written_def Let_def)
  ultimately show ?thesis using h fd_at_Some [OF fds_okD [OF f a]] a w
    by (auto simp: handle_conn_def writes_def Let_def split: bind_splits)
qed

lemma handle_conns_writes:
  assumes "server_ok s xs ad n" and "work_ok (conns s) w" and "n + pending (conns s) + work_bytes w < avl_max"
    and "\<not> work_breaks (conns s) w"
    and "conns s a = Some c" and "map_of w (cfd c) = Some io" and "writes io k" and "outgoing c \<noteq> []"
  shows "\<exists>s' ys ad' m. handle_conns strtod s w = Some (Running s') \<and> server_ok s' ys ad' m \<and> conns s' a = Some (written c io k)"
  using assms
proof (induction w arbitrary: s xs ad n)
  case (Cons p w)
  obtain fd io' where p: "p = (fd, io')" by fastforce
  obtain b d where b: "conns s b = Some d" "cfd d = fd" "poll_reports (poll_events d) (io_ready io')"
    using Cons.prems(2) p by (auto simp: work_ok_def)
  have co: "conns_ok s xs" using Cons.prems(1) by (simp add: server_ok_def)
  then have f: "fds_ok (fd2conn s) (conns s)" by (simp add: conns_ok_def)
  have br: "\<not> conn_breaks d io'" "\<not> work_breaks (conns s) w" using Cons.prems(4) work_breaks_Cons [OF f b(1,2)] p by simp_all
  have "n + pending (conns s) + read_len (io_read io') < avl_max" using Cons.prems(3) p by (simp add: work_bytes_def)
  from handle_conn_ok [OF Cons.prems(1) b(1,3) this br(1), of strtod] obtain s1 ys1 ad1 m1 where
    s1: "handle_conn strtod s fd io' = Some (Running s1)" "server_ok s1 ys1 ad1 m1"
      "m1 + pending (conns s1) \<le> n + pending (conns s) + read_len (io_read io')" "\<And>a. a \<noteq> b \<Longrightarrow> conns s1 a = conns s a"
    unfolding b(2) by blast
  have w: "work_ok (conns s1) w" using Cons.prems(2) b(1,2) s1(4) unfolding p by (rule work_ok_tail)
  have room: "m1 + pending (conns s1) + work_bytes w < avl_max" using s1(3) Cons.prems(3) p by (simp add: work_bytes_def)
  have br': "\<not> work_breaks (conns s1) w"
    using work_breaks_tail [OF f _ Cons.prems(2) [unfolded p] b(1,2) s1(4)] s1(2) br(2) by (auto simp: server_ok_def conns_ok_def)
  show ?case
  proof (cases "fd = cfd c")
    case True
    then have "io' = io" using Cons.prems(6) p by simp
    then have "conns s1 a = Some (written c io k)"
      using handle_conn_writes [OF co Cons.prems(5,7,8)] s1(1) True by simp
    moreover have "cfd (written c io k) \<notin> fst ` set w" using Cons.prems(2) p True by (auto simp: work_ok_def written_def Let_def)
    ultimately show ?thesis using handle_conns_other [OF s1(2) w room br'] s1(1) p by simp
  next
    case False
    then have "a \<noteq> b" using b(1,2) Cons.prems(5) by auto
    then have "conns s1 a = Some c" using s1(4) Cons.prems(5) by simp
    then show ?thesis using Cons.IH [OF s1(2) w room br' _ _ Cons.prems(7,8)] Cons.prems(6) False s1(1) p by simp
  qed
qed simp

text \<open>
  The number of bytes that the socket of the connection \<open>a\<close> takes in a wake-up, when the connection is ready to be
  written and the clock is read before the connection is too old again; 0 otherwise.
\<close>

definition takes :: "server \<Rightarrow> addr \<Rightarrow> wakeup \<Rightarrow> nat" where
  "takes s a wk = (case (wk_poll wk, poll_conns (conns s) (fd2conn s), conns s a) of
     (Woken listening ios, Some args, Some c) \<Rightarrow>
       (case map_of (zip (map fst args) ios) (cfd c) of
          Some io \<Rightarrow> (case io_write io of
              Write_upto k \<Rightarrow> if writes io k \<and> wk_end_clock wk < io_clock io + k_idle_timeout_ms then k else 0
            | _ \<Rightarrow> 0)
        | None \<Rightarrow> 0)
   | _ \<Rightarrow> 0)"

lemma in_dropWhile: "x \<in> set xs \<Longrightarrow> \<not> P x \<Longrightarrow> x \<in> set (dropWhile P xs)"
  by (induction xs) auto

lemma iteration_writes:
  assumes r: "reachable strtod s b tr" and k: "kernel_ok s wk" and room: "b + wk_bytes wk < avl_max" and live: "\<not> wakeup_dies s wk"
    and a: "conns s a = Some c" and o: "outgoing c \<noteq> []" and t: "0 < takes s a wk"
  shows "\<exists>s' c'. iteration strtod s wk = Some (Running s') \<and> conns s' a = Some c' \<and> incoming c' = incoming c \<and>
    outgoing c' = drop (takes s a wk) (outgoing c)"
proof -
  obtain xs ad n log where ok: "server_ok s xs ad n" "n + pending (conns s) \<le> b" "traced strtod s ad log tr"
    using reachable_inv [OF r] by (auto simp: loop_inv_def)
  define j where "j = takes s a wk"
  obtain lis ios args io where wk: "wk_poll wk = Woken lis ios" and args: "poll_conns (conns s) (fd2conn s) = Some args"
    and io: "map_of (zip (map fst args) ios) (cfd c) = Some io" "writes io j" "wk_end_clock wk < io_clock io + k_idle_timeout_ms"
    using t a by (auto simp: takes_def j_def split: poll_res.splits option.splits write_res.splits if_splits)
  have nd: "lis \<noteq> 0 \<longrightarrow> \<not> accept_dies (wk_accept wk)" using live wk by (auto simp: wakeup_dies_def)
  let ?w = "zip (map fst args) ios"
  have br: "\<not> work_breaks (conns s) ?w" using live wk args by (simp add: wakeup_dies_def)
  obtain s1 xs1 where s1: "(if lis \<noteq> 0 then accept_conn s (wk_accept wk) (wk_accept_clock wk) else Some (Running s)) = Some (Running s1)"
      "server_ok s1 xs1 ad n" "work_ok (conns s1) ?w" "traced strtod s1 ad log tr" "n + pending (conns s1) + work_bytes ?w \<le> b + wk_bytes wk"
      "\<forall>a c. conns s a = Some c \<longrightarrow> conns s1 a = Some c" "work_breaks (conns s1) ?w \<longleftrightarrow> work_breaks (conns s) ?w"
    using woken_start [OF ok(1,2) k room ok(3) wk nd args] .
  have "n + pending (conns s1) + work_bytes ?w < avl_max" using s1(5) room by simp
  moreover have "\<not> work_breaks (conns s1) ?w" using s1(7) br by simp
  ultimately obtain s2 xs2 ad2 m where
    s2: "handle_conns strtod s1 ?w = Some (Running s2)" "server_ok s2 xs2 ad2 m" "conns s2 a = Some (written c io j)"
    using handle_conns_writes [OF s1(2,3) _ _ s1(6) [rule_format, OF a] io(1,2) o, of strtod] by blast
  then obtain s' where s': "process_timers s2 (wk_end_clock wk) = Some s'"
    "conns s' = conns s2 |` set (dropWhile (too_old s2 (wk_end_clock wk)) xs2)"
    using process_timers_rel [of s2 xs2 ad2 "wk_end_clock wk"] by (auto simp: server_ok_def)
  have "a \<in> set xs2" using s2(2,3) by (auto simp: server_ok_def conns_ok_def)
  moreover have "\<not> too_old s2 (wk_end_clock wk) a" using s2(3) io(3) by (simp add: too_old_def written_def Let_def not_le)
  ultimately have "conns s' a = Some (written c io j)" using s'(2) s2(3) in_dropWhile by fastforce
  moreover obtain t where "next_timer_ms s (wk_timer_clock wk) = Some t"
    using next_timer_ms_eq [of s xs ad "wk_timer_clock wk"] ok(1) by (auto simp: server_ok_def)
  then have "iteration strtod s wk = Some (Running s')" using wk args s1(1) s2(1) s'(1) by (simp add: iteration_def)
  moreover have "incoming (written c io j) = incoming c" "outgoing (written c io j) = drop j (outgoing c)"
    by (simp_all add: written_def Let_def)
  ultimately show ?thesis unfolding j_def by blast
qed

section \<open>All replies leave\<close>

text \<open>
  A list of wake-ups in which the kernel keeps its promises and the socket of \<open>a\<close> takes at least one byte
  each time, until the connection has no output left.
\<close>

fun served :: "strtod \<Rightarrow> addr \<Rightarrow> nat \<Rightarrow> server \<Rightarrow> wakeup list \<Rightarrow> bool" where
  "served strtod a b s [] = True"
| "served strtod a b s (wk # wks) = (case conns s a of
     None \<Rightarrow> True
   | Some c \<Rightarrow> outgoing c = [] \<or>
       kernel_ok s wk \<and> b + wk_bytes wk < avl_max \<and> \<not> wakeup_dies s wk \<and> 0 < takes s a wk \<and>
       (case iteration strtod s wk of Some (Running s') \<Rightarrow> served strtod a (b + wk_bytes wk) s' wks | _ \<Rightarrow> True))"

lemma served_drains:
  assumes "reachable strtod s b tr" and "conns s a = Some c" and "served strtod a b s wks" and "length (outgoing c) \<le> length wks"
  shows "\<exists>m s' b' tr' c'. m \<le> length (outgoing c) \<and> main_loop strtod s (take m wks) = Some (Running s') \<and>
    reachable strtod s' b' (tr @ tr') \<and> conns s' a = Some c' \<and> outgoing c' = [] \<and> incoming c' = incoming c"
  using assms
proof (induction wks arbitrary: s b tr c)
  case Nil
  then show ?case by (intro exI [of _ 0] exI [of _ s] exI [of _ b] exI [of _ "[]"] exI [of _ c]) simp
next
  case (Cons wk wks)
  show ?case
  proof (cases "outgoing c = []")
    case True
    then show ?thesis using Cons.prems by (intro exI [of _ 0] exI [of _ s] exI [of _ b] exI [of _ "[]"] exI [of _ c]) simp
  next
    case False
    then have k: "kernel_ok s wk" "b + wk_bytes wk < avl_max" "\<not> wakeup_dies s wk" "0 < takes s a wk"
      using Cons.prems(2,3) by auto
    obtain s1 c1 where s1: "iteration strtod s wk = Some (Running s1)" "conns s1 a = Some c1" "incoming c1 = incoming c"
      "outgoing c1 = drop (takes s a wk) (outgoing c)"
      using iteration_writes [OF Cons.prems(1) k(1-3) Cons.prems(2) False k(4)] by blast
    have less: "length (outgoing c1) < length (outgoing c)" using s1(4) k(4) False by simp
    have "served strtod a (b + wk_bytes wk) s1 wks" using Cons.prems(2,3) False s1(1) by simp
    from Cons.IH [OF reachable.step [OF Cons.prems(1) k(1,2) s1(1)] s1(2) this] less Cons.prems(4)
    obtain m s' b' tr' c' where m: "m \<le> length (outgoing c1)" "main_loop strtod s1 (take m wks) = Some (Running s')"
      "reachable strtod s' b' ((tr @ traffic strtod s wk) @ tr')" "conns s' a = Some c'" "outgoing c' = []" "incoming c' = incoming c1"
      by auto
    then show ?thesis using less s1(1,3)
      by (intro exI [of _ "Suc m"] exI [of _ s'] exI [of _ b'] exI [of _ "traffic strtod s wk @ tr'"] exI [of _ c']) simp
  qed
qed

section \<open>A sample run\<close>

text \<open>After the second wake-up 28 bytes of output are left; then the socket takes up to 100 at once.\<close>

definition sample_s2 :: server where
  "sample_s2 = outcome_server (iteration sample_strtod sample_s1 sample_wk2)"

definition sample_wk3 :: wakeup where
  "sample_wk3 = \<lparr>wk_timer_clock = 22, wk_poll = Woken 0 [sample_io\<lparr>io_ready := POLLOUT, io_clock := 30, io_read := Read_again,
      io_write := Write_upto 100\<rparr>], wk_accept = Accept_error, wk_accept_clock = 0, wk_end_clock = 31\<rparr>"

lemma sample_server2:
  "map_option (\<lambda>c. (cfd c, want_read c, want_write c, length (outgoing c))) (conns sample_s2 1) = Some (5, False, True, 28) \<and>
   fd2conn sample_s2 = [None, None, None, None, None, Some 1]"
  by code_simp

lemma sample_reachable2:
  "reachable sample_strtod sample_s2 (length sample_in) (traffic sample_strtod sample_s1 sample_wk2)"
proof -
  have "0 + wk_bytes sample_wk2 < avl_max" unfolding sample_kernel2(2) by code_simp
  then show ?thesis using reachable_step [OF sample_reachable1 sample_kernel2(1) _ sample_lives2] sample_kernel2(2)
    by (auto simp: sample_s2_def outcome_server_def)
qed

lemma sample_kernel3: "kernel_ok sample_s2 sample_wk3" "takes sample_s2 1 sample_wk3 = 100" "wk_bytes sample_wk3 = 0" "\<not> wakeup_dies sample_s2 sample_wk3"
proof -
  obtain c where c: "conns sample_s2 1 = Some c" "cfd c = 5" "\<not> want_read c" "want_write c" using sample_server2 by auto
  then have p: "poll_conns (conns sample_s2) (fd2conn sample_s2) = Some [(5, POLLERR OR POLLOUT)]"
    using sample_server2 by (simp add: poll_events_def)
  moreover have "poll_reports (POLLERR OR POLLOUT) POLLOUT" "POLLOUT AND POLLIN = 0" "POLLOUT \<noteq> 0" "POLLOUT AND POLLERR = 0" by code_simp+
  ultimately show "kernel_ok sample_s2 sample_wk3" "takes sample_s2 1 sample_wk3 = 100" "wk_bytes sample_wk3 = 0" "\<not> wakeup_dies sample_s2 sample_wk3"
    using c by (simp_all add: kernel_ok_def sample_wk3_def fresh_fd_def wk_bytes_def read_bytes_def takes_def writes_def
        wakeup_dies_def work_breaks_def conn_breaks_def sample_io_def k_idle_timeout_ms_def)
qed

section \<open>Properties\<close>

text \<open>C3. Every request is answered. When the socket of an open connection keeps taking bytes, at least one in each
  wake-up, then after at most as many wake-ups as it has bytes of output the connection is still open, its output
  buffer is empty and it waits to read the next request, and not to write; all its replies have been sent
  completely: the requests of the history for it are all the complete requests that it has
  sent, and the bytes written to it are exactly their framed replies.\<close>

theorem replies_arrive:
  assumes "reachable strtod s b tr" and "conns s a = Some c" and "served strtod a b s wks" and "length (outgoing c) \<le> length wks"
  shows "\<exists>m s' b' tr' log ad. m \<le> length (outgoing c) \<and> main_loop strtod s (take m wks) = Some (Running s') \<and>
    reachable strtod s' b' (tr @ tr') \<and>
    (\<exists>c'. conns s' a = Some c' \<and> outgoing c' = [] \<and> want_read c' \<and> \<not> want_write c') \<and> history strtod Map.empty log ad \<and> implements (gd s') ad \<and>
    cmds_of a log = fst (requests_of (wire_in a (tr @ tr'))) \<and> wire_out a (tr @ tr') = responses (reps_of a log)"
proof -
  obtain m s' b' tr' c' where m: "m \<le> length (outgoing c)" "main_loop strtod s (take m wks) = Some (Running s')"
    "reachable strtod s' b' (tr @ tr')" "conns s' a = Some c'" "outgoing c' = []" using served_drains [OF assms] by blast
  obtain xs ad0 n where "server_ok s' xs ad0 n" using reachable_server [OF m(3)] .
  then have fl: "want_read c'" "\<not> want_write c'" using m(4,5) by (auto simp: server_ok_def conns_ok_def flags_ok_def)
  obtain log ad where h: "history strtod Map.empty log ad" "implements (gd s') ad"
    "\<forall>a. session (conns s' a) (wire_in a (tr @ tr')) (wire_out a (tr @ tr')) (cmds_of a log) (reps_of a log)"
    using reachable_sessions [OF m(3)] .
  have "session (Some c') (wire_in a (tr @ tr')) (wire_out a (tr @ tr')) (cmds_of a log) (reps_of a log)"
    using h(3) m(4) by metis
  then have "cmds_of a log = fst (requests_of (wire_in a (tr @ tr')))" "wire_out a (tr @ tr') = responses (reps_of a log)"
    using m(5) by (simp_all add: session_def del: wire_simps)
  then show ?thesis using m h(1,2) fl by blast
qed

theorem replies_arrive_witness:
  "\<exists>m s. m \<le> 28 \<and> main_loop sample_strtod sample_s2 (take m (replicate 28 sample_wk3)) = Some (Running s) \<and>
    map_option (\<lambda>c. (want_read c, outgoing c)) (conns s 1) = Some (True, [])"
proof -
  obtain c where c: "conns sample_s2 1 = Some c" "length (outgoing c) = 28" using sample_server2 by auto
  have room: "length sample_in + wk_bytes sample_wk3 < avl_max" unfolding sample_kernel3(3) by code_simp
  have "outgoing c \<noteq> []" "0 < takes sample_s2 1 sample_wk3" using c(2) sample_kernel3(2) by auto
  from iteration_writes [OF sample_reachable2 sample_kernel3(1) room sample_kernel3(4) c(1) this] obtain s' c' where
    s': "iteration sample_strtod sample_s2 sample_wk3 = Some (Running s')" "conns s' 1 = Some c'" "outgoing c' = []"
    using c(2) sample_kernel3(2) by auto
  have "replicate 28 sample_wk3 = sample_wk3 # replicate 27 sample_wk3" by (simp add: numeral_eq_Suc)
  moreover have "served sample_strtod 1 b s' wks" for b wks using s'(2,3) by (cases wks) simp_all
  ultimately have "served sample_strtod 1 (length sample_in) sample_s2 (replicate 28 sample_wk3)"
    using c room sample_kernel3 s'(1) by simp
  then show ?thesis using replies_arrive [OF sample_reachable2 c(1)] c(2) by fastforce
qed

end
