(* ===== verification/Test_Programs.thy ===== *)
theory Test_Programs
  imports Avl Timer_Heap
begin

text \<open>
  The test programs \<open>src/test_avl.cpp\<close>, \<open>src/test_offset.cpp\<close> and \<open>src/test_heap.cpp\<close>. Each wraps a data
  structure in a container, works on it and asserts that the structure is sound; a failing \<open>assert\<close> is \<open>None\<close>.
  A \<open>multiset\<close> of the library is a multiset. The results of \<open>rand\<close> are an argument of \<open>main\<close>: the result of each call.
\<close>

section \<open>Loops\<close>

text \<open>A \<open>for\<close> loop over the values of its counter, with the variables that its body assigns.\<close>

fun for_each :: "'i list \<Rightarrow> ('i \<Rightarrow> 's \<Rightarrow> 's option) \<Rightarrow> 's \<Rightarrow> 's option" where
  "for_each [] f s = Some s"
| "for_each (i # is) f s = do { s \<leftarrow> f i s; for_each is f s }"

text \<open>\<open>for (uint32_t i = 0; i < sz; ++i)\<close>.\<close>

definition upto_u32 :: "u32 \<Rightarrow> u32 list" where
  "upto_u32 sz = map of_nat [0..<unat sz]"

section \<open>The container of the tree tests\<close>

text \<open>The objects \<open>Data\<close> of all containers: their member \<open>node\<close>, their member \<open>val\<close>, and the next free address.\<close>

record tmem =
  tnode :: astore
  tval :: "addr \<rightharpoonup> u32"
  tbrk :: addr

record container =
  croot :: ptr

definition container_new :: container where
  "container_new = \<lparr>croot = None\<rparr>"

definition data_new :: "tmem \<Rightarrow> u32 \<Rightarrow> tmem \<times> addr" where
  "data_new m v =
     (let a = tbrk m in (m\<lparr>tnode := (tnode m)(a \<mapsto> avl_init), tval := (tval m)(a \<mapsto> v), tbrk := a + 1\<rparr>, a))"

definition data_delete :: "tmem \<Rightarrow> addr \<Rightarrow> tmem" where
  "data_delete m a = m\<lparr>tnode := (tnode m)(a := None), tval := (tval m)(a := None)\<rparr>"

partial_function (option) add_search :: "tmem \<Rightarrow> ptr \<Rightarrow> u32 \<Rightarrow> ptr \<Rightarrow> aslot \<Rightarrow> (ptr \<times> aslot) option" where
  "add_search m root v cur from = do {
     p \<leftarrow> read_aslot (tnode m) root from;
     case p of
       None \<Rightarrow> Some (cur, from)
     | Some a \<Rightarrow> do {
         node_val \<leftarrow> tval m a;
         add_search m root v (Some a) (if v < node_val then LeftOf a else RightOf a) } }"

declare add_search.simps [code]

definition container_add :: "tmem \<Rightarrow> container \<Rightarrow> u32 \<Rightarrow> (tmem \<times> container) option" where
  "container_add m c v = do {
     let (m, data) = data_new m v;
     (cur, from) \<leftarrow> add_search m (croot c) v None Local;
     (s, root) \<leftarrow> assign_slot (tnode m) (croot c) from (Some data);
     s \<leftarrow> modify s data (\<lambda>n. n\<lparr>parent := cur\<rparr>);
     (s, root) \<leftarrow> avl_fix s data;
     Some (m\<lparr>tnode := s\<rparr>, c\<lparr>croot := root\<rparr>) }"

partial_function (option) del_search :: "tmem \<Rightarrow> u32 \<Rightarrow> ptr \<Rightarrow> ptr option" where
  "del_search m v cur =
     (case cur of
        None \<Rightarrow> Some None
      | Some a \<Rightarrow> do {
          node_val \<leftarrow> tval m a;
          if v = node_val then Some cur
          else do {
            n \<leftarrow> tnode m a;
            del_search m v (if v < node_val then left n else right n) } })"

declare del_search.simps [code]

definition container_del :: "tmem \<Rightarrow> container \<Rightarrow> u32 \<Rightarrow> (tmem \<times> container \<times> bool) option" where
  "container_del m c v = do {
     cur \<leftarrow> del_search m v (croot c);
     case cur of
       None \<Rightarrow> Some (m, c, False)
     | Some a \<Rightarrow> do {
         (s, root) \<leftarrow> avl_del (tnode m) a;
         Some (data_delete (m\<lparr>tnode := s\<rparr>) a, c\<lparr>croot := root\<rparr>, True) } }"

section \<open>The assertions\<close>

partial_function (option) avl_verify :: "tmem \<Rightarrow> ptr \<Rightarrow> ptr \<Rightarrow> unit option" where
  "avl_verify m par node =
     (case node of
        None \<Rightarrow> Some ()
      | Some a \<Rightarrow> do {
          n \<leftarrow> tnode m a;
          require (parent n = par);
          avl_verify m node (left n);
          avl_verify m node (right n);
          cl \<leftarrow> avl_cnt (tnode m) (left n);
          cr \<leftarrow> avl_cnt (tnode m) (right n);
          require (cnt n = 1 + cl + cr);
          l \<leftarrow> avl_height (tnode m) (left n);
          r \<leftarrow> avl_height (tnode m) (right n);
          require (l = r \<or> l + 1 = r \<or> l = r + 1);
          require (height n = 1 + max l r);
          v \<leftarrow> tval m a;
          (case left n of
             None \<Rightarrow> Some ()
           | Some b \<Rightarrow> do {
               k \<leftarrow> tnode m b;
               require (parent k = node);
               w \<leftarrow> tval m b;
               require (w \<le> v) });
          (case right n of
             None \<Rightarrow> Some ()
           | Some b \<Rightarrow> do {
               k \<leftarrow> tnode m b;
               require (parent k = node);
               w \<leftarrow> tval m b;
               require (v \<le> w) }) })"

declare avl_verify.simps [code]

partial_function (option) extract_values :: "tmem \<Rightarrow> ptr \<Rightarrow> u32 multiset \<Rightarrow> u32 multiset option" where
  "extract_values m node extracted =
     (case node of
        None \<Rightarrow> Some extracted
      | Some a \<Rightarrow> do {
          n \<leftarrow> tnode m a;
          extracted \<leftarrow> extract_values m (left n) extracted;
          v \<leftarrow> tval m a;
          extract_values m (right n) (add_mset v extracted) })"

declare extract_values.simps [code]

definition container_verify :: "tmem \<Rightarrow> container \<Rightarrow> u32 multiset \<Rightarrow> unit option" where
  "container_verify m c ref = do {
     avl_verify m None (croot c);
     n \<leftarrow> avl_cnt (tnode m) (croot c);
     require (unat n = size ref);
     extracted \<leftarrow> extract_values m (croot c) {#};
     require (extracted = ref) }"

partial_function (option) container_dispose :: "tmem \<Rightarrow> container \<Rightarrow> (tmem \<times> container) option" where
  "container_dispose m c =
     (case croot c of
        None \<Rightarrow> Some (m, c)
      | Some node \<Rightarrow> do {
          (s, root) \<leftarrow> avl_del (tnode m) node;
          container_dispose (data_delete (m\<lparr>tnode := s\<rparr>) node) (c\<lparr>croot := root\<rparr>) })"

declare container_dispose.simps [code]

section \<open>\<open>test_avl.cpp\<close>\<close>

type_synonym tstate = "tmem \<times> container \<times> u32 multiset"

definition add_ref :: "u32 \<Rightarrow> tstate \<Rightarrow> tstate option" where
  "add_ref v st = (case st of (m, c, ref) \<Rightarrow> do { (m, c) \<leftarrow> container_add m c v; Some (m, c, add_mset v ref) })"

definition verify_ref :: "tstate \<Rightarrow> tstate option" where
  "verify_ref st = (case st of (m, c, ref) \<Rightarrow> do { container_verify m c ref; Some st })"

definition test_insert :: "u32 \<Rightarrow> tmem \<Rightarrow> tmem option" where
  "test_insert sz = for_each (upto_u32 sz) (\<lambda>v m. do {
     st \<leftarrow> for_each (upto_u32 sz) (\<lambda>i st. if i = v then Some st else add_ref i st) (m, container_new, {#});
     st \<leftarrow> verify_ref st;
     st \<leftarrow> add_ref v st;
     (m, c, ref) \<leftarrow> verify_ref st;
     (m, c) \<leftarrow> container_dispose m c;
     Some m })"

definition test_insert_dup :: "u32 \<Rightarrow> tmem \<Rightarrow> tmem option" where
  "test_insert_dup sz = for_each (upto_u32 sz) (\<lambda>v m. do {
     st \<leftarrow> for_each (upto_u32 sz) add_ref (m, container_new, {#});
     st \<leftarrow> verify_ref st;
     st \<leftarrow> add_ref v st;
     (m, c, ref) \<leftarrow> verify_ref st;
     (m, c) \<leftarrow> container_dispose m c;
     Some m })"

text \<open>\<open>ref.erase(val)\<close> erases all elements with the value.\<close>

definition test_remove :: "u32 \<Rightarrow> tmem \<Rightarrow> tmem option" where
  "test_remove sz = for_each (upto_u32 sz) (\<lambda>v m. do {
     st \<leftarrow> for_each (upto_u32 sz) add_ref (m, container_new, {#});
     (m, c, ref) \<leftarrow> verify_ref st;
     (m, c, found) \<leftarrow> container_del m c v;
     require found;
     (m, c, ref) \<leftarrow> verify_ref (m, c, filter_mset (\<lambda>x. x \<noteq> v) ref);
     (m, c) \<leftarrow> container_dispose m c;
     Some m })"

text \<open>One round of the random deletions.\<close>

definition random_del :: "u32 \<Rightarrow> tstate \<Rightarrow> tstate option" where
  "random_del v st = (case st of (m, c, ref) \<Rightarrow>
     if v \<notin># ref then do {
       (m, c, found) \<leftarrow> container_del m c v;
       require (\<not> found);
       verify_ref (m, c, ref) }
     else do {
       (m, c, found) \<leftarrow> container_del m c v;
       require found;
       verify_ref (m, c, ref - {#v#}) })"

text \<open>\<open>rand k\<close> is the result of call number \<open>k\<close>; the process starts with no objects.\<close>

definition tmem_empty :: tmem where
  "tmem_empty = \<lparr>tnode = Map.empty, tval = Map.empty, tbrk = 0\<rparr>"

definition rand_val :: "int \<Rightarrow> u32" where
  "rand_val r = of_int r mod 1000"

definition test_avl_main :: "(nat \<Rightarrow> int) \<Rightarrow> tmem option" where
  "test_avl_main rand = do {
     (m, c, _) \<leftarrow> verify_ref (tmem_empty, container_new, {#});
     (m, c) \<leftarrow> container_add m c 123;
     (m, c, _) \<leftarrow> verify_ref (m, c, {#123#});
     (m, c, found) \<leftarrow> container_del m c 124;
     require (\<not> found);
     (m, c, found) \<leftarrow> container_del m c 123;
     require found;
     st \<leftarrow> verify_ref (m, c, {#});
     st \<leftarrow> for_each (map (\<lambda>k. of_nat (3 * k)) [0..<334]) (\<lambda>i st. do { st \<leftarrow> add_ref i st; verify_ref st }) st;
     st \<leftarrow> for_each [0..<100] (\<lambda>k st. do { st \<leftarrow> add_ref (rand_val (rand k)) st; verify_ref st }) st;
     (m, c, ref) \<leftarrow> for_each [0..<200] (\<lambda>k st. random_del (rand_val (rand (100 + k))) st) st;
     m \<leftarrow> for_each (upto_u32 200) (\<lambda>i m. do { m \<leftarrow> test_insert i m; m \<leftarrow> test_insert_dup i m; test_remove i m }) m;
     (m, c) \<leftarrow> container_dispose m c;
     Some m }"

section \<open>\<open>test_offset.cpp\<close>\<close>

partial_function (option) offset_add_loop :: "tmem \<Rightarrow> u32 \<Rightarrow> addr \<Rightarrow> addr \<Rightarrow> (tmem \<times> ptr) option" where
  "offset_add_loop m v data cur = do {
     node_val \<leftarrow> tval m cur;
     let from = (if v < node_val then LeftOf cur else RightOf cur);
     p \<leftarrow> read_aslot (tnode m) None from;
     case p of
       None \<Rightarrow> do {
         (s, _) \<leftarrow> assign_slot (tnode m) None from (Some data);
         s \<leftarrow> modify s data (\<lambda>n. n\<lparr>parent := Some cur\<rparr>);
         (s, root) \<leftarrow> avl_fix s data;
         Some (m\<lparr>tnode := s\<rparr>, root) }
     | Some a \<Rightarrow> offset_add_loop m v data a }"

declare offset_add_loop.simps [code]

definition offset_add :: "tmem \<Rightarrow> container \<Rightarrow> u32 \<Rightarrow> (tmem \<times> container) option" where
  "offset_add m c v = do {
     let (m, data) = data_new m v;
     case croot c of
       None \<Rightarrow> Some (m, c\<lparr>croot := Some data\<rparr>)
     | Some cur \<Rightarrow> do {
         (m, root) \<leftarrow> offset_add_loop m v data cur;
         Some (m, c\<lparr>croot := root\<rparr>) } }"

partial_function (option) offset_dispose :: "tmem \<Rightarrow> ptr \<Rightarrow> tmem option" where
  "offset_dispose m node =
     (case node of
        None \<Rightarrow> Some m
      | Some a \<Rightarrow> do {
          n \<leftarrow> tnode m a;
          m \<leftarrow> offset_dispose m (left n);
          n \<leftarrow> tnode m a;
          m \<leftarrow> offset_dispose m (right n);
          n \<leftarrow> tnode m a;
          Some (data_delete m a) })"

declare offset_dispose.simps [code]

text \<open>\<open>avl_offset\<close> must find a node, whose value must be \<open>v\<close>.\<close>

definition check_offset :: "tmem \<Rightarrow> addr \<Rightarrow> int \<Rightarrow> u32 \<Rightarrow> addr option" where
  "check_offset m node k v = do {
     p \<leftarrow> avl_offset (tnode m) node k;
     a \<leftarrow> p;
     w \<leftarrow> tval m a;
     require (w = v);
     Some a }"

definition offset_test_case :: "u32 \<Rightarrow> tmem \<Rightarrow> tmem option" where
  "offset_test_case sz m = do {
     (m, c) \<leftarrow> for_each (upto_u32 sz) (\<lambda>i (m, c). offset_add m c i) (m, container_new);
     root \<leftarrow> croot c;
     min \<leftarrow> avl_leftmost (tnode m) root;
     for_each (upto_u32 sz) (\<lambda>i u. do {
       node \<leftarrow> check_offset m min (uint i) i;
       for_each (upto_u32 sz) (\<lambda>j u. do {
         n2 \<leftarrow> check_offset m node (uint j - uint i) j;
         Some u }) u;
       p \<leftarrow> avl_offset (tnode m) node (- uint i - 1);
       require (p = None);
       p \<leftarrow> avl_offset (tnode m) node (uint (sz - i));
       require (p = None);
       Some u }) ();
     offset_dispose m (croot c) }"

definition test_offset_main :: "tmem option" where
  "test_offset_main = for_each (map of_nat [1..<500]) offset_test_case tmem_empty"

section \<open>\<open>test_heap.cpp\<close>\<close>

text \<open>
  \<open>hidx\<close> holds the members \<open>heap_idx\<close> of the objects \<open>Data\<close>, \<open>hbrk\<close> is the next free address. The \<open>multimap\<close>
  is the list of its pairs in the order of the keys; a new pair comes after those with its key.
\<close>

record hmem =
  hidx :: rstore
  hbrk :: addr

record hcontainer =
  cheap :: heap
  cmap :: "(u64 \<times> addr) list"

definition hcontainer_new :: hcontainer where
  "hcontainer_new = \<lparr>cheap = [], cmap = []\<rparr>"

definition multimap_insert :: "u64 \<times> addr \<Rightarrow> (u64 \<times> addr) list \<Rightarrow> (u64 \<times> addr) list" where
  "multimap_insert p xs = takeWhile (\<lambda>q. fst q \<le> fst p) xs @ p # dropWhile (\<lambda>q. fst q \<le> fst p) xs"

definition heap_add :: "hmem \<Rightarrow> hcontainer \<Rightarrow> u64 \<Rightarrow> (hmem \<times> hcontainer) option" where
  "heap_add m c v = do {
     let d = hbrk m;
     let rs = (hidx m)(d \<mapsto> no_timer);
     let mp = multimap_insert (v, d) (cmap c);
     let h = cheap c @ [\<lparr>hval = v, href = d\<rparr>];
     (h, rs) \<leftarrow> heap_update h rs (length h - 1) (length h);
     Some (\<lparr>hidx = rs, hbrk = d + 1\<rparr>, \<lparr>cheap = h, cmap = mp\<rparr>) }"

definition heap_del :: "hmem \<Rightarrow> hcontainer \<Rightarrow> u64 \<Rightarrow> (hmem \<times> hcontainer) option" where
  "heap_del m c v = do {
     it \<leftarrow> find (\<lambda>q. fst q = v) (cmap c);
     let d = snd it;
     i \<leftarrow> hidx m d;
     x \<leftarrow> nth_opt (cheap c) i;
     require (hval x = v);
     require (href x = d);
     h \<leftarrow> upd_nth (cheap c) i (last (cheap c));
     let h = butlast h;
     (h, rs) \<leftarrow> (if i < length h then heap_update h (hidx m) i (length h) else Some (h, hidx m));
     Some (m\<lparr>hidx := rs(d := None)\<rparr>, \<lparr>cheap = h, cmap = remove1 it (cmap c)\<rparr>) }"

definition heap_verify :: "hmem \<Rightarrow> hcontainer \<Rightarrow> unit option" where
  "heap_verify m c = do {
     let n = length (cheap c);
     require (n = length (cmap c));
     for_each [0..<n] (\<lambda>i u. do {
       x \<leftarrow> nth_opt (cheap c) i;
       require (heap_left i \<ge> n \<or> hval (cheap c ! heap_left i) \<ge> hval x);
       require (heap_right i \<ge> n \<or> hval (cheap c ! heap_right i) \<ge> hval x);
       j \<leftarrow> hidx m (href x);
       require (j = i);
       Some u }) () }"

definition heap_dispose :: "hmem \<Rightarrow> hcontainer \<Rightarrow> hmem option" where
  "heap_dispose m c = for_each (cmap c) (\<lambda>p m. do {
     require (hidx m (snd p) \<noteq> None);
     Some (m\<lparr>hidx := (hidx m)(snd p := None)\<rparr>) }) m"

text \<open>The counters \<open>i\<close> and \<open>j\<close> of 32 bits do not overflow for the sizes that \<open>main\<close> uses.\<close>

definition heap_test_case :: "nat \<Rightarrow> hmem \<Rightarrow> hmem option" where
  "heap_test_case sz m = do {
     m \<leftarrow> for_each [0..<2 + sz * 2] (\<lambda>j m. do {
       (m, c) \<leftarrow> for_each [0..<sz] (\<lambda>i (m, c). heap_add m c (ucast (1 + of_nat i * 2 :: u32))) (m, hcontainer_new);
       heap_verify m c;
       (m, c) \<leftarrow> heap_add m c (of_nat j);
       heap_verify m c;
       heap_dispose m c }) m;
     for_each [0..<sz] (\<lambda>j m. do {
       (m, c) \<leftarrow> for_each [0..<sz] (\<lambda>i (m, c). heap_add m c (of_nat i)) (m, hcontainer_new);
       heap_verify m c;
       (m, c) \<leftarrow> heap_del m c (of_nat j);
       heap_verify m c;
       heap_dispose m c }) m }"

definition test_heap_main :: "hmem option" where
  "test_heap_main = for_each [0..<200] heap_test_case \<lparr>hidx = Map.empty, hbrk = 0\<rparr>"

end
