(* ===== verification/Test_Programs_Correct.thy ===== *)
theory Test_Programs_Correct
  imports Test_Programs Avl_Correct Timer_Heap_Correct
begin

text \<open>
  The test programs run to their end, whatever \<open>rand\<close> returns: none of their assertions fails, and they free what
  they allocate. Each container implements a multiset (locale \<open>multiset_container\<close>). The assertions
  themselves are right: \<open>avl_verify\<close> accepts exactly the balanced trees with right cached fields.
\<close>

section \<open>Loops\<close>

lemma for_each_inv:
  assumes "I [] s"
    and "\<And>ys y zs s. xs = ys @ y # zs \<Longrightarrow> I ys s \<Longrightarrow> \<exists>s'. f y s = Some s' \<and> I (ys @ [y]) s'"
  shows "\<exists>s'. for_each xs f s = Some s' \<and> I xs s'"
proof -
  have "\<exists>s'. for_each zs f s = Some s' \<and> I xs s'" if "xs = ys @ zs" "I ys s" for ys zs s
    using that
  proof (induction zs arbitrary: ys s)
    case (Cons y zs)
    then obtain s1 where s1: "f y s = Some s1" "I (ys @ [y]) s1" using assms(2) by blast
    have "\<exists>s'. for_each zs f s1 = Some s' \<and> I xs s'" by (rule Cons.IH [of "ys @ [y]"]) (use Cons.prems s1 in auto)
    then show ?case using s1(1) by simp
  qed simp
  from this [of "[]" xs s] show ?thesis using assms(1) by simp
qed

text \<open>An invariant that does not depend on the counter.\<close>

lemma for_each_all:
  assumes "I s" and "\<And>y s. y \<in> set xs \<Longrightarrow> I s \<Longrightarrow> \<exists>s'. f y s = Some s' \<and> I s'"
  shows "\<exists>s'. for_each xs f s = Some s' \<and> I s'"
  using for_each_inv [of "\<lambda>_. I" s xs f] assms by (metis in_set_conv_decomp)

lemma length_upto_u32 [simp]: "length (upto_u32 sz) = unat sz"
  by (simp add: upto_u32_def)

lemma upto_u32_nth [simp]: "i < unat sz \<Longrightarrow> upto_u32 sz ! i = of_nat i"
  by (simp add: upto_u32_def)

lemma unat_u32_bound: "unat (w :: u32) < 2 ^ 32"
  using unsigned_less [of w, where 'a = nat] by simp

lemma set_upto_u32 [simp]: "set (upto_u32 sz) = {..< sz}"
proof -
  have "v \<in> (of_nat :: nat \<Rightarrow> u32) ` {..< unat sz}" if "v < sz" for v
    using that by (intro image_eqI [of _ _ "unat v"]) (simp_all add: word_less_nat_alt)
  moreover have "(of_nat i :: u32) < sz" if "i < unat sz" for i
    using that unat_u32_bound [of sz] by (simp add: word_less_nat_alt)
  ultimately show ?thesis by (auto simp: upto_u32_def lessThan_atLeast0)
qed

lemma sorted_upto_u32: "sorted (upto_u32 sz)"
proof -
  have "(of_nat i :: u32) \<le> of_nat j" if "i \<le> j" "j < unat sz" for i j
    using that unat_u32_bound [of sz] by (simp add: word_le_nat_alt)
  then show ?thesis by (auto simp: sorted_iff_nth_mono)
qed

lemma distinct_upto_u32: "distinct (upto_u32 sz)"
proof -
  have "inj_on (of_nat :: nat \<Rightarrow> u32) {0..< unat sz}"
    using unat_u32_bound [of sz] by (intro inj_onI) (auto simp: of_nat_u32_eq)
  then show ?thesis by (simp add: upto_u32_def distinct_map)
qed

section \<open>The contract of a container\<close>

text \<open>
  \<open>holds m c M R\<close>: in the memory \<open>m\<close> the container \<open>c\<close> holds the multiset \<open>M\<close>, and the objects that are not in it
  are \<open>R\<close>. Values are added one by one up to \<open>room\<close>, can be verified at any time, and disposal leaves \<open>R\<close>.
\<close>

locale multiset_container =
  fixes holds :: "'m \<Rightarrow> 'c \<Rightarrow> 'v multiset \<Rightarrow> 'r \<Rightarrow> bool"
    and add :: "'m \<Rightarrow> 'c \<Rightarrow> 'v \<Rightarrow> ('m \<times> 'c) option"
    and room :: nat
  assumes add_law: "holds m c M R \<Longrightarrow> size M < room \<Longrightarrow>
    \<exists>m' c'. add m c v = Some (m', c') \<and> holds m' c' (add_mset v M) R"
begin

lemma add_all:
  assumes "holds m c M R" and "size M + length vs \<le> room"
  shows "\<exists>m' c'. for_each vs (\<lambda>v (m, c). add m c v) (m, c) = Some (m', c') \<and> holds m' c' (M + mset vs) R"
  using assms
proof (induction vs arbitrary: m c M)
  case (Cons v vs)
  then obtain m1 c1 where 1: "add m c v = Some (m1, c1)" "holds m1 c1 (add_mset v M) R"
    using add_law [of m c M R v] by auto
  then show ?case using Cons.IH [OF 1(2)] Cons.prems by simp
qed simp

lemma add_map:
  assumes "holds m c M R" and "size M + length xs \<le> room"
  shows "\<exists>m' c'. for_each xs (\<lambda>x (m, c). add m c (f x)) (m, c) = Some (m', c') \<and>
    holds m' c' (M + image_mset f (mset xs)) R"
  using assms
proof (induction xs arbitrary: m c M)
  case (Cons x xs)
  then obtain m1 c1 where 1: "add m c (f x) = Some (m1, c1)" "holds m1 c1 (add_mset (f x) M) R"
    using add_law [of m c M R "f x"] by auto
  then show ?case using Cons.IH [OF 1(2)] Cons.prems by simp
qed simp

end

section \<open>Containers of the tree tests\<close>

abbreviation val_at :: "tmem \<Rightarrow> addr \<Rightarrow> u32" where
  "val_at m a \<equiv> the (tval m a)"

text \<open>All objects are below the next free address.\<close>

definition bounded :: "tmem \<Rightarrow> bool" where
  "bounded m \<longleftrightarrow> (\<forall>a \<ge> tbrk m. tnode m a = None \<and> tval m a = None)"

definition cont_inv :: "tmem \<Rightarrow> container \<Rightarrow> addr list \<Rightarrow> bool" where
  "cont_inv m c xs \<longleftrightarrow> avl_rep (tnode m) (croot c) xs \<and> (\<forall>a \<in> set xs. tval m a \<noteq> None) \<and>
     sorted (map (val_at m) xs) \<and> bounded m"

definition others :: "tmem \<Rightarrow> addr set \<Rightarrow> astore \<times> (addr \<rightharpoonup> u32)" where
  "others m A = (tnode m |` (- A), tval m |` (- A))"

definition holds :: "tmem \<Rightarrow> container \<Rightarrow> u32 multiset \<Rightarrow> astore \<times> (addr \<rightharpoonup> u32) \<Rightarrow> bool" where
  "holds m c M R \<longleftrightarrow> (\<exists>xs. cont_inv m c xs \<and> image_mset (val_at m) (mset xs) = M \<and> others m (set xs) = R)"

lemma holds_new: "bounded m \<Longrightarrow> holds m container_new {#} (tnode m, tval m)"
  unfolding holds_def cont_inv_def container_new_def avl_rep_def others_def
  by (intro exI [of _ "[]"]) (auto simp: restrict_map_def intro: exI [of _ Leaf])

lemma holds_bounded: "holds m c M R \<Longrightarrow> bounded m"
  by (auto simp: holds_def cont_inv_def)

text \<open>A container survives work on other memory.\<close>

lemma holds_cong: "holds m c M R \<Longrightarrow> tnode m' = tnode m \<Longrightarrow> tval m' = tval m \<Longrightarrow> bounded m' \<Longrightarrow> holds m' c M R"
  unfolding holds_def by (elim exE conjE, intro exI conjI) (auto simp: cont_inv_def others_def)

lemma tree_at_below: "tree_at (tnode m) par t \<Longrightarrow> bounded m \<Longrightarrow> a \<in> nodes t \<Longrightarrow> a < tbrk m"
  by (induction t arbitrary: par) (auto simp: bounded_def not_less [symmetric])

text \<open>The path from the root to the empty slot for a value, and where the slot is in the order.\<close>

fun add_path :: "(addr \<Rightarrow> u32) \<Rightarrow> u32 \<Rightarrow> ptree \<Rightarrow> step list \<Rightarrow> step list" where
  "add_path f v Leaf c = c"
| "add_path f v (Node l a r) c = (if v < f a then add_path f v l (FL a r # c) else add_path f v r (FR l a # c))"

lemma add_path_plug: "plug Leaf (add_path f v t c) = plug t c"
  by (induction t arbitrary: c) auto

lemma add_path_sorted:
  assumes "sorted (map f (before c @ inorder t @ after c))"
    and "\<forall>a \<in> set (before c). f a \<le> v" and "\<forall>a \<in> set (after c). v \<le> f a"
  shows "(\<forall>a \<in> set (before (add_path f v t c)). f a \<le> v) \<and> (\<forall>a \<in> set (after (add_path f v t c)). v \<le> f a)"
  using assms
proof (induction t arbitrary: c)
  case (Node l a r)
  show ?case
  proof (cases "v < f a")
    case True
    have "\<forall>b \<in> set (inorder r). f a \<le> f b" using Node.prems(1) by (simp add: sorted_append)
    then have "\<forall>b \<in> set (after (FL a r # c)). v \<le> f b" using Node.prems(3) True by auto
    then show ?thesis using Node.IH(1) [of "FL a r # c"] Node.prems True by simp
  next
    case False
    have "\<forall>b \<in> set (inorder l). f b \<le> f a" using Node.prems(1) by (simp add: sorted_append)
    then have "\<forall>b \<in> set (before (FR l a # c)). f b \<le> v" using Node.prems(2) False by auto
    then show ?thesis using Node.IH(2) [of "FR l a # c"] Node.prems False by simp
  qed
qed simp

lemma add_search_at:
  assumes "tree_at (tnode m) (ctx_par c) t" and "ctx_at (tnode m) (root_of t) c" and "c = [] \<Longrightarrow> root = root_of t"
    and "\<forall>a \<in> nodes t. tval m a = Some (f a)"
  shows "add_search m root v (ctx_par c) (ctx_slot c) = Some (ctx_par (add_path f v t c), ctx_slot (add_path f v t c))"
  using assms
proof (induction t arbitrary: c)
  case Leaf
  have "read_aslot (tnode m) root (ctx_slot c) = Some None"
    using read_ctx_slot [OF Leaf.prems(2)] Leaf.prems(3) by auto
  then show ?case by (subst add_search.simps) simp
next
  case (Node l a r)
  have r: "read_aslot (tnode m) root (ctx_slot c) = Some (Some a)"
    using read_ctx_slot [OF Node.prems(2)] Node.prems(3) by auto
  have "add_search m root v (ctx_par (FL a r # c)) (ctx_slot (FL a r # c)) =
      Some (ctx_par (add_path f v l (FL a r # c)), ctx_slot (add_path f v l (FL a r # c)))"
    by (rule Node.IH(1)) (use Node.prems in auto)
  moreover have "add_search m root v (ctx_par (FR l a # c)) (ctx_slot (FR l a # c)) =
      Some (ctx_par (add_path f v r (FR l a # c)), ctx_slot (add_path f v r (FR l a # c)))"
    by (rule Node.IH(2)) (use Node.prems in auto)
  ultimately show ?case using r Node.prems(4) by (subst add_search.simps) auto
qed

text \<open>What is known of a new object before it is linked.\<close>

lemma data_new_at:
  assumes inv: "cont_inv m c xs" and n: "data_new m v = (m1, x)"
  shows "\<exists>t. croot c = root_of t \<and> tree_at (tnode m1) None t \<and> bal t \<and> inorder t = xs \<and> distinct xs" and "x \<notin> set xs"
    and "tnode m1 x = Some avl_init" and "\<forall>a \<in> insert x (set xs). tval m1 a = Some (val_at m1 a)" and "val_at m1 x = v"
    and "\<And>a. a \<in> set xs \<Longrightarrow> val_at m1 a = val_at m a" and "bounded m1" and "others m1 (insert x (set xs)) = others m (set xs)"
proof -
  obtain t where t: "croot c = root_of t" "tree_at (tnode m) None t" "bal t" "inorder t = xs" "distinct xs"
    using inv by (auto simp: cont_inv_def avl_rep_def)
  have b: "bounded m" using inv by (simp add: cont_inv_def)
  have x: "x = tbrk m" and m1: "m1 = m\<lparr>tnode := (tnode m)(x \<mapsto> avl_init), tval := (tval m)(x \<mapsto> v), tbrk := x + 1\<rparr>"
    using n by (auto simp: data_new_def Let_def)
  show new: "x \<notin> set xs" using tree_at_below [OF t(2) b] t(4) x by auto
  then show "\<exists>t. croot c = root_of t \<and> tree_at (tnode m1) None t \<and> bal t \<and> inorder t = xs \<and> distinct xs"
    using t m1 by auto
  show "tnode m1 x = Some avl_init" "val_at m1 x = v" using m1 by simp_all
  show "\<forall>a \<in> insert x (set xs). tval m1 a = Some (val_at m1 a)" using m1 inv by (auto simp: cont_inv_def)
  show "val_at m1 a = val_at m a" if "a \<in> set xs" for a using that new m1 by auto
  show "bounded m1" using b m1 x by (auto simp: bounded_def)
  have "tnode m x = None" "tval m x = None" using b x by (auto simp: bounded_def)
  then show "others m1 (insert x (set xs)) = others m (set xs)"
    using m1 by (auto simp: others_def restrict_map_def fun_eq_iff)
qed

text \<open>Linking it at the end of its path puts its value into the container.\<close>

lemma cont_inv_linked:
  assumes inv: "cont_inv m c xs" and n: "data_new m v = (m1, x)" and d: "d = add_path (val_at m1) v t []"
    and t: "inorder t = xs" and r: "avl_rep s root (before d @ x # after d)" and f: "same_outside (insert x (set xs)) (tnode m1) s"
  shows "cont_inv (m1\<lparr>tnode := s\<rparr>) (c\<lparr>croot := root\<rparr>) (before d @ x # after d)"
    and "set (before d @ x # after d) = insert x (set xs)"
    and "mset (before d @ x # after d) = add_mset x (mset xs)"
    and "others (m1\<lparr>tnode := s\<rparr>) (insert x (set xs)) = others m (set xs)"
proof -
  note new = data_new_at [OF inv n]
  have xs: "xs = before d @ after d" using add_path_plug [of "val_at m1" v t "[]"] inorder_plug [of Leaf d] t d by simp
  then show s: "set (before d @ x # after d) = insert x (set xs)" "mset (before d @ x # after d) = add_mset x (mset xs)"
    by auto
  have e: "map (val_at m1) xs = map (val_at m) xs" using new(6) by simp
  have so: "sorted (map (val_at m1) xs)" unfolding e using inv by (simp add: cont_inv_def)
  from so have "\<forall>a \<in> set (before d). val_at m1 a \<le> v" "\<forall>a \<in> set (after d). v \<le> val_at m1 a"
    using add_path_sorted [of "val_at m1" "[]" t v] t d by simp_all
  then have "sorted (map (val_at m1) (before d @ x # after d))"
    using so new(5) unfolding xs by (auto simp: sorted_append intro: order_trans)
  moreover have "bounded (m1\<lparr>tnode := s\<rparr>)"
  proof -
    have "a \<notin> insert x (set xs)" if "tbrk m1 \<le> a" for a
      using that new(4,7) by (force simp: bounded_def)
    then show ?thesis using new(7) f by (auto simp: bounded_def same_outside_def)
  qed
  moreover have "\<forall>a \<in> set (before d @ x # after d). tval m1 a \<noteq> None" using new(4) s(1) by auto
  ultimately show "cont_inv (m1\<lparr>tnode := s\<rparr>) (c\<lparr>croot := root\<rparr>) (before d @ x # after d)"
    using r by (simp add: cont_inv_def)
  have "tnode m1 |` (- insert x (set xs)) = s |` (- insert x (set xs))"
    using f by (auto simp: same_outside_def restrict_map_def fun_eq_iff)
  then show "others (m1\<lparr>tnode := s\<rparr>) (insert x (set xs)) = others m (set xs)"
    using new(8) by (simp add: others_def)
qed

lemma holds_linked:
  assumes "cont_inv m c xs" and "data_new m v = (m1, x)" and "d = add_path (val_at m1) v t []"
    and "inorder t = xs" and "avl_rep s root (before d @ x # after d)" and "same_outside (insert x (set xs)) (tnode m1) s"
    and "image_mset (val_at m) (mset xs) = M" and "others m (set xs) = R"
  shows "holds (m1\<lparr>tnode := s\<rparr>) (c\<lparr>croot := root\<rparr>) (add_mset v M) R"
proof -
  note l = cont_inv_linked [OF assms(1-6)] and new = data_new_at [OF assms(1,2)]
  have "image_mset (val_at m1) (mset (before d @ x # after d)) = add_mset v M"
    using l(3) new(5,6) assms(7) by (auto intro!: image_mset_cong)
  then show ?thesis unfolding holds_def
    using l(1,2,4) assms(8) by (intro exI [of _ "before d @ x # after d"]) simp
qed

lemma container_add_holds:
  assumes h: "holds m c M R" and len: "size M < avl_max"
  shows "\<exists>m' c'. container_add m c v = Some (m', c') \<and> holds m' c' (add_mset v M) R"
proof -
  obtain xs where xs: "cont_inv m c xs" "image_mset (val_at m) (mset xs) = M" "others m (set xs) = R"
    using h by (auto simp: holds_def)
  obtain m1 x where n: "data_new m v = (m1, x)" by fastforce
  note new = data_new_at [OF xs(1) n]
  obtain t where t: "croot c = root_of t" "tree_at (tnode m1) None t" "bal t" "inorder t = xs" "distinct xs"
    using new(1) by blast
  define d where "d = add_path (val_at m1) v t []"
  have s: "add_search m1 (croot c) v None Local = Some (ctx_par d, ctx_slot d)"
    using add_search_at [of m1 "[]" t "croot c" "val_at m1" v] t new(4) by (simp add: d_def)
  have "length xs < avl_max" using len xs(2) by (metis size_image_mset size_mset)
  then obtain s1 root1 s2 root where l: "assign_slot (tnode m1) (croot c) (ctx_slot d) (Some x) = Some (s1, root1)"
    "s1 x = Some avl_init" "avl_fix (s1(x \<mapsto> avl_init\<lparr>parent := ctx_par d\<rparr>)) x = Some (s2, root)"
    "avl_rep s2 root (before d @ x # after d)" "same_outside (insert x (set xs)) (tnode m1) s2"
    using link_leaf_at [OF t(2,3) _ _ _ new(3), of d "croot c"] t(4,5) new(2) add_path_plug [of "val_at m1" v t "[]"]
    by (auto simp: d_def)
  have "container_add m c v = Some (m1\<lparr>tnode := s2\<rparr>, c\<lparr>croot := root\<rparr>)"
    using n s l(1-3) by (simp add: container_add_def)
  then show ?thesis using holds_linked [OF xs(1) n d_def t(4) l(4,5) xs(2,3)] by blast
qed

interpretation tree_cont: multiset_container holds container_add avl_max
  by unfold_locales (rule container_add_holds)

section \<open>Deletion\<close>

text \<open>Among the values of a sorted tree the search finds one that is equal, when there is one.\<close>

lemma del_search_at:
  assumes "tree_at (tnode m) par t" and "\<forall>a \<in> nodes t. tval m a \<noteq> None" and "sorted (map (val_at m) (inorder t))"
  shows "\<exists>r. del_search m v (root_of t) = Some r \<and>
    (case r of None \<Rightarrow> v \<notin> val_at m ` nodes t | Some a \<Rightarrow> a \<in> nodes t \<and> val_at m a = v)"
  using assms
proof (induction t arbitrary: par)
  case Leaf
  show ?case by (subst del_search.simps) simp
next
  case (Node l a r)
  obtain w where w: "tval m a = Some w" using Node.prems(2) by auto
  have so: "sorted (map (val_at m) (inorder l))" "sorted (map (val_at m) (inorder r))"
    "\<forall>b \<in> nodes l. val_at m b \<le> w" "\<forall>b \<in> nodes r. w \<le> val_at m b"
    using Node.prems(3) w by (simp_all add: sorted_append)
  obtain rl where rl: "del_search m v (root_of l) = Some rl"
    "case rl of None \<Rightarrow> v \<notin> val_at m ` nodes l | Some b \<Rightarrow> b \<in> nodes l \<and> val_at m b = v"
    using Node.IH(1) [of "Some a"] Node.prems(1,2) so(1) by auto
  obtain rr where rr: "del_search m v (root_of r) = Some rr"
    "case rr of None \<Rightarrow> v \<notin> val_at m ` nodes r | Some b \<Rightarrow> b \<in> nodes r \<and> val_at m b = v"
    using Node.IH(2) [of "Some a"] Node.prems(1,2) so(2) by auto
  have n: "tnode m a = Some \<lparr>parent = par, left = root_of l, right = root_of r,
    height = aux_height (Node l a r), cnt = aux_cnt (Node l a r)\<rparr>" using Node.prems(1) by simp
  consider "v = w" | "v < w" | "w < v" by (rule linorder_cases [of v w])
  then show ?case
  proof cases
    case 1
    then show ?thesis using w by (subst del_search.simps) (simp add: exI [of _ "Some a"])
  next
    case 2
    then have "v \<notin> val_at m ` nodes r" using so(4) by auto
    moreover have "del_search m v (root_of (Node l a r)) = Some rl"
      using 2 w n rl(1) by (subst del_search.simps) auto
    ultimately show ?thesis using 2 w rl(2) by (intro exI [of _ rl]) (auto split: option.splits)
  next
    case 3
    then have "v \<notin> val_at m ` nodes l" using so(3) by auto
    moreover have "del_search m v (root_of (Node l a r)) = Some rr"
      using 3 w n rr(1) by (subst del_search.simps) auto
    ultimately show ?thesis using 3 w rr(2) by (intro exI [of _ rr]) (auto split: option.splits)
  qed
qed

text \<open>Unlinking a node and freeing it.\<close>

lemma cont_inv_unlink:
  assumes inv: "cont_inv m c xs" and a: "a \<in> set xs"
  shows "\<exists>s root. avl_del (tnode m) a = Some (s, root) \<and>
    cont_inv (data_delete (m\<lparr>tnode := s\<rparr>) a) (c\<lparr>croot := root\<rparr>) (remove1 a xs) \<and>
    others (data_delete (m\<lparr>tnode := s\<rparr>) a) (set (remove1 a xs)) = others m (set xs) \<and>
    image_mset (val_at (data_delete (m\<lparr>tnode := s\<rparr>) a)) (mset (remove1 a xs)) =
      image_mset (val_at m) (mset xs) - {#val_at m a#}"
proof -
  have r: "avl_rep (tnode m) (croot c) xs" and v: "\<forall>b \<in> set xs. tval m b \<noteq> None"
    and so: "sorted (map (val_at m) xs)" and b: "bounded m" and d: "distinct xs"
    using inv by (auto simp: cont_inv_def avl_rep_def)
  obtain s root where s: "avl_del (tnode m) a = Some (s, root)" "avl_rep s root (remove1 a xs)"
    "same_outside (set xs) (tnode m) s" using avl_del_rep [OF r a] by blast
  let ?m = "data_delete (m\<lparr>tnode := s\<rparr>) a"
  have rem: "set (remove1 a xs) = set xs - {a}" using d by simp
  have same: "val_at ?m b = val_at m b" if "b \<in> set (remove1 a xs)" for b
    using that rem by (auto simp: data_delete_def)
  have "avl_rep (tnode ?m) root (remove1 a xs)"
    by (rule avl_rep_frame [OF s(2), of "{a}"]) (use rem in \<open>simp_all add: data_delete_def\<close>)
  moreover have "\<forall>b \<in> set (remove1 a xs). tval ?m b \<noteq> None" using v rem by (simp add: data_delete_def)
  moreover have "sorted (map (val_at ?m) (remove1 a xs))"
  proof -
    have e: "map (val_at ?m) (remove1 a xs) = map (val_at m) (remove1 a xs)" using same by simp
    show ?thesis unfolding e using so by (rule sorted_map_remove1)
  qed
  moreover have "bounded ?m"
    unfolding bounded_def
  proof (intro allI impI)
    fix x assume x: "tbrk ?m \<le> x"
    then have "tnode m x = None" "tval m x = None" using b by (auto simp: bounded_def data_delete_def)
    moreover have "live s x = live (tnode m) x" using avl_del_live [OF s(1)] by simp
    ultimately show "tnode ?m x = None \<and> tval ?m x = None" by (simp add: live_def data_delete_def)
  qed
  ultimately have "cont_inv ?m (c\<lparr>croot := root\<rparr>) (remove1 a xs)" by (simp add: cont_inv_def)
  moreover have "others ?m (set (remove1 a xs)) = others m (set xs)"
    using s(3) rem a by (auto simp: others_def data_delete_def restrict_map_def same_outside_def fun_eq_iff)
  moreover have "image_mset (val_at ?m) (mset (remove1 a xs)) = image_mset (val_at m) (mset (remove1 a xs))"
    by (intro image_mset_cong same) (simp only: set_mset_mset)
  then have "image_mset (val_at ?m) (mset (remove1 a xs)) = image_mset (val_at m) (mset xs) - {#val_at m a#}"
    using a by (simp add: image_mset_Diff)
  ultimately show ?thesis using s(1) by blast
qed

lemma container_del_holds:
  assumes h: "holds m c M R"
  shows "\<exists>m' c'. container_del m c v = Some (m', c', v \<in># M) \<and> holds m' c' (M - {#v#}) R"
proof -
  obtain xs where xs: "cont_inv m c xs" "image_mset (val_at m) (mset xs) = M" "others m (set xs) = R"
    using h by (auto simp: holds_def)
  obtain t where t: "croot c = root_of t" "tree_at (tnode m) None t" "inorder t = xs"
    using xs(1) by (auto simp: cont_inv_def avl_rep_def)
  obtain r where r: "del_search m v (croot c) = Some r"
    "case r of None \<Rightarrow> v \<notin> val_at m ` set xs | Some a \<Rightarrow> a \<in> set xs \<and> val_at m a = v"
    using del_search_at [OF t(2), of v] t xs(1) unfolding cont_inv_def by auto
  show ?thesis
  proof (cases r)
    case None
    then have "v \<notin># M" using r(2) xs(2) by auto
    then show ?thesis using r(1) None h by (simp add: container_del_def diff_single_trivial)
  next
    case (Some a)
    then have a: "a \<in> set xs" "val_at m a = v" using r(2) by auto
    then have "v \<in># M" using xs(2) by auto
    obtain s root where s: "avl_del (tnode m) a = Some (s, root)"
      "cont_inv (data_delete (m\<lparr>tnode := s\<rparr>) a) (c\<lparr>croot := root\<rparr>) (remove1 a xs)"
      "others (data_delete (m\<lparr>tnode := s\<rparr>) a) (set (remove1 a xs)) = R"
      "image_mset (val_at (data_delete (m\<lparr>tnode := s\<rparr>) a)) (mset (remove1 a xs)) = M - {#v#}"
      using cont_inv_unlink [OF xs(1) a(1)] xs(2,3) a(2) by auto
    then have "holds (data_delete (m\<lparr>tnode := s\<rparr>) a) (c\<lparr>croot := root\<rparr>) (M - {#v#}) R"
      unfolding holds_def by blast
    then show ?thesis using r(1) Some s(1) \<open>v \<in># M\<close> by (simp add: container_del_def)
  qed
qed

text \<open>Deleting the root until nothing is left.\<close>

lemma container_dispose_inv:
  "cont_inv m c xs \<Longrightarrow> others m (set xs) = R \<Longrightarrow>
   \<exists>m'. container_dispose m c = Some (m', container_new) \<and> (tnode m', tval m') = R \<and> bounded m'"
proof (induction "length xs" arbitrary: m c xs)
  case 0
  then have "xs = []" "croot c = None"
    by (auto simp: cont_inv_def avl_rep_def) (metis inorder.elims append_is_Nil_conv list.distinct(1) root_of.simps(1))
  then show ?case using 0 by (subst container_dispose.simps) (auto simp: container_new_def others_def cont_inv_def restrict_map_def)
next
  case (Suc n)
  obtain t where t: "croot c = root_of t" "inorder t = xs" using Suc.prems(1) by (auto simp: cont_inv_def avl_rep_def)
  then obtain a where a: "croot c = Some a" "a \<in> set xs"
    using Suc.hyps(2) root_of_in_nodes [of t] by (cases t) auto
  obtain s root where s: "avl_del (tnode m) a = Some (s, root)"
    "cont_inv (data_delete (m\<lparr>tnode := s\<rparr>) a) (c\<lparr>croot := root\<rparr>) (remove1 a xs)"
    "others (data_delete (m\<lparr>tnode := s\<rparr>) a) (set (remove1 a xs)) = R"
    using cont_inv_unlink [OF Suc.prems(1) a(2)] Suc.prems(2) by auto
  have "n = length (remove1 a xs)" using Suc.hyps(2) a(2) by (simp add: length_remove1)
  from Suc.hyps(1) [OF this s(2,3)] show ?case using a(1) s(1) by (subst container_dispose.simps) simp
qed

lemma container_dispose_holds:
  "holds m c M R \<Longrightarrow> \<exists>m'. container_dispose m c = Some (m', container_new) \<and> (tnode m', tval m') = R \<and> bounded m'"
  unfolding holds_def using container_dispose_inv by blast


section \<open>The assertions\<close>

text \<open>The child pointers of the nodes form the tree \<open>t\<close>; nothing is said of the other members.\<close>

fun shape_at :: "astore \<Rightarrow> ptree \<Rightarrow> bool" where
  "shape_at s Leaf = True"
| "shape_at s (Node l a r) \<longleftrightarrow>
     (\<exists>n. s a = Some n \<and> left n = root_of l \<and> right n = root_of r) \<and> shape_at s l \<and> shape_at s r"

text \<open>The value of a node is between those of its children.\<close>

fun kids_ordered :: "(addr \<Rightarrow> u32) \<Rightarrow> ptree \<Rightarrow> bool" where
  "kids_ordered f Leaf = True"
| "kids_ordered f (Node l a r) \<longleftrightarrow> (\<forall>b. root_of l = Some b \<longrightarrow> f b \<le> f a) \<and> (\<forall>b. root_of r = Some b \<longrightarrow> f a \<le> f b) \<and>
     kids_ordered f l \<and> kids_ordered f r"

lemma tree_at_shape: "tree_at s par t \<Longrightarrow> shape_at s t"
  by (induction s par t rule: tree_at.induct) auto

lemma sorted_kids_ordered: "sorted (map f (inorder t)) \<Longrightarrow> kids_ordered f t"
  by (induction t) (auto simp: sorted_append dest: root_of_in_nodes)

lemma heights_near: "ht l < 2 ^ 32 - 1 \<Longrightarrow> ht r < 2 ^ 32 - 1 \<Longrightarrow>
  aux_height l = aux_height r \<or> aux_height l + 1 = aux_height r \<or> aux_height l = aux_height r + 1 \<longleftrightarrow>
  ht l \<le> ht r + 1 \<and> ht r \<le> ht l + 1"
  unfolding aux_height_def of_nat_Suc [symmetric] using of_nat_u32_eq [of "ht l" "ht r"] of_nat_u32_eq [of "Suc (ht l)" "ht r"]
    of_nat_u32_eq [of "ht l" "Suc (ht r)"] by (auto simp: add.commute)

text \<open>The two assertions on a child.\<close>

lemma kid_checks:
  assumes "tree_at (tnode m) (Some a) t" and "\<forall>b \<in> nodes t. tval m b = Some (f b)"
  shows "(case root_of t of None \<Rightarrow> Some () | Some b \<Rightarrow> do {
      k \<leftarrow> tnode m b; require (parent k = Some a); w \<leftarrow> tval m b; require (w \<le> v) }) = require (\<forall>b. root_of t = Some b \<longrightarrow> f b \<le> v)"
    and "(case root_of t of None \<Rightarrow> Some () | Some b \<Rightarrow> do {
      k \<leftarrow> tnode m b; require (parent k = Some a); w \<leftarrow> tval m b; require (v \<le> w) }) = require (\<forall>b. root_of t = Some b \<longrightarrow> v \<le> f b)"
  using assms by (cases t; simp)+

lemma avl_verify_at:
  assumes "shape_at (tnode m) t" and "\<forall>a \<in> nodes t. tval m a = Some (f a)" and "tsize t \<le> avl_max"
  shows "avl_verify m par (root_of t) = Some () \<longleftrightarrow> tree_at (tnode m) par t \<and> bal t \<and> kids_ordered f t"
  using assms
proof (induction t arbitrary: par)
  case Leaf
  show ?case by (subst avl_verify.simps) simp
next
  case (Node l a r)
  obtain n where n: "tnode m a = Some n" "left n = root_of l" "right n = root_of r" using Node.prems(1) by auto
  have v: "tval m a = Some (f a)" "\<forall>b \<in> nodes l. tval m b = Some (f b)" "\<forall>b \<in> nodes r. tval m b = Some (f b)"
    using Node.prems(2) by auto
  have IH: "avl_verify m (Some a) (root_of l) = Some () \<longleftrightarrow> tree_at (tnode m) (Some a) l \<and> bal l \<and> kids_ordered f l"
    "avl_verify m (Some a) (root_of r) = Some () \<longleftrightarrow> tree_at (tnode m) (Some a) r \<and> bal r \<and> kids_ordered f r"
    using Node by auto
  have sz: "tsize l < 2 ^ 32" "tsize r < 2 ^ 32" and h: "ht l < 2 ^ 32 - 1" "ht r < 2 ^ 32 - 1"
    using ht_le_tsize [of l] ht_le_tsize [of r] Node.prems(3) by (auto simp: avl_max_def)
  show ?case
  proof (cases "parent n = par \<and> tree_at (tnode m) (Some a) l \<and> bal l \<and> kids_ordered f l \<and>
      tree_at (tnode m) (Some a) r \<and> bal r \<and> kids_ordered f r")
    case True
    then have t: "tree_at (tnode m) (Some a) l" "tree_at (tnode m) (Some a) r" by auto
    have c: "avl_cnt (tnode m) (root_of l) = Some (aux_cnt l)" "avl_cnt (tnode m) (root_of r) = Some (aux_cnt r)"
      "avl_height (tnode m) (root_of l) = Some (aux_height l)" "avl_height (tnode m) (root_of r) = Some (aux_height r)"
      using t by auto
    have mx: "1 + max (aux_height l) (aux_height r) = aux_height (Node l a r)"
      using aux_height_Node [OF sz, of a] by (auto simp: max_u32_def max_def split: if_splits)
    have "avl_verify m par (Some a) = do {
      require (cnt n = aux_cnt (Node l a r));
      require (ht l \<le> ht r + 1 \<and> ht r \<le> ht l + 1);
      require (height n = aux_height (Node l a r));
      require (\<forall>b. root_of l = Some b \<longrightarrow> f b \<le> f a);
      require (\<forall>b. root_of r = Some b \<longrightarrow> f a \<le> f b) }"
      using True IH n v by (subst avl_verify.simps) (simp add: c mx aux_cnt_Node [of l r a] heights_near [OF h] kid_checks [OF t(1) v(2)] kid_checks [OF t(2) v(3)])
    moreover have "tree_at (tnode m) par (Node l a r) \<longleftrightarrow> height n = aux_height (Node l a r) \<and> cnt n = aux_cnt (Node l a r)"
      using True n by (cases n) auto
    ultimately show ?thesis using True by (auto simp: bind_eq_Some_conv simp del: tree_at.simps)
  next
    case False
    then have "avl_verify m par (root_of (Node l a r)) \<noteq> Some ()"
      using n IH by (subst avl_verify.simps) (auto simp: bind_eq_Some_conv)
    then show ?thesis using False n by auto
  qed
qed

lemma extract_values_at:
  "shape_at (tnode m) t \<Longrightarrow> \<forall>a \<in> nodes t. tval m a \<noteq> None \<Longrightarrow>
   extract_values m (root_of t) M = Some (M + image_mset (val_at m) (mset (inorder t)))"
proof (induction t arbitrary: M)
  case Leaf
  show ?case by (subst extract_values.simps) simp
next
  case (Node l a r)
  then show ?case by (subst extract_values.simps) (auto simp: ac_simps)
qed

lemma container_verify_holds:
  assumes h: "holds m c M R"
  shows "container_verify m c M = Some ()"
proof -
  obtain xs where xs: "cont_inv m c xs" "image_mset (val_at m) (mset xs) = M" using h by (auto simp: holds_def)
  obtain t where t: "croot c = root_of t" "tree_at (tnode m) None t" "bal t" "inorder t = xs" "length xs \<le> avl_max"
    using xs(1) by (auto simp: cont_inv_def avl_rep_def)
  have v: "\<forall>a \<in> nodes t. tval m a = Some (val_at m a)" and so: "sorted (map (val_at m) (inorder t))"
    using xs(1) t(4) by (auto simp: cont_inv_def)
  have "avl_verify m None (croot c) = Some ()"
    using avl_verify_at [OF tree_at_shape [OF t(2)] v] sorted_kids_ordered [OF so] t by simp
  moreover have "avl_cnt (tnode m) (croot c) = Some (of_nat (length xs))" using t by (simp add: aux_cnt_def)
  moreover have "extract_values m (croot c) {#} = Some M"
    using extract_values_at [OF tree_at_shape [OF t(2)], of "{#}"] xs t(1,4) by (simp add: cont_inv_def)
  moreover have "size M = length xs" using xs(2) by (metis size_image_mset size_mset)
  moreover have "length xs < 2 ^ 32" using t(5) by (simp add: avl_max_def)
  ultimately show ?thesis by (simp add: container_verify_def)
qed

section \<open>\<open>test_avl.cpp\<close>\<close>

text \<open>A state of a test: the container holds what the reference multiset says, at most \<open>n\<close> values.\<close>

definition in_step :: "nat \<Rightarrow> astore \<times> (addr \<rightharpoonup> u32) \<Rightarrow> tstate \<Rightarrow> bool" where
  "in_step n R st \<longleftrightarrow> (case st of (m, c, ref) \<Rightarrow> holds m c ref R \<and> size ref \<le> n)"

lemma in_step_simp [simp]: "in_step n R (m, c, ref) \<longleftrightarrow> holds m c ref R \<and> size ref \<le> n"
  by (simp add: in_step_def)

lemma verify_ref_ok [simp]: "holds m c ref R \<Longrightarrow> verify_ref (m, c, ref) = Some (m, c, ref)"
  by (simp add: verify_ref_def container_verify_holds)

lemma add_ref_holds: "holds m c ref R \<Longrightarrow> size ref < avl_max \<Longrightarrow>
  \<exists>m' c'. add_ref v (m, c, ref) = Some (m', c', add_mset v ref) \<and> holds m' c' (add_mset v ref) R"
  using container_add_holds [of m c ref R v] by (auto simp: add_ref_def)

lemma add_ref_in_step: "in_step n R st \<Longrightarrow> n < avl_max \<Longrightarrow> \<exists>st'. add_ref v st = Some st' \<and> in_step (Suc n) R st'"
  using add_ref_holds [of _ _ _ R v] by (cases st) fastforce

lemma verify_ref_in_step [simp]: "in_step n R st \<Longrightarrow> verify_ref st = Some st"
  by (cases st) auto

lemma add_refs_hold: "holds m c ref R \<Longrightarrow> size ref + length vs \<le> avl_max \<Longrightarrow>
  \<exists>m' c'. for_each vs add_ref (m, c, ref) = Some (m', c', ref + mset vs) \<and> holds m' c' (ref + mset vs) R"
proof (induction vs arbitrary: m c ref)
  case (Cons v vs)
  then obtain m1 c1 where 1: "add_ref v (m, c, ref) = Some (m1, c1, add_mset v ref)" "holds m1 c1 (add_mset v ref) R"
    using add_ref_holds [of m c ref R v] by auto
  then show ?case using Cons.IH [OF 1(2)] Cons.prems by simp
qed simp

lemma for_each_filter: "for_each xs (\<lambda>i st. if P i then Some st else f i st) st = for_each (filter (\<lambda>i. \<not> P i) xs) f st"
proof (induction xs arbitrary: st)
  case (Cons x xs)
  have "for_each xs (\<lambda>i st. if P i then Some st else f i st) = for_each (filter (\<lambda>i. \<not> P i) xs) f"
    using Cons.IH by (rule ext)
  then show ?case by simp
qed simp

text \<open>A test that builds a container of its own leaves the other objects as they were.\<close>

definition same_objects :: "tmem \<Rightarrow> tmem \<Rightarrow> bool" where
  "same_objects m m' \<longleftrightarrow> tnode m' = tnode m \<and> tval m' = tval m \<and> bounded m'"

lemma same_objects_trans: "same_objects m m' \<Longrightarrow> same_objects m' m'' \<Longrightarrow> same_objects m m''"
  by (simp add: same_objects_def)

lemma same_objects_bounded: "same_objects m m' \<Longrightarrow> bounded m'"
  by (simp add: same_objects_def)

lemma dispose_same: "holds m' c M (tnode m, tval m) \<Longrightarrow>
  \<exists>m''. container_dispose m' c = Some (m'', container_new) \<and> same_objects m m''"
  using container_dispose_holds [of m' c M "(tnode m, tval m)"] by (auto simp: same_objects_def)

lemma rounds_same:
  assumes "bounded m" and "\<And>y m. y \<in> set xs \<Longrightarrow> bounded m \<Longrightarrow> \<exists>m'. f y m = Some m' \<and> same_objects m m'"
  shows "\<exists>m'. for_each xs f m = Some m' \<and> same_objects m m'"
proof (rule for_each_all)
  show "same_objects m m" using assms(1) by (simp add: same_objects_def)
  show "\<exists>s'. f y s = Some s' \<and> same_objects m s'" if "y \<in> set xs" "same_objects m s" for y s
    using assms(2) [OF that(1) same_objects_bounded [OF that(2)]] same_objects_trans [OF that(2)] by blast
qed

lemma test_insert_ok:
  assumes "bounded m" and "unat sz < avl_max"
  shows "\<exists>m'. test_insert sz m = Some m' \<and> same_objects m m'"
  unfolding test_insert_def
proof (rule rounds_same [OF assms(1)])
  fix v m assume b: "bounded m"
  let ?vs = "filter (\<lambda>i. i \<noteq> v) (upto_u32 sz)"
  have len: "length ?vs < avl_max" using assms(2) length_filter_le [of "\<lambda>i. i \<noteq> v" "upto_u32 sz"] by simp
  obtain m1 c1 where 1: "for_each ?vs add_ref (m, container_new, {#}) = Some (m1, c1, mset ?vs)"
    "holds m1 c1 (mset ?vs) (tnode m, tval m)"
    using add_refs_hold [OF holds_new [OF b], of ?vs] len by auto
  obtain m2 c2 where 2: "add_ref v (m1, c1, mset ?vs) = Some (m2, c2, add_mset v (mset ?vs))"
    "holds m2 c2 (add_mset v (mset ?vs)) (tnode m, tval m)"
    using add_ref_holds [OF 1(2), of v] len by (auto simp del: mset_filter)
  obtain m3 where 3: "container_dispose m2 c2 = Some (m3, container_new)" "same_objects m m3"
    using dispose_same [OF 2(2)] by blast
  show "\<exists>m'. (do {
     st \<leftarrow> for_each (upto_u32 sz) (\<lambda>i st. if i = v then Some st else add_ref i st) (m, container_new, {#});
     st \<leftarrow> verify_ref st;
     st \<leftarrow> add_ref v st;
     (m, c, ref) \<leftarrow> verify_ref st;
     (m, c) \<leftarrow> container_dispose m c;
     Some m }) = Some m' \<and> same_objects m m'"
    using 1 2 3 by (simp add: for_each_filter del: mset_filter)
qed

lemma test_insert_dup_ok:
  assumes "bounded m" and "unat sz < avl_max"
  shows "\<exists>m'. test_insert_dup sz m = Some m' \<and> same_objects m m'"
  unfolding test_insert_dup_def
proof (rule rounds_same [OF assms(1)])
  fix v m assume b: "bounded m"
  let ?vs = "upto_u32 sz"
  obtain m1 c1 where 1: "for_each ?vs add_ref (m, container_new, {#}) = Some (m1, c1, mset ?vs)"
    "holds m1 c1 (mset ?vs) (tnode m, tval m)"
    using add_refs_hold [OF holds_new [OF b], of ?vs] assms(2) by auto
  obtain m2 c2 where 2: "add_ref v (m1, c1, mset ?vs) = Some (m2, c2, add_mset v (mset ?vs))"
    "holds m2 c2 (add_mset v (mset ?vs)) (tnode m, tval m)"
    using add_ref_holds [OF 1(2), of v] assms(2) by auto
  obtain m3 where 3: "container_dispose m2 c2 = Some (m3, container_new)" "same_objects m m3"
    using dispose_same [OF 2(2)] by blast
  show "\<exists>m'. (do {
     st \<leftarrow> for_each (upto_u32 sz) add_ref (m, container_new, {#});
     st \<leftarrow> verify_ref st;
     st \<leftarrow> add_ref v st;
     (m, c, ref) \<leftarrow> verify_ref st;
     (m, c) \<leftarrow> container_dispose m c;
     Some m }) = Some m' \<and> same_objects m m'"
    using 1 2 3 by simp
qed

lemma test_remove_ok:
  assumes "bounded m" and "unat sz < avl_max"
  shows "\<exists>m'. test_remove sz m = Some m' \<and> same_objects m m'"
  unfolding test_remove_def
proof (rule rounds_same [OF assms(1)])
  fix v m assume b: "bounded m" and v: "v \<in> set (upto_u32 sz)"
  let ?vs = "upto_u32 sz"
  obtain m1 c1 where 1: "for_each ?vs add_ref (m, container_new, {#}) = Some (m1, c1, mset ?vs)"
    "holds m1 c1 (mset ?vs) (tnode m, tval m)"
    using add_refs_hold [OF holds_new [OF b], of ?vs] assms(2) by auto
  have "mset ?vs - {#v#} = mset (remove1 v ?vs)" by simp
  also have "remove1 v ?vs = filter (\<lambda>x. x \<noteq> v) ?vs" 
    by (simp add: distinct_upto_u32 distinct_remove1_removeAll removeAll_filter_not_eq) (rule filter_cong; auto)
  finally have e: "filter_mset (\<lambda>x. x \<noteq> v) (mset ?vs) = mset ?vs - {#v#}" by simp
  obtain m2 c2 where 2: "container_del m1 c1 v = Some (m2, c2, True)" "holds m2 c2 (mset ?vs - {#v#}) (tnode m, tval m)"
    using container_del_holds [OF 1(2), of v] v by auto
  obtain m3 where 3: "container_dispose m2 c2 = Some (m3, container_new)" "same_objects m m3"
    using dispose_same [OF 2(2)] by blast
  show "\<exists>m'. (do {
     st \<leftarrow> for_each (upto_u32 sz) add_ref (m, container_new, {#});
     (m, c, ref) \<leftarrow> verify_ref st;
     (m, c, found) \<leftarrow> container_del m c v;
     require found;
     (m, c, ref) \<leftarrow> verify_ref (m, c, filter_mset (\<lambda>x. x \<noteq> v) ref);
     (m, c) \<leftarrow> container_dispose m c;
     Some m }) = Some m' \<and> same_objects m m'"
    using 1 2 3 e by simp
qed

lemma random_del_in_step:
  assumes "in_step n R st"
  shows "\<exists>st'. random_del v st = Some st' \<and> in_step n R st'"
proof -
  obtain m c ref where st: "st = (m, c, ref)" "holds m c ref R" "size ref \<le> n" using assms by (cases st) auto
  obtain m' c' where d: "container_del m c v = Some (m', c', v \<in># ref)" "holds m' c' (ref - {#v#}) R"
    using container_del_holds [OF st(2)] by blast
  show ?thesis
  proof (cases "v \<in># ref")
    case True
    then show ?thesis using st d by (simp add: random_del_def size_Diff_singleton)
  next
    case False
    then have "holds m' c' ref R" using d(2) by (simp add: diff_single_trivial)
    then show ?thesis using st d False by (simp add: random_del_def)
  qed
qed


text \<open>Adding values with a check after each.\<close>

lemma fill_in_step:
  assumes "in_step n R st" and "n + length xs \<le> avl_max"
  shows "\<exists>st'. for_each xs (\<lambda>i st. do { st \<leftarrow> add_ref (f i) st; verify_ref st }) st = Some st' \<and> in_step (n + length xs) R st'"
proof (rule for_each_inv [of "\<lambda>ys. in_step (n + length ys) R"])
  fix ys y zs st assume "xs = ys @ y # zs" "in_step (n + length ys) R st"
  then show "\<exists>s'. (do { st \<leftarrow> add_ref (f y) st; verify_ref st }) = Some s' \<and> in_step (n + length (ys @ [y])) R s'"
    using add_ref_in_step [of "n + length ys" R st "f y"] assms(2) by auto
qed (use assms(1) in simp)

lemma all_rounds_same:
  assumes "bounded m"
  shows "\<exists>m'. for_each (upto_u32 200) (\<lambda>i m. do { m \<leftarrow> test_insert i m; m \<leftarrow> test_insert_dup i m; test_remove i m }) m = Some m' \<and>
    same_objects m m'"
proof (rule rounds_same [OF assms])
  fix sz m assume "sz \<in> set (upto_u32 200)" and b: "bounded m"
  then have sz: "unat sz < avl_max" by (simp add: word_less_nat_alt avl_max_def)
  obtain ma where a: "test_insert sz m = Some ma" "same_objects m ma" using test_insert_ok [OF b sz] by blast
  obtain mb where b: "test_insert_dup sz ma = Some mb" "same_objects ma mb"
    using test_insert_dup_ok [OF same_objects_bounded [OF a(2)] sz] by blast
  obtain mc where c: "test_remove sz mb = Some mc" "same_objects mb mc"
    using test_remove_ok [OF same_objects_bounded [OF b(2)] sz] by blast
  have "same_objects m mc" using same_objects_trans a(2) b(2) c(2) by blast
  then show "\<exists>m'. (do { m \<leftarrow> test_insert sz m; m \<leftarrow> test_insert_dup sz m; test_remove sz m }) = Some m' \<and> same_objects m m'"
    using a(1) b(1) c(1) by simp
qed

text \<open>\<open>test_avl\<close> succeeds: whatever \<open>rand\<close> returns, no assertion of it fails, no bad pointer is followed, all of
  its loops end, and at the end every object has been freed.\<close>

lemma test_avl_passes:
  "\<exists>m. test_avl_main rand = Some m \<and> tnode m = Map.empty \<and> tval m = Map.empty"
proof -
  let ?R = "(Map.empty, Map.empty) :: astore \<times> (addr \<rightharpoonup> u32)"
  have h0: "holds tmem_empty container_new {#} ?R"
    using holds_new [of tmem_empty] by (simp add: tmem_empty_def bounded_def)
  obtain m1 c1 where 1: "container_add tmem_empty container_new 123 = Some (m1, c1)" "holds m1 c1 {#123#} ?R"
    using container_add_holds [OF h0, of 123] by (auto simp: avl_max_def)
  obtain m2 c2 where 2: "container_del m1 c1 124 = Some (m2, c2, False)" "holds m2 c2 {#123#} ?R"
    using container_del_holds [OF 1(2), of 124] by (auto simp: diff_single_trivial)
  obtain m3 c3 where 3: "container_del m2 c2 123 = Some (m3, c3, True)" "holds m3 c3 {#} ?R"
    using container_del_holds [OF 2(2), of 123] by auto
  obtain st4 where 4: "for_each (map (\<lambda>k. of_nat (3 * k)) [0..<334]) (\<lambda>i st. do { st \<leftarrow> add_ref i st; verify_ref st })
      (m3, c3, {#}) = Some st4" "in_step 334 ?R st4"
    using fill_in_step [of 0 ?R "(m3, c3, {#})" "map (\<lambda>k. of_nat (3 * k)) [0..<334]" "\<lambda>i. i"] 3(2) by (auto simp: avl_max_def)
  obtain st5 where 5: "for_each [0..<100] (\<lambda>k st. do { st \<leftarrow> add_ref (rand_val (rand k)) st; verify_ref st }) st4 = Some st5"
    "in_step 434 ?R st5"
    using fill_in_step [OF 4(2), of "[0..<100]" "\<lambda>k. rand_val (rand k)"] by (auto simp: avl_max_def)
  obtain m6 c6 ref where 6: "for_each [0..<200] (\<lambda>k st. random_del (rand_val (rand (100 + k))) st) st5 = Some (m6, c6, ref)"
    "holds m6 c6 ref ?R"
    using for_each_all [of "in_step 434 ?R" st5 "[0..<200]" "\<lambda>k st. random_del (rand_val (rand (100 + k))) st", OF 5(2) random_del_in_step]
    by auto
  from all_rounds_same [OF holds_bounded [OF 6(2)]]
  obtain m7 where 7: "for_each (upto_u32 200) (\<lambda>i m. do { m \<leftarrow> test_insert i m; m \<leftarrow> test_insert_dup i m; test_remove i m }) m6 = Some m7"
    "holds m7 c6 ref ?R" using holds_cong [OF 6(2)] by (auto simp: same_objects_def)
  obtain m8 where 8: "container_dispose m7 c6 = Some (m8, container_new)" "tnode m8 = Map.empty" "tval m8 = Map.empty"
    using container_dispose_holds [OF 7(2)] by auto
  show ?thesis using h0 1 2 3 4(1) 5(1) 6(1) 7(1) 8 unfolding test_avl_main_def by simp
qed

section \<open>\<open>test_offset.cpp\<close>\<close>

text \<open>This program searches the slot in another way, but finds the same one.\<close>

lemma offset_add_loop_at:
  assumes "tree_at (tnode m) (ctx_par c) t" and "ctx_at (tnode m) (root_of t) c" and "root_of t = Some a"
    and "\<forall>b \<in> nodes t. tval m b = Some (f b)" and "d = add_path f v t c"
  shows "offset_add_loop m v x a = do {
    (s, _) \<leftarrow> assign_slot (tnode m) None (ctx_slot d) (Some x);
    s \<leftarrow> modify s x (\<lambda>n. n\<lparr>parent := ctx_par d\<rparr>);
    (s, root) \<leftarrow> avl_fix s x;
    Some (m\<lparr>tnode := s\<rparr>, root) }"
  using assms
proof (induction t arbitrary: a c)
  case (Node l b r)
  then have a: "a = b" by simp
  have v: "tval m b = Some (f b)" using Node.prems(4) by simp
  show ?case
  proof (cases "v < f b")
    case True
    show ?thesis
    proof (cases l)
      case Leaf
      then show ?thesis using Node.prems v a True by (subst offset_add_loop.simps) simp
    next
      case (Node l1 e l2)
      have "offset_add_loop m v x e = do {
        (s, _) \<leftarrow> assign_slot (tnode m) None (ctx_slot d) (Some x);
        s \<leftarrow> modify s x (\<lambda>n. n\<lparr>parent := ctx_par d\<rparr>);
        (s, root) \<leftarrow> avl_fix s x;
        Some (m\<lparr>tnode := s\<rparr>, root) }"
        by (rule Node.IH(1) [of "FL b r # c"]) (use Node.prems Node True in auto)
      then show ?thesis using Node.prems Node v a True by (subst offset_add_loop.simps) simp
    qed
  next
    case False
    show ?thesis
    proof (cases r)
      case Leaf
      then show ?thesis using Node.prems v a False by (subst offset_add_loop.simps) simp
    next
      case (Node r1 e r2)
      have "offset_add_loop m v x e = do {
        (s, _) \<leftarrow> assign_slot (tnode m) None (ctx_slot d) (Some x);
        s \<leftarrow> modify s x (\<lambda>n. n\<lparr>parent := ctx_par d\<rparr>);
        (s, root) \<leftarrow> avl_fix s x;
        Some (m\<lparr>tnode := s\<rparr>, root) }"
        by (rule Node.IH(2) [of "FR l b # c"]) (use Node.prems Node False in auto)
      then show ?thesis using Node.prems Node v a False by (subst offset_add_loop.simps) simp
    qed
  qed
qed simp

lemma offset_add_holds:
  assumes h: "holds m c M R" and len: "size M < avl_max"
  shows "\<exists>m' c'. offset_add m c v = Some (m', c') \<and> holds m' c' (add_mset v M) R"
proof -
  obtain xs where xs: "cont_inv m c xs" "image_mset (val_at m) (mset xs) = M" "others m (set xs) = R"
    using h by (auto simp: holds_def)
  obtain m1 x where n: "data_new m v = (m1, x)" by fastforce
  note new = data_new_at [OF xs(1) n]
  obtain t where t: "croot c = root_of t" "tree_at (tnode m1) None t" "bal t" "inorder t = xs" "distinct xs"
    using new(1) by blast
  define d where "d = add_path (val_at m1) v t []"
  show ?thesis
  proof (cases t)
    case Leaf
    have "avl_rep (tnode m1) (Some x) [x]"
      using new(3) unfolding avl_rep_def
      by (intro conjI exI [of _ "Node Leaf x Leaf"]) (simp_all add: avl_init_def aux_height_def aux_cnt_def avl_max_def)
    then have "holds (m1\<lparr>tnode := tnode m1\<rparr>) (c\<lparr>croot := Some x\<rparr>) (add_mset v M) R"
      using holds_linked [OF xs(1) n d_def t(4) _ _ xs(2,3), of "tnode m1" "Some x"] Leaf by (simp add: d_def)
    moreover have "offset_add m c v = Some (m1, c\<lparr>croot := Some x\<rparr>)" using n t(1) Leaf by (simp add: offset_add_def)
    ultimately show ?thesis by auto
  next
    case (Node l a r)
    have val: "\<forall>b \<in> nodes t. tval m1 b = Some (val_at m1 b)" using new(4) t(4) by simp
    have "length xs < avl_max" using len xs(2) by (metis size_image_mset size_mset)
    then obtain s1 root1 s2 root where l: "assign_slot (tnode m1) None (ctx_slot d) (Some x) = Some (s1, root1)"
      "s1 x = Some avl_init" "avl_fix (s1(x \<mapsto> avl_init\<lparr>parent := ctx_par d\<rparr>)) x = Some (s2, root)"
      "avl_rep s2 root (before d @ x # after d)" "same_outside (insert x (set xs)) (tnode m1) s2"
      using link_leaf_at [OF t(2,3) _ _ _ new(3), of d None] t(4,5) new(2) add_path_plug [of "val_at m1" v t "[]"]
      by (auto simp: d_def)
    have "offset_add_loop m1 v x a = do {
      (s, _) \<leftarrow> assign_slot (tnode m1) None (ctx_slot d) (Some x);
      s \<leftarrow> modify s x (\<lambda>n. n\<lparr>parent := ctx_par d\<rparr>);
      (s, root) \<leftarrow> avl_fix s x;
      Some (m1\<lparr>tnode := s\<rparr>, root) }"
      by (rule offset_add_loop_at [OF _ _ _ val d_def]) (use t(2) Node in simp_all)
    then have "offset_add_loop m1 v x a = Some (m1\<lparr>tnode := s2\<rparr>, root)" using l(1-3) by simp
    then have "offset_add m c v = Some (m1\<lparr>tnode := s2\<rparr>, c\<lparr>croot := root\<rparr>)"
      using n t(1) Node by (simp add: offset_add_def)
    then show ?thesis using holds_linked [OF xs(1) n d_def t(4) l(4,5) xs(2,3)] by blast
  qed
qed

interpretation offset_cont: multiset_container holds offset_add avl_max
  by unfold_locales (rule offset_add_holds)

text \<open>Freeing a tree from its leaves.\<close>

definition free_data :: "tmem \<Rightarrow> addr set \<Rightarrow> tmem" where
  "free_data m A = m\<lparr>tnode := tnode m |` (- A), tval := tval m |` (- A)\<rparr>"

lemma data_delete_free: "data_delete (free_data m A) a = free_data m (insert a A)"
  by (auto simp: data_delete_def free_data_def restrict_map_def fun_eq_iff)

lemma free_data_free: "free_data (free_data m A) B = free_data m (A \<union> B)"
  by (auto simp: free_data_def restrict_map_def fun_eq_iff)

lemma shape_at_frame: "shape_at s t \<Longrightarrow> \<forall>a \<in> nodes t. s' a = s a \<Longrightarrow> shape_at s' t"
  by (induction t) auto

lemma offset_dispose_at:
  "shape_at (tnode m) t \<Longrightarrow> distinct (inorder t) \<Longrightarrow> offset_dispose m (root_of t) = Some (free_data m (nodes t))"
proof (induction t arbitrary: m)
  case Leaf
  show ?case by (subst offset_dispose.simps) (simp add: free_data_def restrict_map_def)
next
  case (Node l a r)
  obtain n where n: "tnode m a = Some n" "left n = root_of l" "right n = root_of r" using Node.prems(1) by auto
  define m1 where "m1 = free_data m (nodes l)"
  define m2 where "m2 = free_data m (nodes l \<union> nodes r)"
  have d1: "offset_dispose m (root_of l) = Some m1" using Node by (simp add: m1_def)
  have "shape_at (tnode m1) r"
    by (rule shape_at_frame [of "tnode m"]) (use Node.prems in \<open>auto simp: m1_def free_data_def restrict_map_def\<close>)
  then have d2: "offset_dispose m1 (root_of r) = Some m2"
    using Node.IH(2) [of m1] Node.prems(2) by (simp add: m1_def m2_def free_data_free)
  have "tnode m1 a = Some n" "tnode m2 a = Some n"
    using n(1) Node.prems(2) by (auto simp: m1_def m2_def free_data_def restrict_map_def)
  moreover have "data_delete m2 a = free_data m (nodes (Node l a r))"
    by (simp add: m2_def data_delete_free)
  ultimately show ?case using n d1 d2 by (subst offset_dispose.simps) simp
qed

text \<open>When the values are \<open>0, ..., sz - 1\<close>, ranks are values.\<close>

lemma holds_ranks:
  assumes "cont_inv m c xs" and "image_mset (val_at m) (mset xs) = mset (upto_u32 sz)"
  shows "map (val_at m) xs = upto_u32 sz"
proof -
  have "sorted (map (val_at m) xs)" "mset (map (val_at m) xs) = mset (upto_u32 sz)"
    using assms by (simp_all add: cont_inv_def)
  then show ?thesis using sorted_upto_u32 [of sz] properties_for_sort by metis
qed

lemma check_offset_at:
  assumes inv: "cont_inv m c xs" and r: "map (val_at m) xs = upto_u32 sz"
    and j: "j < unat sz" and i: "i < unat sz" and k: "int i = int j + k"
  shows "check_offset m (xs ! j) k (of_nat i) = Some (xs ! i)"
proof -
  have len: "length xs = unat sz" using r by (metis length_map length_upto_u32)
  then have li: "i < length xs" and lj: "j < length xs" using i j by simp_all
  have "avl_rep (tnode m) (croot c) xs" and v: "tval m (xs ! i) \<noteq> None" using inv len i by (auto simp: cont_inv_def)
  then have o: "avl_offset (tnode m) (xs ! j) k = Some (Some (xs ! i))"
    using avl.offset_rep [of "tnode m" "croot c" xs j k] lj li by (simp add: k [symmetric])
  have "val_at m (xs ! i) = of_nat i" using r len i by (metis nth_map upto_u32_nth)
  then show ?thesis using o v by (auto simp: check_offset_def)
qed

lemma offset_outside:
  assumes "cont_inv m c xs" and "j < length xs" and "int j + k < 0 \<or> int (length xs) \<le> int j + k"
  shows "avl_offset (tnode m) (xs ! j) k = Some None"
  using avl.offset_rep [of "tnode m" "croot c" xs j k] assms by (auto simp: cont_inv_def)

lemma in_upto_u32E:
  assumes "i \<in> set (upto_u32 sz)"
  obtains n where "i = of_nat n" "n < unat sz" "uint i = int n"
proof
  show "i = of_nat (unat i)" "unat i < unat sz" "uint i = int (unat i)"
    using assms by (simp_all add: word_less_nat_alt)
qed

lemma offset_checks:
  assumes inv: "cont_inv m c xs" and r: "map (val_at m) xs = upto_u32 sz" and sz: "0 < sz"
  shows "for_each (upto_u32 sz) (\<lambda>i u. do {
     node \<leftarrow> check_offset m (xs ! 0) (uint i) i;
     for_each (upto_u32 sz) (\<lambda>j u. do {
       n2 \<leftarrow> check_offset m node (uint j - uint i) j;
       Some u }) u;
     p \<leftarrow> avl_offset (tnode m) node (- uint i - 1);
     require (p = None);
     p \<leftarrow> avl_offset (tnode m) node (uint (sz - i));
     require (p = None);
     Some u }) () = Some ()" (is "for_each _ ?f _ = _")
proof -
  have len: "length xs = unat sz" using r by (metis length_map length_upto_u32)
  have "?f i () = Some ()" if i: "i \<in> set (upto_u32 sz)" for i
  proof -
    obtain n where n: "i = of_nat n" "n < unat sz" "uint i = int n" using i by (rule in_upto_u32E)
    have node: "check_offset m (xs ! 0) (uint i) i = Some (xs ! n)"
      using check_offset_at [OF inv r, of 0 n "uint i"] n by simp
    have "\<exists>u. for_each (upto_u32 sz) (\<lambda>j u. do { n2 \<leftarrow> check_offset m (xs ! n) (uint j - uint i) j; Some u }) () = Some u \<and> True"
    proof (rule for_each_all)
      fix j and u :: unit assume "j \<in> set (upto_u32 sz)"
      then obtain k where k: "j = of_nat k" "k < unat sz" "uint j = int k" by (rule in_upto_u32E)
      then have "check_offset m (xs ! n) (uint j - uint i) j = Some (xs ! k)"
        using check_offset_at [OF inv r n(2) k(2), of "uint j - uint i"] n(3) by simp
      then show "\<exists>s'. (do { n2 \<leftarrow> check_offset m (xs ! n) (uint j - uint i) j; Some u }) = Some s' \<and> True" by simp
    qed simp
    moreover have "avl_offset (tnode m) (xs ! n) (- uint i - 1) = Some None"
      by (rule offset_outside [OF inv]) (use n len in simp_all)
    moreover have "uint (sz - i) = uint sz - uint i" using i by (simp add: uint_sub_if' word_less_def)
    then have "avl_offset (tnode m) (xs ! n) (uint (sz - i)) = Some None"
      by (intro offset_outside [OF inv]) (use n len in simp_all)
    ultimately show ?thesis using node by simp
  qed
  then have "\<exists>u. for_each (upto_u32 sz) ?f () = Some u \<and> True" by (intro for_each_all) simp_all
  then show ?thesis by simp
qed

lemma avl_leftmost_hd:
  assumes "tree_at s None t" and "root_of t = Some a"
  shows "avl_leftmost s a = Some (inorder t ! 0)"
proof -
  obtain v r where v: "leftmost t = (v, r)" by fastforce
  have "t = plug (Node Leaf v r) (left_path t)" using leftmost_plug [OF _ v] assms(2) by (cases t) auto
  then have "inorder t = v # inorder r @ after (left_path t)"
    using inorder_plug [of "Node Leaf v r" "left_path t"] by simp
  then show ?thesis using avl_leftmost_at [OF assms] v by simp
qed

lemma offset_test_case_ok:
  assumes b: "bounded m" and sz: "0 < sz" "unat sz \<le> avl_max"
  shows "\<exists>m'. offset_test_case sz m = Some m' \<and> same_objects m m'"
proof -
  obtain m1 c1 where 1: "for_each (upto_u32 sz) (\<lambda>i (m, c). offset_add m c i) (m, container_new) = Some (m1, c1)"
    "holds m1 c1 (mset (upto_u32 sz)) (tnode m, tval m)"
    using offset_cont.add_all [OF holds_new [OF b], of "upto_u32 sz"] sz(2) by auto
  obtain xs where xs: "cont_inv m1 c1 xs" "image_mset (val_at m1) (mset xs) = mset (upto_u32 sz)"
    "others m1 (set xs) = (tnode m, tval m)" using 1(2) by (auto simp: holds_def)
  note r = holds_ranks [OF xs(1,2)]
  obtain t where t: "croot c1 = root_of t" "tree_at (tnode m1) None t" "inorder t = xs" "distinct xs" "bounded m1"
    using xs(1) by (auto simp: cont_inv_def avl_rep_def)
  have "length xs = unat sz" using r by (metis length_map length_upto_u32)
  then have "xs \<noteq> []" using sz(1) by (auto simp: word_less_nat_alt)
  then obtain a where a: "root_of t = Some a" using t(3) by (cases t) auto
  have l: "avl_leftmost (tnode m1) a = Some (xs ! 0)" using avl_leftmost_hd [OF t(2) a] t(3) by simp
  have "offset_dispose m1 (croot c1) = Some (free_data m1 (set xs))"
    using offset_dispose_at [OF tree_at_shape [OF t(2)]] t by simp
  moreover have "bounded (free_data m1 (set xs))"
    using t(5) by (simp add: bounded_def free_data_def restrict_map_def)
  then have "same_objects m (free_data m1 (set xs))"
    using xs(3) by (simp add: same_objects_def others_def free_data_def)
  ultimately show ?thesis
    using 1(1) a t(1) l offset_checks [OF xs(1) r sz(1)] by (simp add: offset_test_case_def)
qed

text \<open>\<open>test_offset\<close> succeeds: in trees of up to 499 nodes every offset between two ranks is right, and every
  object is freed.\<close>

lemma test_offset_passes:
  "\<exists>m. test_offset_main = Some m \<and> tnode m = Map.empty \<and> tval m = Map.empty"
proof -
  have "\<exists>m. for_each (map of_nat [1..<500]) offset_test_case tmem_empty = Some m \<and> same_objects tmem_empty m"
  proof (rule rounds_same)
    fix sz m assume "sz \<in> set (map of_nat [1..<500] :: u32 list)" and b: "bounded m"
    then obtain n where "sz = of_nat n" "0 < n" "n < 500" by auto
    then show "\<exists>m'. offset_test_case sz m = Some m' \<and> same_objects m m'"
      by (intro offset_test_case_ok [OF b]) (simp_all add: avl_max_def word_less_nat_alt)
  qed (simp add: bounded_def tmem_empty_def)
  then show ?thesis by (auto simp: test_offset_main_def same_objects_def tmem_empty_def)
qed

section \<open>\<open>test_heap.cpp\<close>\<close>

text \<open>The timers that the pairs of the multimap stand for: the value of each object.\<close>

definition objs :: "(u64 \<times> addr) list \<Rightarrow> addr \<rightharpoonup> u64" where
  "objs xs = map_of (map prod.swap xs)"

lemma objs_Some: "distinct (map snd xs) \<Longrightarrow> objs xs d = Some v \<longleftrightarrow> (v, d) \<in> set xs"
  unfolding objs_def by (subst map_of_eq_Some_iff) (auto simp: comp_def)

lemma dom_objs: "dom (objs xs) = snd ` set xs"
  by (simp add: objs_def dom_map_of_conv_image_fst image_image)

lemma objs_eqI: "distinct (map snd xs) \<Longrightarrow> (\<And>d v. T d = Some v \<longleftrightarrow> (v, d) \<in> set xs) \<Longrightarrow> objs xs = T"
  using objs_Some [of xs] by (intro ext) (metis not_None_eq)

text \<open>The container holds the values \<open>M\<close>, and there are no other objects.\<close>

definition heap_holds :: "hmem \<Rightarrow> hcontainer \<Rightarrow> u64 multiset \<Rightarrow> unit \<Rightarrow> bool" where
  "heap_holds m c M R \<longleftrightarrow> heap_rep (cheap c) (hidx m) (objs (cmap c)) \<and> distinct (map snd (cmap c)) \<and>
     dom (hidx m) = snd ` set (cmap c) \<and> image_mset fst (mset (cmap c)) = M \<and> (\<forall>a \<in> dom (hidx m). a < hbrk m)"

lemma heap_holds_new: "hidx m = Map.empty \<Longrightarrow> heap_holds m hcontainer_new {#} R"
  by (simp add: heap_holds_def hcontainer_new_def heap_rep_def is_heap_def ordered_def refs_ok_def timers_def objs_def no_timer_def)

lemma heap_holds_size: "heap_holds m c M R \<Longrightarrow> card (dom (objs (cmap c))) = size M \<and> length (cheap c) = size M \<and> length (cmap c) = size M"
proof -
  assume h: "heap_holds m c M R"
  then have "card (dom (objs (cmap c))) = length (cheap c)" by (auto simp: heap_holds_def dest: heap_rep_card)
  moreover have "card (dom (objs (cmap c))) = length (cmap c)"
    using h distinct_card [of "map snd (cmap c)"] by (simp add: heap_holds_def dom_objs)
  moreover have "size M = length (cmap c)" using h by (metis heap_holds_def size_image_mset size_mset)
  ultimately show ?thesis by simp
qed

lemma mset_multimap_insert: "mset (multimap_insert p xs) = add_mset p (mset xs)"
  unfolding multimap_insert_def by simp (metis mset_append takeWhile_dropWhile_id)

lemma distinct_snd_mset: "mset xs = mset ys \<Longrightarrow> distinct (map snd xs) \<longleftrightarrow> distinct (map snd ys)"
  by (metis mset_eq_imp_distinct_iff mset_map)

lemma dom_live: "live s' = live s \<Longrightarrow> dom s' = dom s"
  by (auto simp: live_def fun_eq_iff)

lemma heap_add_holds:
  assumes h: "heap_holds m c M R" and len: "size M < no_timer - 1"
  shows "\<exists>m' c'. heap_add m c v = Some (m', c') \<and> heap_holds m' c' (add_mset v M) R"
proof -
  let ?d = "hbrk m" and ?mp = "multimap_insert (v, hbrk m) (cmap c)"
  have r: "heap_rep (cheap c) (hidx m) (objs (cmap c))" and dc: "distinct (map snd (cmap c))"
    and D: "dom (hidx m) = snd ` set (cmap c)" and M: "image_mset fst (mset (cmap c)) = M"
    and b: "\<forall>a \<in> dom (hidx m). a < hbrk m" using h by (auto simp: heap_holds_def)
  have "?d \<notin> dom (hidx m)" using b by blast
  then have fresh: "hidx m ?d = None" and new: "?d \<notin> snd ` set (cmap c)" using D by auto
  have len': "Suc (size M) < no_timer" using len by linarith
  obtain a' rs' where u: "heap_upsert (cheap c) ((hidx m)(?d \<mapsto> no_timer)) no_timer \<lparr>hval = v, href = ?d\<rparr> = Some (a', rs')"
    "heap_rep a' rs' ((objs (cmap c))(?d \<mapsto> v))"
    using timer.upsert_law [OF timer.fresh_law [OF r fresh], of ?d no_timer v] heap_holds_size [OF h] len' by auto
  have "\<not> no_timer < length (cheap c)" using heap_holds_size [OF h] len by simp
  then have "heap_add m c v = Some (\<lparr>hidx = rs', hbrk = ?d + 1\<rparr>, \<lparr>cheap = a', cmap = ?mp\<rparr>)"
    using u(1) by (simp add: heap_add_def heap_upsert_def Let_def)
  moreover have mp: "mset ?mp = mset ((v, ?d) # cmap c)" by (simp add: mset_multimap_insert)
  then have s: "set ?mp = insert (v, ?d) (set (cmap c))" by (metis list.simps(15) mset_eq_setD)
  have dm: "distinct (map snd ?mp)" using distinct_snd_mset [OF mp] dc new by simp
  have "objs ?mp = (objs (cmap c))(?d \<mapsto> v)"
    by (rule objs_eqI [OF dm]) (use new in \<open>auto simp: objs_Some [OF dc] s image_iff\<close>)
  moreover have "dom rs' = insert ?d (dom (hidx m))" using dom_live [OF heap_upsert_live [OF u(1)]] by simp
  ultimately show ?thesis
    using u(2) dm s D b M by (auto simp: heap_holds_def mset_multimap_insert less_Suc_eq)
qed

interpretation heap_cont: multiset_container heap_holds heap_add "no_timer - 1"
  by unfold_locales (rule heap_add_holds)

lemma heap_del_holds:
  assumes h: "heap_holds m c M R" and v: "v \<in># M"
  shows "\<exists>m' c'. heap_del m c v = Some (m', c') \<and> heap_holds m' c' (M - {#v#}) R"
proof -
  have r: "heap_rep (cheap c) (hidx m) (objs (cmap c))" and dc: "distinct (map snd (cmap c))"
    and D: "dom (hidx m) = snd ` set (cmap c)" and M: "image_mset fst (mset (cmap c)) = M"
    and b: "\<forall>a \<in> dom (hidx m). a < hbrk m" using h by (auto simp: heap_holds_def)
  have "\<exists>q \<in> set (cmap c). fst q = v" using v M by auto
  then obtain p where p: "find (\<lambda>q. fst q = v) (cmap c) = Some p"
    by (cases "find (\<lambda>q. fst q = v) (cmap c)") (auto simp: find_None_iff)
  then have "p \<in> set (cmap c)" "fst p = v" by (auto simp: find_Some_iff)
  moreover define d where "d = snd p"
  ultimately have f: "find (\<lambda>q. fst q = v) (cmap c) = Some (v, d)" and q: "(v, d) \<in> set (cmap c)"
    using p by (metis prod.collapse)+
  have T: "objs (cmap c) d = Some v" using q objs_Some [OF dc] by simp
  obtain i where i: "i < length (cheap c)" "href (cheap c ! i) = d" "hidx m d = Some i" "value_at (cheap c) i = v"
    using timer_pos [OF r, of d] T by auto
  obtain a' rs' where u: "heap_delete (cheap c) (hidx m) i = Some (a', rs')"
    "heap_rep a' (rs'(d \<mapsto> no_timer)) ((objs (cmap c))(d := None))"
    using timer.delete_law [OF r _ i(3)] T by auto
  then have fr: "heap_rep a' (rs'(d := None)) ((objs (cmap c))(d := None))"
    using timer.free_law [OF u(2), of d] by simp
  have "heap_del m c v = Some (m\<lparr>hidx := rs'(d := None)\<rparr>, \<lparr>cheap = a', cmap = remove1 (v, d) (cmap c)\<rparr>)"
    using f i u(1) by (auto simp: heap_del_def heap_delete_def Let_def bind_eq_Some_conv split: if_splits)
  moreover have dm: "distinct (map snd (remove1 (v, d) (cmap c)))" "distinct (cmap c)"
    using dc by (auto simp: distinct_map inj_on_def dest: notin_set_remove1)
  have s: "(w, e) \<in> set (remove1 (v, d) (cmap c)) \<longleftrightarrow> (w, e) \<in> set (cmap c) \<and> e \<noteq> d" for w e
  proof -
    have "(w, e) \<noteq> (v, d) \<longleftrightarrow> e \<noteq> d" if "(w, e) \<in> set (cmap c)"
      using that q objs_Some [OF dc, of e w] objs_Some [OF dc, of d v] by auto
    then show ?thesis using dm(2) by auto
  qed
  have "objs (remove1 (v, d) (cmap c)) = (objs (cmap c))(d := None)"
    by (rule objs_eqI [OF dm(1)]) (auto simp: objs_Some [OF dc] s)
  moreover have "dom (rs'(d := None)) = snd ` set (remove1 (v, d) (cmap c))"
    using dom_live [OF heap_delete_live [OF u(1)]] D s by force
  moreover have "image_mset fst (mset (remove1 (v, d) (cmap c))) = M - {#v#}"
    using q M by (simp add: image_mset_Diff)
  moreover have "\<forall>a \<in> dom (rs'(d := None)). a < hbrk m" using dom_live [OF heap_delete_live [OF u(1)]] b by auto
  ultimately show ?thesis using fr dm(1) by (simp add: heap_holds_def)
qed

lemma heap_verify_holds:
  assumes h: "heap_holds m c M R"
  shows "heap_verify m c = Some ()"
proof -
  let ?n = "length (cheap c)"
  have r: "ordered (value_at (cheap c)) ?n (\<lambda>_. False)" "refs_ok (cheap c) (hidx m) (\<lambda>_. False)"
    using h by (auto simp: heap_holds_def heap_rep_def is_heap_def)
  have "\<exists>u. for_each [0..<?n] (\<lambda>i u. do {
       x \<leftarrow> nth_opt (cheap c) i;
       require (heap_left i \<ge> ?n \<or> hval (cheap c ! heap_left i) \<ge> hval x);
       require (heap_right i \<ge> ?n \<or> hval (cheap c ! heap_right i) \<ge> hval x);
       j \<leftarrow> hidx m (href x);
       require (j = i);
       Some u }) () = Some u \<and> True"
  proof (rule for_each_all)
    fix i and u :: unit assume "i \<in> set [0..<?n]"
    then have i: "i < ?n" by simp
    have "?n \<le> j \<or> value_at (cheap c) i \<le> value_at (cheap c) j" if "j = heap_left i \<or> j = heap_right i" for j
    proof -
      have "0 < j" using that(1) by (auto simp: heap_left_def heap_right_def)
      moreover have "heap_parent j = i" using that parent_kids [OF \<open>0 < j\<close>] by blast
      ultimately show ?thesis using r(1) unfolding ordered_def by (metis not_le)
    qed
    then have "?n \<le> heap_left i \<or> value_at (cheap c) i \<le> value_at (cheap c) (heap_left i)"
      "?n \<le> heap_right i \<or> value_at (cheap c) i \<le> value_at (cheap c) (heap_right i)" by blast+
    moreover have "hidx m (href (cheap c ! i)) = Some i" using r(2) i by (simp add: refs_ok_def)
    ultimately show "\<exists>s'. (do {
       x \<leftarrow> nth_opt (cheap c) i;
       require (heap_left i \<ge> ?n \<or> hval (cheap c ! heap_left i) \<ge> hval x);
       require (heap_right i \<ge> ?n \<or> hval (cheap c ! heap_right i) \<ge> hval x);
       j \<leftarrow> hidx m (href x);
       require (j = i);
       Some u }) = Some s' \<and> True"
      using i by simp
  qed simp
  then show ?thesis using heap_holds_size [OF h] by (simp add: heap_verify_def)
qed

lemma dispose_loop:
  "distinct (map snd xs) \<Longrightarrow> dom (hidx m) = snd ` set xs \<Longrightarrow>
   \<exists>m'. for_each xs (\<lambda>p m. do {
     require (hidx m (snd p) \<noteq> None);
     Some (m\<lparr>hidx := (hidx m)(snd p := None)\<rparr>) }) m = Some m' \<and> hidx m' = Map.empty"
proof (induction xs arbitrary: m)
  case (Cons p xs)
  let ?m = "m\<lparr>hidx := (hidx m)(snd p := None)\<rparr>"
  have "snd p \<in> dom (hidx m)" using Cons.prems(2) by simp
  then have "require (hidx m (snd p) \<noteq> None) = Some ()" unfolding require_eq_Some by blast
  moreover have "distinct (map snd xs)" and "dom (hidx ?m) = snd ` set xs" using Cons.prems by auto
  note Cons.IH [OF this]
  ultimately show ?case by (simp only: for_each.simps Option.bind.simps)
qed simp

lemma heap_dispose_holds:
  assumes "heap_holds m c M R"
  shows "\<exists>m'. heap_dispose m c = Some m' \<and> hidx m' = Map.empty"
  unfolding heap_dispose_def by (rule dispose_loop) (use assms in \<open>simp_all add: heap_holds_def\<close>)

text \<open>One round: a container is filled, changed once, and disposed; its assertions hold.\<close>

lemma heap_round:
  assumes e: "hidx m = Map.empty" and len: "length xs < no_timer - 1"
  shows "\<exists>m1 c1. for_each xs (\<lambda>i (m, c). heap_add m c (f i)) (m, hcontainer_new) = Some (m1, c1) \<and>
    heap_verify m1 c1 = Some () \<and>
    (\<forall>v. \<exists>m2 c2 m3. heap_add m1 c1 v = Some (m2, c2) \<and> heap_verify m2 c2 = Some () \<and>
      heap_dispose m2 c2 = Some m3 \<and> hidx m3 = Map.empty) \<and>
    (\<forall>v \<in> f ` set xs. \<exists>m2 c2 m3. heap_del m1 c1 v = Some (m2, c2) \<and> heap_verify m2 c2 = Some () \<and>
      heap_dispose m2 c2 = Some m3 \<and> hidx m3 = Map.empty)"
proof -
  let ?M = "image_mset f (mset xs)"
  obtain m1 c1 where 1: "for_each xs (\<lambda>i (m, c). heap_add m c (f i)) (m, hcontainer_new) = Some (m1, c1)"
    "heap_holds m1 c1 ?M ()"
    using heap_cont.add_map [OF heap_holds_new [OF e], of xs f] len by auto
  have "\<exists>m2 c2 m3. heap_add m1 c1 v = Some (m2, c2) \<and> heap_verify m2 c2 = Some () \<and>
      heap_dispose m2 c2 = Some m3 \<and> hidx m3 = Map.empty" for v
  proof -
    obtain m2 c2 where 2: "heap_add m1 c1 v = Some (m2, c2)" "heap_holds m2 c2 (add_mset v ?M) ()"
      using heap_add_holds [OF 1(2), of v] len by auto
    then show ?thesis using heap_verify_holds [OF 2(2)] heap_dispose_holds [OF 2(2)] by blast
  qed
  moreover have "\<exists>m2 c2 m3. heap_del m1 c1 v = Some (m2, c2) \<and> heap_verify m2 c2 = Some () \<and>
      heap_dispose m2 c2 = Some m3 \<and> hidx m3 = Map.empty" if "v \<in> f ` set xs" for v
  proof -
    have "v \<in># ?M" using that by auto
    then obtain m2 c2 where 2: "heap_del m1 c1 v = Some (m2, c2)" "heap_holds m2 c2 (?M - {#v#}) ()"
      using heap_del_holds [OF 1(2), of v] by auto
    then show ?thesis using heap_verify_holds [OF 2(2)] heap_dispose_holds [OF 2(2)] by blast
  qed
  ultimately show ?thesis using 1(1) heap_verify_holds [OF 1(2)] by blast
qed

lemma heap_test_case_ok:
  assumes e: "hidx m = Map.empty" and sz: "sz < no_timer - 1"
  shows "\<exists>m'. heap_test_case sz m = Some m' \<and> hidx m' = Map.empty"
proof -
  have len: "length [0..<sz] < no_timer - 1" using sz by simp
  have "\<exists>m'. for_each [0..<2 + sz * 2] (\<lambda>j m. do {
       (m, c) \<leftarrow> for_each [0..<sz] (\<lambda>i (m, c). heap_add m c (ucast (1 + of_nat i * 2 :: u32))) (m, hcontainer_new);
       heap_verify m c;
       (m, c) \<leftarrow> heap_add m c (of_nat j);
       heap_verify m c;
       heap_dispose m c }) m = Some m' \<and> hidx m' = Map.empty"
  proof (rule for_each_all [where I = "\<lambda>m. hidx m = Map.empty"])
    fix j :: nat and m :: hmem assume "hidx m = Map.empty"
    from heap_round [OF this len, of "\<lambda>i. ucast (1 + of_nat i * 2 :: u32)"]
    obtain m1 c1 m2 c2 m3 where r: "for_each [0..<sz] (\<lambda>i (m, c). heap_add m c (ucast (1 + of_nat i * 2 :: u32))) (m, hcontainer_new) = Some (m1, c1)"
      "heap_verify m1 c1 = Some ()" "heap_add m1 c1 (of_nat j) = Some (m2, c2)" "heap_verify m2 c2 = Some ()"
      "heap_dispose m2 c2 = Some m3" "hidx m3 = Map.empty" by blast
    show "\<exists>m'. (do {
       (m, c) \<leftarrow> for_each [0..<sz] (\<lambda>i (m, c). heap_add m c (ucast (1 + of_nat i * 2 :: u32))) (m, hcontainer_new);
       heap_verify m c;
       (m, c) \<leftarrow> heap_add m c (of_nat j);
       heap_verify m c;
       heap_dispose m c }) = Some m' \<and> hidx m' = Map.empty" by (simp add: r)
  qed (rule e)
  then obtain m1 where 1: "for_each [0..<2 + sz * 2] (\<lambda>j m. do {
       (m, c) \<leftarrow> for_each [0..<sz] (\<lambda>i (m, c). heap_add m c (ucast (1 + of_nat i * 2 :: u32))) (m, hcontainer_new);
       heap_verify m c;
       (m, c) \<leftarrow> heap_add m c (of_nat j);
       heap_verify m c;
       heap_dispose m c }) m = Some m1" "hidx m1 = Map.empty" by blast
  have "\<exists>m'. for_each [0..<sz] (\<lambda>j m. do {
       (m, c) \<leftarrow> for_each [0..<sz] (\<lambda>i (m, c). heap_add m c (of_nat i)) (m, hcontainer_new);
       heap_verify m c;
       (m, c) \<leftarrow> heap_del m c (of_nat j);
       heap_verify m c;
       heap_dispose m c }) m1 = Some m' \<and> hidx m' = Map.empty"
  proof (rule for_each_all [where I = "\<lambda>m. hidx m = Map.empty"])
    fix j :: nat and m :: hmem assume j: "j \<in> set [0..<sz]" and "hidx m = Map.empty"
    from heap_round [OF this(2) len, of of_nat] j
    obtain m1 c1 m2 c2 m3 where r: "for_each [0..<sz] (\<lambda>i (m, c). heap_add m c (of_nat i)) (m, hcontainer_new) = Some (m1, c1)"
      "heap_verify m1 c1 = Some ()" "heap_del m1 c1 (of_nat j) = Some (m2, c2)" "heap_verify m2 c2 = Some ()"
      "heap_dispose m2 c2 = Some m3" "hidx m3 = Map.empty" by blast
    show "\<exists>m'. (do {
       (m, c) \<leftarrow> for_each [0..<sz] (\<lambda>i (m, c). heap_add m c (of_nat i)) (m, hcontainer_new);
       heap_verify m c;
       (m, c) \<leftarrow> heap_del m c (of_nat j);
       heap_verify m c;
       heap_dispose m c }) = Some m' \<and> hidx m' = Map.empty" by (simp add: r)
  qed (rule 1)
  then show ?thesis using 1(1) unfolding heap_test_case_def by simp
qed

text \<open>\<open>test_heap\<close> succeeds: heaps of up to 200 items stay heaps with right back references after every
  insertion and deletion, and every object is freed.\<close>

lemma test_heap_passes:
  "\<exists>m. test_heap_main = Some m \<and> hidx m = Map.empty"
  unfolding test_heap_main_def
proof (rule for_each_all [where I = "\<lambda>m. hidx m = Map.empty"])
  fix sz :: nat and m :: hmem assume "sz \<in> set [0..<200]" "hidx m = Map.empty"
  then show "\<exists>m'. heap_test_case sz m = Some m' \<and> hidx m' = Map.empty"
    by (intro heap_test_case_ok) (simp_all add: no_timer_def)
qed simp

section \<open>Properties\<close>

text \<open>C38. The three test programs succeed: whatever \<open>rand\<close> returns, none of their assertions fails, no bad pointer
  is followed and every search finds a node where the code expects one; all their loops end, and they free all objects.\<close>

theorem tests_pass:
  "(\<exists>m. test_avl_main rand = Some m \<and> tnode m = Map.empty \<and> tval m = Map.empty) \<and>
   (\<exists>m. test_offset_main = Some m \<and> tnode m = Map.empty \<and> tval m = Map.empty) \<and>
   (\<exists>m. test_heap_main = Some m \<and> hidx m = Map.empty)"
  using test_avl_passes test_offset_passes test_heap_passes by blast

text \<open>C39. The assertions of \<open>test_avl\<close> are neither too weak nor too strong: on nodes whose child pointers form a
  tree, \<open>avl_verify\<close> passes exactly when all parent pointers, heights and counts are right, the tree is balanced, and no
  node has a child on the wrong side.\<close>

theorem avl_verify_exact:
  assumes "shape_at (tnode m) t" and "\<forall>a \<in> nodes t. tval m a = Some (f a)" and "tsize t \<le> avl_max"
  shows "avl_verify m None (root_of t) = Some () \<longleftrightarrow> tree_at (tnode m) None t \<and> bal t \<and> kids_ordered f t"
  by (rule avl_verify_at [OF assms])

definition sample_tmem :: tmem where
  "sample_tmem = \<lparr>tnode = sample_avl, tval = [1 \<mapsto> 10, 2 \<mapsto> 20, 3 \<mapsto> 20, 4 \<mapsto> 30], tbrk = 5\<rparr>"

theorem avl_verify_exact_witness:
  "avl_verify sample_tmem None (Some 2) = Some ()"
proof -
  let ?t = "Node (Node Leaf 1 Leaf) 2 (Node Leaf 3 (Node Leaf 4 Leaf))"
  have t: "tree_at (tnode sample_tmem) None ?t" by (simp add: sample_tmem_def sample_avl_def aux_height_def aux_cnt_def)
  have "\<forall>a \<in> nodes ?t. tval sample_tmem a = Some (val_at sample_tmem a)" by (simp add: sample_tmem_def)
  from avl_verify_exact [OF tree_at_shape [OF t] this] show ?thesis
    using t by (simp add: avl_max_def sample_tmem_def)
qed

end
