(* ===== verification/Test_Commands.thy ===== *)
theory Test_Commands
  imports Request_Properties Client_Correct Event_Loop_Correct
begin

text \<open>
  The transcript in \<open>src/test_cmds.py\<close>: client commands, run one after another against a fresh server, with the
  text that the client must print for each. \<open>strtod\<close> and the format \<open>%g\<close> of the C library are parameters, of which the
  script needs five values.
\<close>

section \<open>Running the script\<close>

text \<open>
  One command: the client process writes its request on a fresh connection, the server takes it from the buffer of the
  connection and executes it, and the client reads the reply that the server queued and prints it.
\<close>

definition fresh_conn :: "bytes \<Rightarrow> conn" where
  "fresh_conn inc = \<lparr>cfd = 5, want_read = True, want_write = False, want_close = False,
     incoming = inc, outgoing = [], last_active_ms = 0\<rparr>"

definition run_command :: "strtod \<Rightarrow> (u64 \<Rightarrow> bytes) \<Rightarrow> gdata \<Rightarrow> u64 \<Rightarrow> bytes list \<Rightarrow> (gdata \<times> bytes) option" where
  "run_command strtod fmt_g g now cmd = do {
     m \<leftarrow> send_req cmd;
     wbuf \<leftarrow> m;
     (g, c, again) \<leftarrow> try_one_request strtod g now (fresh_conn wbuf);
     res \<leftarrow> client_main True True cmd [Some (length wbuf)] [Some (take 4 (outgoing c)), Some (drop 4 (outgoing c))];
     case res of
       Died \<Rightarrow> None
     | Running (sent, out) \<Rightarrow> Some (g, client_stdout fmt_g out) }"

fun run_commands :: "strtod \<Rightarrow> (u64 \<Rightarrow> bytes) \<Rightarrow> gdata \<Rightarrow> (u64 \<times> bytes list) list \<Rightarrow> (gdata \<times> bytes list) option" where
  "run_commands strtod fmt_g g [] = Some (g, [])"
| "run_commands strtod fmt_g g ((now, cmd) # rs) = do {
     (g, txt) \<leftarrow> run_command strtod fmt_g g now cmd;
     (g, txts) \<leftarrow> run_commands strtod fmt_g g rs;
     Some (g, txt # txts) }"

definition test_lines :: "string list \<Rightarrow> bytes" where
  "test_lines ls = concat (map (\<lambda>l. ascii l @ [10]) ls)"

definition test_cases :: "(string list \<times> string list) list" where
  "test_cases = [
     ([''zscore'', ''asdf'', ''n1''], [''(nil)'']),
     ([''zquery'', ''xxx'', ''1'', ''asdf'', ''1'', ''10''], [''(arr) len=0'', ''(arr) end'']),
     ([''zadd'', ''zset'', ''1'', ''n1''], [''(int) 1'']),
     ([''zadd'', ''zset'', ''2'', ''n2''], [''(int) 1'']),
     ([''zadd'', ''zset'', ''1.1'', ''n1''], [''(int) 0'']),
     ([''zscore'', ''zset'', ''n1''], [''(dbl) 1.1'']),
     ([''zquery'', ''zset'', ''1'', '''', ''0'', ''10''],
       [''(arr) len=4'', ''(str) n1'', ''(dbl) 1.1'', ''(str) n2'', ''(dbl) 2'', ''(arr) end'']),
     ([''zquery'', ''zset'', ''1.1'', '''', ''1'', ''10''], [''(arr) len=2'', ''(str) n2'', ''(dbl) 2'', ''(arr) end'']),
     ([''zquery'', ''zset'', ''1.1'', '''', ''2'', ''10''], [''(arr) len=0'', ''(arr) end'']),
     ([''zrem'', ''zset'', ''adsf''], [''(int) 0'']),
     ([''zrem'', ''zset'', ''n1''], [''(int) 1'']),
     ([''zquery'', ''zset'', ''1'', '''', ''0'', ''10''], [''(arr) len=2'', ''(str) n2'', ''(dbl) 2'', ''(arr) end''])]"

section \<open>Steps on the abstract database\<close>

text \<open>A command takes every database that implements \<open>s\<close> to one that implements \<open>s'\<close>, and the client prints \<open>txt\<close>.\<close>

definition goes :: "strtod \<Rightarrow> (u64 \<Rightarrow> bytes) \<Rightarrow> adb \<Rightarrow> bytes list \<Rightarrow> adb \<Rightarrow> bytes \<Rightarrow> bool" where
  "goes strtod fmt_g s cmd s' txt \<longleftrightarrow> (\<forall>g now. implements g s \<longrightarrow> length (enc_cmd cmd) \<le> client_max_msg \<longrightarrow>
     (\<exists>g'. run_command strtod fmt_g g now cmd = Some (g', txt) \<and> implements g' s'))"

inductive transcript :: "strtod \<Rightarrow> (u64 \<Rightarrow> bytes) \<Rightarrow> adb \<Rightarrow> (bytes list \<times> bytes) list \<Rightarrow> bool" for strtod fmt_g where
  nothing: "transcript strtod fmt_g s []"
| command_first: "goes strtod fmt_g s c s' txt \<Longrightarrow> transcript strtod fmt_g s' cs \<Longrightarrow> transcript strtod fmt_g s ((c, txt) # cs)"

lemma transcript_run:
  assumes "transcript strtod fmt_g s cs" and "list_all (\<lambda>c. length (enc_cmd (fst c)) \<le> client_max_msg) cs"
    and "implements g s" and "length ts = length cs"
  shows "\<exists>g'. run_commands strtod fmt_g g (zip ts (map fst cs)) = Some (g', map snd cs)"
  using assms
proof (induction arbitrary: g ts)
  case (command_first s c s' out cs)
  then obtain t ts' where t: "ts = t # ts'" "length ts' = length cs" by (cases ts) auto
  obtain g1 where g1: "run_command strtod fmt_g g t c = Some (g1, out)" "implements g1 s'"
    using command_first.hyps(1) command_first.prems(1,2) unfolding goes_def by auto
  obtain g2 where "run_commands strtod fmt_g g1 (zip ts' (map fst cs)) = Some (g2, map snd cs)"
    using command_first.IH [OF _ g1(2) t(2)] command_first.prems(1) by auto
  then show ?case using g1(1) t(1) by simp
qed simp

lemma run_command_prints:
  assumes r: "do_request strtod g now cmd (u32_bytes 0) = Some (g', u32_bytes 0 @ enc rep)" and "reply_ok rep"
    and l: "length (enc rep) \<le> client_max_msg" and "enc rep \<noteq> []" and n: "length (enc_cmd cmd) \<le> client_max_msg"
  shows "run_command strtod fmt_g g now cmd = Some (g', client_stdout fmt_g (print_of rep))"
proof -
  let ?w = "framed (enc_cmd cmd)" and ?h = "u32_bytes (of_nat (length (enc rep)))"
  have w: "send_req cmd = Some (Some ?w)" using send_req_enc [OF n] by (simp add: framed_def)
  have q: "requests_of ?w = ([cmd], [], False)"
    using requests_of_msgs [of "[cmd]" "[]" "[]" "[]" False] cmd_ok_small [OF n] n
    by (simp add: requests_of.simps client_max_msg_def k_max_msg_def)
  have t: "try_one_request strtod g now (fresh_conn ?w) = Some (g',
      (fresh_conn (drop (4 + msg_len ?w) ?w))\<lparr>outgoing := framed (enc rep)\<rparr>, True)"
    using q [unfolded requests_of_Cons] unat_4_plus [of "bytes_u32 (take 4 ?w)"] r client_framed(2) [OF l]
      response_begin_end(2) [of "[]" "enc rep"]
    by (simp add: try_one_request_def mem_read_def buf_consume_def response_begin_end(1) fresh_conn_def)
  have p: "?h \<noteq> []" by (metis length_int_bytes(1) list.size(3) zero_neq_numeral)
  have d: "take 4 (framed (enc rep)) = ?h" "drop 4 (framed (enc rep)) = enc rep" by (simp_all add: framed_def)
  have "read_res [Some ?h, Some (enc rep)] = Some (print_of rep, int (length (enc rep)))"
    using read_res_enc [OF assms(2) l, of "[?h]" "[enc rep]" "[]"] assms(4) p by (auto simp: pieces_def)
  moreover have "send_req_on [Some (length ?w)] cmd = Some (0, ?w)"
    using write_all_pieces [of "[length ?w]" ?w "[]"] w p by (simp add: send_req_on_def framed_def)
  ultimately have "client_main True True cmd [Some (length ?w)] [Some ?h, Some (enc rep)] = Some (Running (?w, print_of rep))"
    by (simp add: client_main_def)
  then show ?thesis unfolding run_command_def w by (simp add: t d)
qed

text \<open>The commands of the script, one lemma each.\<close>

lemma goes_reply:
  assumes "\<And>g now out. implements g s \<Longrightarrow> \<exists>g'. do_request strtod g now cmd out = Some (g', out @ enc rep) \<and> implements g' s'"
    and "reply_ok rep" and "enc rep \<noteq> []" and "length (enc rep) \<le> client_max_msg" and "client_stdout fmt_g (print_of rep) = out"
  shows "goes strtod fmt_g s cmd s' out"
  unfolding goes_def using assms run_command_prints by blast

lemma goes_zscore:
  assumes "zscore_reply s key nm = rep"
    and "reply_ok rep" and "enc rep \<noteq> []" and "length (enc rep) \<le> client_max_msg" and "client_stdout fmt_g (print_of rep) = out"
  shows "goes strtod fmt_g s [ascii ''zscore'', key, nm] s out"
  using request_zscore assms(1) by (intro goes_reply [OF _ assms(2-5)]) blast

lemma goes_zadd:
  assumes "roomy s" and "zadd_db strtod s key arg nm = (s', rep)"
    and "reply_ok rep" and "enc rep \<noteq> []" and "length (enc rep) \<le> client_max_msg" and "client_stdout fmt_g (print_of rep) = out"
  shows "goes strtod fmt_g s [ascii ''zadd'', key, arg, nm] s' out"
proof (rule goes_reply [OF _ assms(3-6)])
  fix g now buf assume "implements g s"
  from request_zadd [OF this assms(1), of strtod now key arg nm buf]
  show "\<exists>g'. do_request strtod g now [ascii ''zadd'', key, arg, nm] buf = Some (g', buf @ enc rep) \<and> implements g' s'"
    unfolding assms(2) by simp
qed

lemma goes_zrem:
  assumes "zrem_db s key nm = (s', rep)"
    and "reply_ok rep" and "enc rep \<noteq> []" and "length (enc rep) \<le> client_max_msg" and "client_stdout fmt_g (print_of rep) = out"
  shows "goes strtod fmt_g s [ascii ''zrem'', key, nm] s' out"
proof (rule goes_reply [OF _ assms(2-5)])
  fix g now buf assume "implements g s"
  then obtain A Z T where "srv_rel g A Z T s" by (auto simp: implements_def)
  from do_zrem_rel [OF this, of "[ascii ''zrem'', key, nm]" buf]
  show "\<exists>g'. do_request strtod g now [ascii ''zrem'', key, nm] buf = Some (g', buf @ enc rep) \<and> implements g' s'"
    by (simp add: dispatch(6) is_cmd_def assms(1))
qed

lemma goes_zquery:
  assumes "cmd = [ascii ''zquery'', key, arg, nm, off, lim]" and "\<And>r. is_zquery_reply strtod s cmd r \<Longrightarrow> r = rep"
    and "reply_ok rep" and "enc rep \<noteq> []" and "length (enc rep) \<le> client_max_msg" and "client_stdout fmt_g (print_of rep) = out"
  shows "goes strtod fmt_g s cmd s out"
proof (rule goes_reply [OF _ assms(3-6)])
  fix g now buf assume "implements g s"
  from request_zquery [OF this assms(1), where strtod = strtod and now = now and out = buf]
  obtain g' r where "do_request strtod g now cmd buf = Some (g', buf @ enc r)" "is_zquery_reply strtod s cmd r" "implements g' s" by blast
  then show "\<exists>g'. do_request strtod g now cmd buf = Some (g', buf @ enc rep) \<and> implements g' s" using assms(2) by blast
qed

text \<open>The reply of \<open>zquery\<close> when the pairs of the set are known in order.\<close>

lemma zquery_known:
  assumes "s key = Some (AZset f, t)" and "sorted_pairs f ps" and "str2dbl strtod arg = Some sc"
    and "str2int off = Some offset" and "str2int lim = Some limit"
    and "is_zquery_reply strtod s [c, key, arg, nm, off, lim] r"
  shows "r = RArr (pair_replies (zquery_window ps sc nm offset limit))"
proof -
  obtain qs where "sorted_pairs f qs" "r = RArr (pair_replies (zquery_window qs sc nm offset limit))"
    using assms(1,3-6) by (auto simp: is_zquery_reply_def)
  then show ?thesis using sorted_pairs_unique [OF assms(2)] by blast
qed

section \<open>The transcript\<close>

abbreviation one :: u64 where "one \<equiv> 0x3FF0000000000000"
abbreviation one_one :: u64 where "one_one \<equiv> 0x3FF199999999999A"
abbreviation two :: u64 where "two \<equiv> 0x4000000000000000"

lemma test_numbers: "\<not> isnan one" "\<not> isnan one_one" "\<not> isnan two"
  "dbl_key one = 0x3FF0000000000000" "dbl_key one_one = 0x3FF199999999999A" "dbl_key two = 0x4000000000000000"
  by (simp_all add: isnan_def dbl_mag_def dbl_key_def)

lemma test_ints: "str2int (ascii ''0'') = Some 0" "str2int (ascii ''1'') = Some 1" "str2int (ascii ''2'') = Some 2"
  "str2int (ascii ''10'') = Some 10"
  by code_simp+

lemma show_digits: "show_int 0 = ascii ''0''" "show_int 1 = ascii ''1''" "show_int 2 = ascii ''2''" "show_int 4 = ascii ''4''"
  by code_simp+

definition test_set :: "(bytes \<rightharpoonup> u64) \<Rightarrow> adb" where
  "test_set f = [ascii ''zset'' \<mapsto> (AZset f, None)]"

lemma test_set_simps [simp]:
  "test_set f (ascii ''zset'') = Some (AZset f, None)" "(test_set f)(ascii ''zset'' \<mapsto> (AZset f', None)) = test_set f'"
  by (simp_all add: test_set_def)

lemma roomy_test_set: "card (dom f) < avl_max \<Longrightarrow> roomy (test_set f)"
  by (auto simp: test_set_def roomy_def no_timer_def card_insert_if split: if_splits)

lemma pairs_two: "sorted_pairs [ascii ''n1'' \<mapsto> one_one, ascii ''n2'' \<mapsto> two] [(one_one, ascii ''n1''), (two, ascii ''n2'')]"
  by (auto simp: sorted_pairs_def pair_key_def test_numbers less_prod_def ascii_inj split: if_splits)

lemma pairs_one: "sorted_pairs [ascii ''n2'' \<mapsto> two] [(two, ascii ''n2'')]"
  by (auto simp: sorted_pairs_def split: if_splits)

lemma windows:
  "zquery_window [(one_one, ascii ''n1''), (two, ascii ''n2'')] one (ascii '''') 0 10 = [(one_one, ascii ''n1''), (two, ascii ''n2'')]"
  "zquery_window [(one_one, ascii ''n1''), (two, ascii ''n2'')] one_one (ascii '''') 1 10 = [(two, ascii ''n2'')]"
  "zquery_window [(one_one, ascii ''n1''), (two, ascii ''n2'')] one_one (ascii '''') 2 10 = []"
  "zquery_window [(two, ascii ''n2'')] one (ascii '''') 0 10 = [(two, ascii ''n2'')]"
  by (simp_all add: zquery_window_def pair_key_def test_numbers less_prod_def ascii_def)

text \<open>What the client prints for the replies of the script.\<close>

lemma ascii_append: "ascii a @ ascii b = ascii (a @ b)"
  by (simp add: ascii_def)

lemma test_texts:
  assumes "fmt_g one_one = ascii ''1.1''" and "fmt_g two = ascii ''2''"
  shows "client_stdout fmt_g (print_of RNil) = test_lines [''(nil)'']"
    and "client_stdout fmt_g (print_of (RInt 0)) = test_lines [''(int) 0'']"
    and "client_stdout fmt_g (print_of (RInt 1)) = test_lines [''(int) 1'']"
    and "client_stdout fmt_g (print_of (RDbl one_one)) = test_lines [''(dbl) 1.1'']"
    and "client_stdout fmt_g (print_of (RArr [])) = test_lines [''(arr) len=0'', ''(arr) end'']"
    and "client_stdout fmt_g (print_of (RArr (pair_replies [(one_one, ascii ''n1''), (two, ascii ''n2'')]))) =
      test_lines [''(arr) len=4'', ''(str) n1'', ''(dbl) 1.1'', ''(str) n2'', ''(dbl) 2'', ''(arr) end'']"
    and "client_stdout fmt_g (print_of (RArr (pair_replies [(two, ascii ''n2'')]))) =
      test_lines [''(arr) len=2'', ''(str) n2'', ''(dbl) 2'', ''(arr) end'']"
proof -
  have c: "c_str (ascii ''n1'') = ascii ''n1''" "c_str (ascii ''n2'') = ascii ''n2''" by code_simp+
  note [simp] = client_stdout_def test_lines_def pair_replies_def show_digits assms c
  have app: "ascii a @ ascii b @ xs = ascii (a @ b) @ xs" for a b xs by (simp add: ascii_def)
  show "client_stdout fmt_g (print_of RNil) = test_lines [''(nil)'']"
    "client_stdout fmt_g (print_of (RInt 0)) = test_lines [''(int) 0'']"
    "client_stdout fmt_g (print_of (RInt 1)) = test_lines [''(int) 1'']"
    "client_stdout fmt_g (print_of (RDbl one_one)) = test_lines [''(dbl) 1.1'']"
    "client_stdout fmt_g (print_of (RArr [])) = test_lines [''(arr) len=0'', ''(arr) end'']"
    "client_stdout fmt_g (print_of (RArr (pair_replies [(one_one, ascii ''n1''), (two, ascii ''n2'')]))) =
      test_lines [''(arr) len=4'', ''(str) n1'', ''(dbl) 1.1'', ''(str) n2'', ''(dbl) 2'', ''(arr) end'']"
    "client_stdout fmt_g (print_of (RArr (pair_replies [(two, ascii ''n2'')]))) =
      test_lines [''(arr) len=2'', ''(str) n2'', ''(dbl) 2'', ''(arr) end'']"
    by (simp_all add: app)
qed

lemma test_replies:
  assumes "r \<in> {RNil, RInt 0, RInt 1, RDbl one_one, RArr [], RArr (pair_replies [(one_one, ascii ''n1''), (two, ascii ''n2'')]),
    RArr (pair_replies [(two, ascii ''n2'')])}"
  shows "reply_ok r" and "enc r \<noteq> []" and "length (enc r) \<le> client_max_msg"
proof -
  let ?all = "[RNil, RInt 0, RInt 1, RDbl one_one, RArr [], RArr (pair_replies [(one_one, ascii ''n1''), (two, ascii ''n2'')]),
    RArr (pair_replies [(two, ascii ''n2'')])]"
  have "list_all (\<lambda>r. enc r \<noteq> [] \<and> length (enc r) \<le> client_max_msg) ?all" by code_simp
  then show "enc r \<noteq> []" "length (enc r) \<le> client_max_msg" using assms by auto
  show "reply_ok r" using assms by (auto simp: pair_replies_def)
qed

text \<open>The transcript holds on the abstract database, command by command.\<close>

definition test_script :: "(bytes list \<times> bytes) list" where
  "test_script = map (\<lambda>(c, ls). (map ascii c, test_lines ls)) test_cases"

lemma transcript_holds:
  assumes one: "str2dbl strtod (ascii ''1'') = Some one" and two: "str2dbl strtod (ascii ''2'') = Some two"
    and oo: "str2dbl strtod (ascii ''1.1'') = Some one_one"
    and fmt: "fmt_g one_one = ascii ''1.1''" "fmt_g two = ascii ''2''"
  shows "transcript strtod fmt_g Map.empty test_script"
proof -
  let ?n1 = "ascii ''n1''" and ?n2 = "ascii ''n2''" and ?z = "ascii ''zset''"
  let ?f1 = "[?n1 \<mapsto> one]" and ?f2 = "[?n1 \<mapsto> one, ?n2 \<mapsto> two]" and ?f3 = "[?n1 \<mapsto> one_one, ?n2 \<mapsto> two]"
  have ne: "?n1 \<noteq> ?n2" "ascii ''adsf'' \<noteq> ?n1" "ascii ''adsf'' \<noteq> ?n2" by (simp_all add: ascii_inj)
  have f3: "?f2(?n1 \<mapsto> one_one) = ?f3" "?f3(?n1 := None) = [?n2 \<mapsto> two]" using ne by auto
  have "card (dom ?f1) < avl_max" "card (dom ?f2) < avl_max" by (simp_all add: avl_max_def card_insert_if)
  then have room: "roomy Map.empty" "roomy (test_set ?f1)" "roomy (test_set ?f2)"
    by (auto intro: roomy_test_set) (simp add: roomy_def no_timer_def)
  have neq: "\<not> dbl_eq one one_one" by (simp add: dbl_eq_def test_numbers)
  have adds: "zadd_db strtod Map.empty ?z (ascii ''1'') ?n1 = (test_set ?f1, RInt 1)"
    "zadd_db strtod (test_set ?f1) ?z (ascii ''2'') ?n2 = (test_set ?f2, RInt 1)"
    "zadd_db strtod (test_set ?f2) ?z (ascii ''1.1'') ?n1 = (test_set ?f3, RInt 0)"
    using ne by (simp_all add: zadd_db_def one two oo zadd_spec_def neq f3(1)) (simp add: test_set_def)
  have rems: "zrem_db (test_set ?f3) ?z (ascii ''adsf'') = (test_set ?f3, RInt 0)"
    "zrem_db (test_set ?f3) ?z ?n1 = (test_set [?n2 \<mapsto> two], RInt 1)"
    using ne f3(2) by (simp_all add: zrem_db_def fun_upd_idem)
  note ok = test_replies
  note shown = test_texts [OF fmt]
  have q1: "r = RArr []" if "is_zquery_reply strtod Map.empty
      [ascii ''zquery'', ascii ''xxx'', ascii ''1'', ascii ''asdf'', ascii ''1'', ascii ''10''] r" for r
    using that by (simp add: is_zquery_reply_def one test_ints)
  have q2: "r = RArr (pair_replies (zquery_window [(one_one, ?n1), (two, ?n2)] sc (ascii '''') k 10))"
    if "str2dbl strtod arg = Some sc" "str2int off = Some k"
      "is_zquery_reply strtod (test_set ?f3) [ascii ''zquery'', ?z, arg, ascii '''', off, ascii ''10''] r" for r arg sc off k
    using zquery_known [OF test_set_simps(1) pairs_two that(1,2) test_ints(4) that(3)] .
  have q3: "r = RArr (pair_replies (zquery_window [(two, ?n2)] one (ascii '''') 0 10))"
    if "is_zquery_reply strtod (test_set [?n2 \<mapsto> two]) [ascii ''zquery'', ?z, ascii ''1'', ascii '''', ascii ''0'', ascii ''10''] r" for r
    using zquery_known [OF test_set_simps(1) pairs_one one test_ints(1,4) that] .
  have none: "pair_replies [] = []" by (simp add: pair_replies_def)
  have z: "goes strtod fmt_g Map.empty [ascii ''zscore'', ascii ''asdf'', ?n1] Map.empty (test_lines [''(nil)''])"
    "goes strtod fmt_g (test_set ?f3) [ascii ''zscore'', ?z, ?n1] (test_set ?f3) (test_lines [''(dbl) 1.1''])"
    by (rule goes_zscore [OF _ ok shown(1)] goes_zscore [OF _ ok shown(4)]; simp add: zscore_reply_def ne)+
  have a: "goes strtod fmt_g Map.empty [ascii ''zadd'', ?z, ascii ''1'', ?n1] (test_set ?f1) (test_lines [''(int) 1''])"
    "goes strtod fmt_g (test_set ?f1) [ascii ''zadd'', ?z, ascii ''2'', ?n2] (test_set ?f2) (test_lines [''(int) 1''])"
    "goes strtod fmt_g (test_set ?f2) [ascii ''zadd'', ?z, ascii ''1.1'', ?n1] (test_set ?f3) (test_lines [''(int) 0''])"
    by (rule goes_zadd [OF room(1) adds(1) ok shown(3)] goes_zadd [OF room(2) adds(2) ok shown(3)]
        goes_zadd [OF room(3) adds(3) ok shown(2)]; simp)+
  have m: "goes strtod fmt_g (test_set ?f3) [ascii ''zrem'', ?z, ascii ''adsf''] (test_set ?f3) (test_lines [''(int) 0''])"
    "goes strtod fmt_g (test_set ?f3) [ascii ''zrem'', ?z, ?n1] (test_set [?n2 \<mapsto> two]) (test_lines [''(int) 1''])"
    by (rule goes_zrem [OF rems(1) ok shown(2)] goes_zrem [OF rems(2) ok shown(3)]; simp)+
  have q: "goes strtod fmt_g Map.empty [ascii ''zquery'', ascii ''xxx'', ascii ''1'', ascii ''asdf'', ascii ''1'', ascii ''10''] Map.empty
      (test_lines [''(arr) len=0'', ''(arr) end''])"
    by (rule goes_zquery [OF refl q1 ok shown(5)]; simp)
  have w: "goes strtod fmt_g (test_set ?f3) [ascii ''zquery'', ?z, ascii ''1'', ascii '''', ascii ''0'', ascii ''10''] (test_set ?f3)
      (test_lines [''(arr) len=4'', ''(str) n1'', ''(dbl) 1.1'', ''(str) n2'', ''(dbl) 2'', ''(arr) end''])"
    by (rule goes_zquery [OF refl q2 [OF one test_ints(1), unfolded windows] ok shown(6)]; simp)
  have x: "goes strtod fmt_g (test_set ?f3) [ascii ''zquery'', ?z, ascii ''1.1'', ascii '''', ascii ''1'', ascii ''10''] (test_set ?f3)
      (test_lines [''(arr) len=2'', ''(str) n2'', ''(dbl) 2'', ''(arr) end''])"
    by (rule goes_zquery [OF refl q2 [OF oo test_ints(2), unfolded windows] ok shown(7)]; simp)
  have y: "goes strtod fmt_g (test_set ?f3) [ascii ''zquery'', ?z, ascii ''1.1'', ascii '''', ascii ''2'', ascii ''10''] (test_set ?f3)
      (test_lines [''(arr) len=0'', ''(arr) end''])"
    by (rule goes_zquery [OF refl q2 [OF oo test_ints(3), unfolded windows none] ok shown(5)]; simp)
  have v: "goes strtod fmt_g (test_set [?n2 \<mapsto> two]) [ascii ''zquery'', ?z, ascii ''1'', ascii '''', ascii ''0'', ascii ''10'']
      (test_set [?n2 \<mapsto> two]) (test_lines [''(arr) len=2'', ''(str) n2'', ''(dbl) 2'', ''(arr) end''])"
    by (rule goes_zquery [OF refl q3 [unfolded windows] ok shown(7)]; simp)
  show ?thesis unfolding test_script_def test_cases_def list.map prod.case
    by (intro command_first [OF z(1)] command_first [OF q] command_first [OF a(1)] command_first [OF a(2)] command_first [OF a(3)]
      command_first [OF z(2)] command_first [OF w] command_first [OF x] command_first [OF y] command_first [OF m(1)]
      command_first [OF m(2)] command_first [OF v]) (rule nothing)
qed

lemma script_small: "list_all (\<lambda>c. length (enc_cmd (fst c)) \<le> client_max_msg) test_script"
  by code_simp

text \<open>C40. The script \<open>test_cmds.py\<close> passes: on a fresh server its commands run one after another, whatever the time, and the
  client prints for each exactly the expected text. \<open>strtod\<close> must read \<open>1\<close>, \<open>2\<close> and \<open>1.1\<close> as the doubles nearest to them, and
  \<open>%g\<close> must write the last two back.\<close>

theorem test_cmds_pass:
  assumes "str2dbl strtod (ascii ''1'') = Some one" and "str2dbl strtod (ascii ''2'') = Some two"
    and "str2dbl strtod (ascii ''1.1'') = Some one_one"
    and "fmt_g one_one = ascii ''1.1''" and "fmt_g two = ascii ''2''" and "length ts = length test_script"
  shows "\<exists>g. run_commands strtod fmt_g g_data_init (zip ts (map fst test_script)) = Some (g, map snd test_script)"
  by (rule transcript_run [OF transcript_holds [OF assms(1-5)] script_small implements_init assms(6)])

definition decimal_strtod :: strtod where
  "decimal_strtod s = (if s = ascii ''1.1'' then (one_one, 3) else sample_strtod s)"

definition decimal_g :: "u64 \<Rightarrow> bytes" where
  "decimal_g d = (if d = one_one then ascii ''1.1'' else ascii ''2'')"

theorem test_cmds_pass_witness:
  "\<exists>g. run_commands decimal_strtod decimal_g g_data_init (zip (replicate 12 7) (map fst test_script)) = Some (g, map snd test_script)"
proof (rule test_cmds_pass)
  show "str2dbl decimal_strtod (ascii ''1'') = Some one" by code_simp
  show "str2dbl decimal_strtod (ascii ''2'') = Some two" by code_simp
  show "str2dbl decimal_strtod (ascii ''1.1'') = Some one_one" by code_simp
  show "decimal_g one_one = ascii ''1.1''" "decimal_g two = ascii ''2''" by (simp_all add: decimal_g_def)
  show "length (replicate 12 (7 :: u64)) = length test_script" by (simp add: test_script_def test_cases_def)
qed

end
