(* ===== verification/Spec2Isabelle.thy ===== *)
theory Spec2Isabelle
  imports Benchmark_Run Progress Test_Programs_Correct Test_Commands
begin

text \<open>
  A verification of the key-value server in \<open>src/\<close>, from its pointer structures up to its event loop, and of the
  client and the load generator that talk to it.

  \<^bold>\<open>The program.\<close> \<open>server.cpp\<close> is one process with one thread. Its loop in \<open>main\<close> polls the sockets, reads bytes into
  the buffer of a connection, cuts them into requests (\<open>try_one_request\<close>, \<open>parse_req\<close>), executes each
  (\<open>do_request\<close>) on a database of entries and appends the serialized reply to an output buffer. The database is
  an intrusive hash table with progressive rehashing (\<open>hashtable.cpp\<close>); an entry holds a string or a sorted set
  (\<open>zset.cpp\<close>: the same hash table by name and an AVL tree, \<open>avl.cpp\<close>, by score and name). Times to live are in an
  array heap whose items point back to the entries (\<open>heap.cpp\<close>), idle connections in a doubly linked list (\<open>list.h\<close>).
  \<open>client.cpp\<close> sends its arguments as one request and prints the reply; \<open>benchmark.cpp\<close> sends long pipelines.

  \<^bold>\<open>The model.\<close> Objects live in stores, maps from addresses to records; a pointer is an optional address. A step of the
  code that would be undefined (NULL or freed memory, an index out of range) or that fails an \<open>assert\<close> is \<open>None\<close>, so
  a theorem that a function gives \<open>Some\<close> result says that none of this happens and that its loops end. Numbers
  have the width of the code (words of 8, 32 and 64 bits); doubles are their 64-bit patterns. Each intrusive member of
  an object (hash node, tree node, heap index, list node) has its own store, under the address of the object,
  so \<open>container_of\<close> is the identity. Clock readings and the results of system calls are arguments. A process that
  ends itself by \<open>die\<close>, or that a signal ends, is \<open>Died\<close>, which is a result and not a failure. The server has no handler for
  \<open>SIGPIPE\<close>: a write to a connection that its peer has reset (\<open>Write_sigpipe\<close>) ends it.

  \<^item> \<open>Prelude\<close>: stores, pointers, bytes and words. \<open>Common\<close>: \<open>str_hash\<close> of \<open>common.h\<close>. \<open>Double\<close>: comparison of doubles, \<open>memcmp\<close>.
  \<^item> \<open>Hashtable\<close>, \<open>Avl\<close>, \<open>Zset\<close>, \<open>Timer_Heap\<close>, \<open>Dlist_Ring\<close>: \<open>hashtable.cpp\<close>, \<open>avl.cpp\<close>, \<open>zset.cpp\<close>, \<open>heap.cpp\<close> with
    \<open>heap_delete\<close> and \<open>heap_upsert\<close> of \<open>server.cpp\<close>, and \<open>list.h\<close>, one definition per function and per loop.
  \<^item> \<open>Protocol\<close>: the request parser, the reply serializer and the response frame of \<open>server.cpp\<close>; \<open>send_req\<close> and
    \<open>print_response\<close> of \<open>client.cpp\<close>. \<open>Client\<close>: the rest of the client. \<open>Benchmark\<close>: \<open>benchmark.cpp\<close>.
  \<^item> \<open>Server\<close>: \<open>Entry\<close>, the database and the commands \<open>do_*\<close> of \<open>server.cpp\<close>. The record \<open>gdata\<close> is the part of \<open>g_data\<close>
    that commands use.
  \<^item> \<open>Event_Loop\<close>: \<open>Conn\<close>, start-up, the clock, accepting with \<open>fd_set_nb\<close>, reading, writing and closing,
    \<open>next_timer_ms\<close>, \<open>process_timers\<close>, \<open>iteration\<close>, one pass of the loop of \<open>main\<close>, and \<open>main_loop\<close>, the loop.
  \<^item> \<open>Test_Programs\<close>: \<open>test_avl.cpp\<close>, \<open>test_offset.cpp\<close> and \<open>test_heap.cpp\<close>, with all their assertions.

  \<^bold>\<open>What is shown.\<close>
  \<^item> \<open>Hashtable_Correct\<close>: lookup, insertion and deletion in every state of a migration, that migration makes progress,
    and the bound on the load; locale \<open>hash_index\<close> is the contract that its two clients use.
  \<^item> \<open>Avl_Tree\<close>, \<open>Avl_Correct\<close>: the pointer code implements rebalancing on trees; insertion, deletion, and access by
    rank (locale \<open>rank_list\<close>), logarithmic height. Counts are 32 bits wide: trees have at most \<open>avl_max\<close> nodes.
  \<^item> \<open>Zset_Correct\<close>: both indexes hold the same pairs; the operations implement a map from names to scores.
  \<^item> \<open>Timer_Heap_Correct\<close>, \<open>Dlist_Ring_Correct\<close>: heap order and back references (locale \<open>timer_queue\<close>), rings
    (locale \<open>idle_queue\<close>).
  \<^item> \<open>Protocol_Correct\<close>, \<open>Client_Correct\<close>: an abstract syntax of requests and replies; the parser accepts exactly the
    encodings; client and server read what the other writes.
  \<^item> \<open>Server_Correct\<close>, \<open>Request_Properties\<close>: the database implements a map from keys to values with expiry times
    (\<open>implements\<close>); each request does what the relation \<open>command\<close> says, and laws of the commands follow. The invariant
    also says which objects are allocated, so that nothing leaks.
  \<^item> \<open>Event_Loop_Correct\<close>, \<open>Timers_Correct\<close>, \<open>Sessions\<close>, \<open>Main_Loop_Correct\<close>, \<open>Loop_Properties\<close>: the invariant of the
    connections, pipelining, timers, that no reachable state of the loop fails, and that one history of requests and
    expiries explains what every client sees. \<open>Sessions\<close> reads the bytes on the wire off the results of the
    system calls.
  \<^item> \<open>Progress\<close>: under a client that keeps reading, the loop delivers every reply.
  \<^item> \<open>Benchmark_Correct\<close>, \<open>Benchmark_Run\<close>: the requests and replies of the benchmark, and benchmark and server on sockets with
    buffers of limited size, which they may fill while both follow their code: no deadlock when the replies of a run fit,
    and a deadlock when they do not. This theory: client and server together.
  \<^item> \<open>Test_Programs_Correct\<close>: the test programs succeed for all results of \<open>rand\<close> (locale \<open>multiset_container\<close> is the
    contract of their three containers), and \<open>avl_verify\<close> accepts exactly the sound trees.
  \<^item> \<open>Test_Commands\<close>: \<open>test_cmds.py\<close>, with its commands and the text that it expects: the script passes on a fresh server.

  \<^bold>\<open>Bounds.\<close> A sorted set can overflow its 32-bit counts, so refinement of a sequence of requests is shown for fewer than
  \<open>avl_max\<close> \<open>= 2\<^sup>3\<^sup>2 - 2\<close> of them. In \<open>reachable\<close> the budget counts the bytes that have been read, since each request has
  at least one byte. There is no fuel: loops are functions with a measure, or \<open>partial_function\<close> with
  proofs that they return.

  \<^bold>\<open>Assumptions.\<close> \<open>strtod\<close> of the C library is a parameter without assumptions, except that the benchmark needs its scores to be
  accepted and \<open>test_cmds.py\<close> needs five values of it and of the format \<open>%g\<close>. \<open>kernel_ok\<close> says what is used of the kernel: \<open>poll\<close> reports only events that were asked for and the error
  events, and \<open>accept\<close> returns a descriptor that is not open. \<open>served\<close> (theory \<open>Progress\<close>) says that a socket takes bytes.
  Memory allocation does not fail.

  \<^bold>\<open>Not modelled.\<close> \<open>SIGPIPE\<close> in the client and the benchmark, for which a failing \<open>write\<close> returns an error here; addresses and options of sockets, the text that \<open>die\<close> and \<open>msg\<close> write on stderr, the throughput
  that the benchmark prints, commented-out code, and how \<open>test_cmds.py\<close> splits its text into commands.
\<close>

section \<open>Client and server together\<close>

lemma command_reply_ok: "command strtod now s cmd s' rep \<Longrightarrow> reply_ok rep"
proof (induction rule: command.induct)
  case (pttl key)
  show ?case using sint_greater_eq [where 'a = 64] sint_less [where 'a = 64]
    by (auto simp: ttl_reply_def split: option.splits)
qed (auto simp: get_reply_def set_spec_def del_spec_def zadd_db_def zrem_db_def zscore_reply_def expire_spec_def
  is_keys_reply_def is_zquery_reply_def pair_replies_def expect_zset_err_def
  split: option.splits avalue.splits prod.splits if_splits)

text \<open>What the server sends for a reply: one that is too large is replaced by an error.\<close>

definition sent_reply :: "reply \<Rightarrow> reply" where
  "sent_reply rep = (if k_max_msg < length (enc rep) then too_big else rep)"

lemma frame_sent: "frame (enc rep) = framed (enc (sent_reply rep))"
  by (simp add: frame_def sent_reply_def)

lemma sent_reply_props: "length (enc (sent_reply rep)) < 2 ^ 32" "reply_ok rep \<Longrightarrow> reply_ok (sent_reply rep)"
  by (auto simp: sent_reply_def too_big_def k_max_msg_def ascii_def)

text \<open>The client on the reply: it prints one that it accepts, and nothing otherwise.\<close>

lemma client_receives:
  assumes "length (enc_cmd cmd) \<le> client_max_msg" and "0 \<notin> set ks" and "sum_list ks = 4 + length (enc_cmd cmd)" and "reply_ok r"
    and "length (enc r) < 2 ^ 32" and "pieces hs (take 4 (framed (enc r)))" and "pieces bss (drop 4 (framed (enc r)))"
  shows "client_main True True cmd (map Some ks) (map Some hs @ map Some bss) =
    Some (Running (framed (enc_cmd cmd), if length (enc r) \<le> client_max_msg then print_of r else []))"
proof -
  have "write_all (map Some ks @ []) (framed (enc_cmd cmd)) = Some (0, framed (enc_cmd cmd))"
    using assms(2,3) by (intro write_all_pieces) (simp_all add: framed_def)
  then have w: "send_req_on (map Some ks) cmd = Some (0, framed (enc_cmd cmd))"
    using send_req_enc [OF assms(1)] by (simp add: send_req_on_def framed_def)
  have p: "pieces hs (u32_bytes (of_nat (length (enc r))))" "pieces bss (enc r)" using assms(6,7) by (simp_all add: framed_def)
  show ?thesis
  proof (cases "length (enc r) \<le> client_max_msg")
    case True
    then show ?thesis using w read_res_enc [OF assms(4) True p, of "[]"] by (simp add: client_main_def)
  next
    case False
    then show ?thesis using w read_res_long [OF _ assms(5) p(1), of "map Some bss"] by (simp add: client_main_def)
  qed
qed

text \<open>C5. One request over the network, with the server's calls gated by its flags as in the event loop. The client's
  arguments reach the server in any pieces, and its socket takes the reply in any pieces; the server executes
  exactly the client's command, sends exactly one framed reply (an error in place of one over 32 MiB), and is
  then as before. The client writes exactly the request; it prints the reply if that is not longer than the 4096
  bytes it accepts, in whatever pieces it arrives, and prints nothing otherwise.\<close>

theorem client_server_roundtrip:
  assumes "implements g s" and "fits n s" and "n + 1 < avl_max" and "length (enc_cmd cmd) \<le> client_max_msg"
    and "0 \<notin> set ks" and "sum_list ks = 4 + length (enc_cmd cmd)"
    and "concat (map (\<lambda>(clk, bs, w). bs) ps) = framed (enc_cmd cmd)" and "\<forall>(clk, bs, w) \<in> set ps. bs \<noteq> [] \<and> socket_open w"
    and "want_read c" and "\<not> want_write c" and "\<not> want_close c" and "incoming c = []" and "outgoing c = []"
  shows "\<exists>g' s' rep t sent unsent. command strtod t s cmd s' rep \<and> implements g' s' \<and> sent @ unsent = frame (enc rep) \<and>
    (\<forall>js. 0 \<notin> set js \<and> sum_list js = length unsent \<longrightarrow>
      drive strtod g c (map (\<lambda>(clk, bs, w). Readable clk bs w) ps @ map (\<lambda>k. Writable (Write_upto k)) js) =
        Some (g', c, frame (enc rep))) \<and>
    (\<forall>hs bss. pieces hs (take 4 (frame (enc rep))) \<longrightarrow> pieces bss (drop 4 (frame (enc rep))) \<longrightarrow>
      client_main True True cmd (map Some ks) (map Some hs @ map Some bss) =
        Some (Running (concat (map (\<lambda>(clk, bs, w). bs) ps),
          if length (enc (sent_reply rep)) \<le> client_max_msg then print_of (sent_reply rep) else [])))"
proof -
  have fl: "flags_ok c" using assms(9-13) by (simp add: flags_ok_def)
  have "cmd_ok cmd" "length (enc_cmd cmd) \<le> k_max_msg"
    using cmd_ok_small [OF assms(4)] assms(4) by (simp_all add: client_max_msg_def k_max_msg_def)
  then have "requests_of (incoming c @ concat (map (\<lambda>(clk, bs, w). bs) ps)) = ([cmd], [], False)"
    using requests_of_msgs [of "[cmd]" "[]" "[]" "[]" False] assms(7,12) by simp
  from drive_request [OF fl assms(13,11) this assms(8,1,2,3), of strtod] obtain g' s' rep t sent unsent where
    d: "drive strtod g c (map (\<lambda>(clk, bs, w). Readable clk bs w) ps) = Some (g', with_output c unsent, sent)"
      "sent @ unsent = frame (enc rep)" "command strtod t s cmd s' rep" "implements g' s'" by blast
  have same: "c\<lparr>want_read := True, want_write := False, incoming := [], outgoing := []\<rparr> = c"
    "c\<lparr>incoming := [], want_read := True, want_write := False, outgoing := []\<rparr> = c" using assms(9-13) by (cases c; simp)+
  have w: "drive strtod g c (map (\<lambda>(clk, bs, w). Readable clk bs w) ps @ map (\<lambda>k. Writable (Write_upto k)) js) = Some (g', c, frame (enc rep))"
    if js: "0 \<notin> set js" "sum_list js = length unsent" for js
  proof -
    have "drive strtod g' (with_output c unsent) (map (\<lambda>k. Writable (Write_upto k)) js) = Some (g', c, unsent)"
    proof (cases "unsent = []")
      case True
      then have "js = []" using js by (cases js) auto
      then show ?thesis using True same by (simp add: with_output_def)
    next
      case False
      then show ?thesis using drive_writes [of js "with_output c unsent" strtod g'] js same by (simp add: with_output_def)
    qed
    then show ?thesis using drive_append [OF d(1)] d(2) by simp
  qed
  have "client_main True True cmd (map Some ks) (map Some hs @ map Some bss) = Some (Running (framed (enc_cmd cmd),
      if length (enc (sent_reply rep)) \<le> client_max_msg then print_of (sent_reply rep) else []))"
    if "pieces hs (take 4 (frame (enc rep)))" "pieces bss (drop 4 (frame (enc rep)))" for hs bss
    using that client_receives [OF assms(4-6) sent_reply_props(2) [OF command_reply_ok [OF d(3)]] sent_reply_props(1)]
    by (simp add: frame_sent)
  then show ?thesis using d(2-4) w assms(7) by (intro exI [of _ g'] exI [of _ s'] exI [of _ rep] exI [of _ t] exI [of _ sent] exI [of _ unsent]) simp
qed

theorem client_server_roundtrip_witness:
  "client_main True True [ascii ''foo''] [Some 9, Some 6]
     [Some [25, 0, 0, 0], Some (TAG_ERR # u32_bytes ERR_UNKNOWN), Some (u32_bytes 16 @ ascii ''unknown command.'')] =
   Some (Running (framed (enc_cmd [ascii ''foo'']), [PErr ERR_UNKNOWN (ascii ''unknown command.'')]))"
proof -
  let ?cmd = "[ascii ''foo'']" and ?rep = "RErr ERR_UNKNOWN (ascii ''unknown command.'')"
  let ?c = "\<lparr>cfd = 5, want_read = True, want_write = False, want_close = False, incoming = [], outgoing = [], last_active_ms = 0\<rparr>"
  let ?ps = "[(\<lambda>_. 0, take 7 (framed (enc_cmd ?cmd)), Write_again), (\<lambda>_. 1, drop 7 (framed (enc_cmd ?cmd)), Write_upto 5)]"
  have len: "length (enc_cmd ?cmd) \<le> client_max_msg" "0 \<notin> set [9, 6 :: nat]" "sum_list [9, 6] = 4 + length (enc_cmd ?cmd)" by code_simp+
  have ps: "concat (map (\<lambda>(clk, bs, w). bs) ?ps) = framed (enc_cmd ?cmd)" by (simp del: take_append drop_append)
  have "length (framed (enc_cmd ?cmd)) = 15" by code_simp
  then have op: "\<forall>(clk, bs, w) \<in> set ?ps. bs \<noteq> [] \<and> socket_open w" by (auto simp: socket_open_def)
  have room: "0 + 1 < avl_max" by (simp add: avl_max_def)
  have "\<exists>s rep t. command sample_strtod t Map.empty ?cmd s rep \<and> (\<forall>hs bss. pieces hs (take 4 (frame (enc rep))) \<longrightarrow>
      pieces bss (drop 4 (frame (enc rep))) \<longrightarrow> client_main True True ?cmd (map Some [9, 6]) (map Some hs @ map Some bss) =
        Some (Running (framed (enc_cmd ?cmd), if length (enc (sent_reply rep)) \<le> client_max_msg then print_of (sent_reply rep) else [])))"
    using client_server_roundtrip [OF implements_init fits_empty room len ps op, of ?c sample_strtod] unfolding ps by fastforce
  then obtain s rep t where r: "command sample_strtod t Map.empty ?cmd s rep"
    "\<And>hs bss. pieces hs (take 4 (frame (enc rep))) \<Longrightarrow> pieces bss (drop 4 (frame (enc rep))) \<Longrightarrow>
      client_main True True ?cmd (map Some [9, 6]) (map Some hs @ map Some bss) =
        Some (Running (framed (enc_cmd ?cmd), if length (enc (sent_reply rep)) \<le> client_max_msg then print_of (sent_reply rep) else []))"
    by blast
  have rep: "rep = ?rep" using r(1) by (cases rule: command.cases) (auto simp: ascii_inj)
  have p: "pieces [[25, 0, 0, 0]] (take 4 (frame (enc ?rep)))"
    "pieces [TAG_ERR # u32_bytes ERR_UNKNOWN, u32_bytes 16 @ ascii ''unknown command.''] (drop 4 (frame (enc ?rep)))" by code_simp+
  have l: "length (enc ?rep) \<le> client_max_msg" "\<not> k_max_msg < length (enc ?rep)" by code_simp+
  have sh: "sent_reply ?rep = ?rep" using l(2) by (simp only: sent_reply_def if_False)
  show ?thesis using r(2) [unfolded rep, OF p] l(1) unfolding sh by simp
qed

section \<open>The string hash\<close>

text \<open>\<open>str_hash\<close> is not the FNV-1a function that the README names: it adds the byte where FNV-1a XORs it.\<close>

theorem str_hash_not_fnv1a: "str_hash [0x61] 1 \<noteq> fnv1a [0x61]"
  by code_simp

end
